(* ===== verification/Pintos_Prelude.thy ===== *)
theory Pintos_Prelude
  imports Main "HOL-Library.Word" "HOL-Library.Monad_Syntax" "HOL-Library.Multiset"
    "HOL-Library.Signed_Division"
begin

text \<open>
  What every theory of the development shares: how a kernel panic is modelled, the C integer
  types of the 32-bit target, the rounding macros of \<^verbatim>\<open>lib/round.h\<close>, and the generic facts
  about option computations and lists that carry the component proofs.

  A kernel function that can panic (a failed \<^verbatim>\<open>ASSERT\<close>, a \<^verbatim>\<open>PANIC\<close>, \<^verbatim>\<open>NOT_REACHED\<close> or a
  dereference of a pointer to nothing) returns \<^typ>\<open>'a option\<close>; \<^term>\<open>None\<close> is the panic, and
  \<^theory_text>\<open>do\<close> blocks over \<^typ>\<open>'a option\<close> read like the sequence of C statements.
  C's \<^verbatim>\<open>size_t\<close>, \<^verbatim>\<open>unsigned\<close>, \<^verbatim>\<open>uintptr_t\<close> and pointers are natural numbers below
  \<^term>\<open>(2::nat) ^ 32\<close>; where a sum or a product may leave that range the reduction
  \<open>usz\<close> is written out.
\<close>

named_theorems rep_intros \<open>introduction rules for representation predicates\<close>
named_theorems step_simps \<open>equations of single kernel steps\<close>

subsection \<open>Panics\<close>

definition ASSERT :: "bool \<Rightarrow> unit option" where
  "ASSERT b = (if b then Some () else None)"

lemma bind_ASSERT [simp]: "Option.bind (ASSERT b) f = (if b then f () else None)"
  by (simp add: ASSERT_def)

lemma ASSERT_eq_Some [simp]: "ASSERT b = Some u \<longleftrightarrow> b"
  by (simp add: ASSERT_def)

lemma ASSERT_True [simp]: "ASSERT True = Some ()"
  by (simp add: ASSERT_def)

lemma bind_if_distrib: "Option.bind (if b then x else y) f = (if b then Option.bind x f else Option.bind y f)"
  by simp

lemma bind_eq_SomeE:
  assumes "Option.bind m f = Some y"
  obtains x where "m = Some x" and "f x = Some y"
  using assms by (cases m) auto

subsection \<open>Machine integers\<close>

type_synonym u8 = "8 word"
type_synonym u32 = "32 word"
type_synonym u64 = "64 word"
type_synonym byte = u8
type_synonym ptr = nat

abbreviation (input) NULL :: ptr where
  "NULL \<equiv> 0"

definition usz :: "nat \<Rightarrow> nat" where
  "usz n = n mod 2 ^ 32"

lemma usz_small [simp]: "n < 4294967296 \<Longrightarrow> usz n = n"
  by (simp add: usz_def)

lemma usz_less: "usz n < 2 ^ 32"
  by (simp add: usz_def)

text \<open>
  C's \<^verbatim>\<open>int\<close>, \<^verbatim>\<open>off_t\<close> and \<^verbatim>\<open>int64_t\<close> are integers reduced to their range, \<^verbatim>\<open>/\<close> and \<^verbatim>\<open>%\<close> are \<open>sdiv\<close> and \<open>smod\<close>;
  \<open>u32_of\<close> is the conversion to an unsigned type.
\<close>

definition s32 :: "int \<Rightarrow> int" where
  "s32 x = (x + 2 ^ 31) mod 2 ^ 32 - 2 ^ 31"

lemma s32_id [simp]: "- 2147483648 \<le> x \<Longrightarrow> x < 2147483648 \<Longrightarrow> s32 x = x"
  by (simp add: s32_def)

lemma s32_range: "- (2 ^ 31) \<le> s32 x \<and> s32 x < 2 ^ 31"
  by (simp add: s32_def)

definition s64 :: "int \<Rightarrow> int" where
  "s64 x = (x + 2 ^ 63) mod 2 ^ 64 - 2 ^ 63"

lemma s64_id [simp]: "- 9223372036854775808 \<le> x \<Longrightarrow> x < 9223372036854775808 \<Longrightarrow> s64 x = x"
  by (simp add: s64_def)

definition u32_of :: "int \<Rightarrow> nat" where
  "u32_of x = nat (x mod 2 ^ 32)"

lemma u32_of_nonneg [simp]: "0 \<le> x \<Longrightarrow> x < 4294967296 \<Longrightarrow> u32_of x = nat x"
  by (simp add: u32_of_def)

lemma sdivmod_nonneg: "0 \<le> a \<Longrightarrow> 0 < b \<Longrightarrow> a sdiv b = a div b" "0 \<le> a \<Longrightarrow> 0 < b \<Longrightarrow> a smod b = a mod b" for a b :: int
  by (auto simp: signed_divide_int_def signed_modulo_int_def sgn_if minus_div_mult_eq_mod)

subsection \<open>Rounding\<close>

definition ROUND_UP :: "nat \<Rightarrow> nat \<Rightarrow> nat" where
  "ROUND_UP x step = (x + step - 1) div step * step"

definition DIV_ROUND_UP :: "nat \<Rightarrow> nat \<Rightarrow> nat" where
  "DIV_ROUND_UP x step = (x + step - 1) div step"

definition ROUND_DOWN :: "nat \<Rightarrow> nat \<Rightarrow> nat" where
  "ROUND_DOWN x step = x div step * step"

lemma DIV_ROUND_UP_0 [simp]: "0 < s \<Longrightarrow> DIV_ROUND_UP 0 s = 0"
  by (simp add: DIV_ROUND_UP_def)

lemma DIV_ROUND_UP_le_iff:
  assumes "0 < s"
  shows "DIV_ROUND_UP x s \<le> k \<longleftrightarrow> x \<le> k * s"
proof -
  have "DIV_ROUND_UP x s < Suc k \<longleftrightarrow> x + s - 1 < Suc k * s"
    using assms by (simp add: DIV_ROUND_UP_def div_less_iff_less_mult)
  also have "\<dots> \<longleftrightarrow> x \<le> k * s"
    using assms by auto
  finally show ?thesis by (simp only: less_Suc_eq_le)
qed

lemma DIV_ROUND_UP_covers: "0 < s \<Longrightarrow> x \<le> DIV_ROUND_UP x s * s"
  using DIV_ROUND_UP_le_iff [of s x "DIV_ROUND_UP x s"] by simp

lemma DIV_ROUND_UP_tight:
  assumes "0 < s"
  shows "DIV_ROUND_UP x s * s < x + s"
proof -
  have "(x + s - 1) div s * s \<le> x + s - 1" by simp
  also have "\<dots> < x + s" using assms by simp
  finally show ?thesis by (simp only: DIV_ROUND_UP_def)
qed

lemma div_less_DIV_ROUND_UP: "0 < s \<Longrightarrow> i < x \<Longrightarrow> i div s < DIV_ROUND_UP x s"
  by (metis DIV_ROUND_UP_covers div_less_iff_less_mult order_less_le_trans)

lemma ROUND_UP_ge: "0 < s \<Longrightarrow> x \<le> ROUND_UP x s"
  using DIV_ROUND_UP_covers [of s x] by (simp add: ROUND_UP_def DIV_ROUND_UP_def)

lemma ROUND_UP_dvd: "s dvd ROUND_UP x s"
  by (simp add: ROUND_UP_def)

lemma ROUND_DOWN_le: "ROUND_DOWN x s \<le> x"
  by (simp add: ROUND_DOWN_def)

subsection \<open>Lists\<close>

lemma in_set_tlD: "x \<in> set (tl xs) \<Longrightarrow> x \<in> set xs"
  by (cases xs) auto

lemma remove1_split: "x \<notin> set ps \<Longrightarrow> remove1 x (ps @ x # qs) = ps @ qs"
  by (induction ps) auto

lemma distinct_split_unique:
  "ps @ x # qs = ps' @ x # qs' \<Longrightarrow> x \<notin> set ps \<Longrightarrow> x \<notin> set ps' \<Longrightarrow> ps = ps' \<and> qs = qs'"
  by (induction ps arbitrary: ps') (auto simp: Cons_eq_append_conv append_eq_Cons_conv)

lemma find_Some_split:
  assumes "List.find P xs = Some x"
  obtains ps qs where "xs = ps @ x # qs" and "P x" and "\<forall>y\<in>set ps. \<not> P y"
proof -
  from assms obtain i where "i < length xs" "P (xs ! i)" "x = xs ! i" "\<forall>j<i. \<not> P (xs ! j)"
    by (auto simp: find_Some_iff)
  then have "xs = take i xs @ x # drop (Suc i) xs" "P x"
    by (auto simp: id_take_nth_drop)
  moreover have "\<forall>y\<in>set (take i xs). \<not> P y"
    using \<open>\<forall>j<i. \<not> P (xs ! j)\<close> by (auto simp: in_set_conv_nth)
  ultimately show thesis using that by blast
qed

end
