(* ===== verification/Kernel_List.thy ===== *)
theory Kernel_List
  imports Pintos_Prelude
begin

text \<open>
  The intrusive doubly linked list of \<^verbatim>\<open>lib/kernel/list.c\<close>, on an explicit heap.
  A \<^verbatim>\<open>struct list_elem\<close> lives at an address and holds two addresses; a \<^verbatim>\<open>struct list\<close> is the
  pair of addresses of its two header elements. Every function of the file is translated to a
  function on the heap, its assertions and its pointer dereferences included: a read or write
  through a pointer that is no element is a panic. The loops are
  \<^theory_text>\<open>partial_function (option)\<close>, so a loop that does not end also has the value \<^term>\<open>None\<close>.

  The abstraction \<open>list_rep h l xs\<close> says that list \<open>l\<close> holds the elements \<open>xs\<close> in this order.
  For every operation a refinement lemma shows that on a represented list it neither panics nor
  diverges and leaves the list that the corresponding operation on \<open>xs\<close> gives. The theories of
  the kernel's clients work with the right-hand sides of these lemmas.
\<close>

subsection \<open>Elements, lists and the heap\<close>

record list_elem =
  le_prev :: ptr
  le_next :: ptr

record klist =
  l_head :: ptr
  l_tail :: ptr

type_synonym heap = "ptr \<rightharpoonup> list_elem"

type_synonym less_func = "ptr \<Rightarrow> ptr \<Rightarrow> bool"

definition get_prev :: "heap \<Rightarrow> ptr \<Rightarrow> ptr option" where
  "get_prev h p = map_option le_prev (h p)"

definition get_next :: "heap \<Rightarrow> ptr \<Rightarrow> ptr option" where
  "get_next h p = map_option le_next (h p)"

definition set_prev :: "heap \<Rightarrow> ptr \<Rightarrow> ptr \<Rightarrow> heap option" where
  "set_prev h p v = (case h p of None \<Rightarrow> None | Some e \<Rightarrow> Some (h(p \<mapsto> e\<lparr>le_prev := v\<rparr>)))"

definition set_next :: "heap \<Rightarrow> ptr \<Rightarrow> ptr \<Rightarrow> heap option" where
  "set_next h p v = (case h p of None \<Rightarrow> None | Some e \<Rightarrow> Some (h(p \<mapsto> e\<lparr>le_next := v\<rparr>)))"

subsection \<open>The operations\<close>

definition is_head :: "heap \<Rightarrow> ptr \<Rightarrow> bool option" where
  "is_head h e = (if e = NULL then Some False else
     do { p \<leftarrow> get_prev h e; n \<leftarrow> get_next h e; Some (p = NULL \<and> n \<noteq> NULL) })"

definition is_interior :: "heap \<Rightarrow> ptr \<Rightarrow> bool option" where
  "is_interior h e = (if e = NULL then Some False else
     do { p \<leftarrow> get_prev h e; n \<leftarrow> get_next h e; Some (p \<noteq> NULL \<and> n \<noteq> NULL) })"

definition is_tail :: "heap \<Rightarrow> ptr \<Rightarrow> bool option" where
  "is_tail h e = (if e = NULL then Some False else
     do { p \<leftarrow> get_prev h e; n \<leftarrow> get_next h e; Some (p \<noteq> NULL \<and> n = NULL) })"

definition list_init :: "heap \<Rightarrow> klist \<Rightarrow> heap option" where
  "list_init h l = do {
     h \<leftarrow> set_prev h (l_head l) NULL;
     h \<leftarrow> set_next h (l_head l) (l_tail l);
     h \<leftarrow> set_prev h (l_tail l) (l_head l);
     set_next h (l_tail l) NULL }"

definition list_begin :: "heap \<Rightarrow> klist \<Rightarrow> ptr option" where
  "list_begin h l = get_next h (l_head l)"

definition list_next :: "heap \<Rightarrow> ptr \<Rightarrow> ptr option" where
  "list_next h e = do {
     a \<leftarrow> is_head h e; b \<leftarrow> is_interior h e; ASSERT (a \<or> b);
     get_next h e }"

definition list_end :: "klist \<Rightarrow> ptr" where
  "list_end l = l_tail l"

definition list_rbegin :: "heap \<Rightarrow> klist \<Rightarrow> ptr option" where
  "list_rbegin h l = get_prev h (l_tail l)"

definition list_prev :: "heap \<Rightarrow> ptr \<Rightarrow> ptr option" where
  "list_prev h e = do {
     a \<leftarrow> is_interior h e; b \<leftarrow> is_tail h e; ASSERT (a \<or> b);
     get_prev h e }"

definition list_rend :: "klist \<Rightarrow> ptr" where
  "list_rend l = l_head l"

definition list_head :: "klist \<Rightarrow> ptr" where
  "list_head l = l_head l"

definition list_tail :: "klist \<Rightarrow> ptr" where
  "list_tail l = l_tail l"

definition list_insert :: "heap \<Rightarrow> ptr \<Rightarrow> ptr \<Rightarrow> heap option" where
  "list_insert h before elem = do {
     a \<leftarrow> is_interior h before; b \<leftarrow> is_tail h before; ASSERT (a \<or> b);
     ASSERT (elem \<noteq> NULL);
     bp \<leftarrow> get_prev h before;
     h \<leftarrow> set_prev h elem bp;
     h \<leftarrow> set_next h elem before;
     bp \<leftarrow> get_prev h before;
     h \<leftarrow> set_next h bp elem;
     set_prev h before elem }"

definition list_splice :: "heap \<Rightarrow> ptr \<Rightarrow> ptr \<Rightarrow> ptr \<Rightarrow> heap option" where
  "list_splice h before first lst = do {
     a \<leftarrow> is_interior h before; b \<leftarrow> is_tail h before; ASSERT (a \<or> b);
     if first = lst then Some h else do {
       lst \<leftarrow> list_prev h lst;
       a \<leftarrow> is_interior h first; ASSERT a;
       b \<leftarrow> is_interior h lst; ASSERT b;
       fp \<leftarrow> get_prev h first;
       ln \<leftarrow> get_next h lst;
       h \<leftarrow> set_next h fp ln;
       ln \<leftarrow> get_next h lst;
       fp \<leftarrow> get_prev h first;
       h \<leftarrow> set_prev h ln fp;
       bp \<leftarrow> get_prev h before;
       h \<leftarrow> set_prev h first bp;
       h \<leftarrow> set_next h lst before;
       bp \<leftarrow> get_prev h before;
       h \<leftarrow> set_next h bp first;
       set_prev h before lst } }"

definition list_push_front :: "heap \<Rightarrow> klist \<Rightarrow> ptr \<Rightarrow> heap option" where
  "list_push_front h l elem = do { b \<leftarrow> list_begin h l; list_insert h b elem }"

definition list_push_back :: "heap \<Rightarrow> klist \<Rightarrow> ptr \<Rightarrow> heap option" where
  "list_push_back h l elem = list_insert h (list_end l) elem"

definition list_remove :: "heap \<Rightarrow> ptr \<Rightarrow> (heap \<times> ptr) option" where
  "list_remove h elem = do {
     a \<leftarrow> is_interior h elem; ASSERT a;
     p \<leftarrow> get_prev h elem;
     n \<leftarrow> get_next h elem;
     h \<leftarrow> set_next h p n;
     n \<leftarrow> get_next h elem;
     p \<leftarrow> get_prev h elem;
     h \<leftarrow> set_prev h n p;
     n \<leftarrow> get_next h elem;
     Some (h, n) }"

definition list_empty :: "heap \<Rightarrow> klist \<Rightarrow> bool option" where
  "list_empty h l = do { b \<leftarrow> list_begin h l; Some (b = list_end l) }"

definition list_front :: "heap \<Rightarrow> klist \<Rightarrow> ptr option" where
  "list_front h l = do { e \<leftarrow> list_empty h l; ASSERT (\<not> e); get_next h (l_head l) }"

definition list_back :: "heap \<Rightarrow> klist \<Rightarrow> ptr option" where
  "list_back h l = do { e \<leftarrow> list_empty h l; ASSERT (\<not> e); get_prev h (l_tail l) }"

definition list_pop_front :: "heap \<Rightarrow> klist \<Rightarrow> (heap \<times> ptr) option" where
  "list_pop_front h l = do {
     front \<leftarrow> list_front h l;
     (h, _) \<leftarrow> list_remove h front;
     Some (h, front) }"

definition list_pop_back :: "heap \<Rightarrow> klist \<Rightarrow> (heap \<times> ptr) option" where
  "list_pop_back h l = do {
     back \<leftarrow> list_back h l;
     (h, _) \<leftarrow> list_remove h back;
     Some (h, back) }"

partial_function (option) list_size_loop :: "heap \<Rightarrow> ptr \<Rightarrow> ptr \<Rightarrow> nat \<Rightarrow> nat option" where
  "list_size_loop h e lst cnt =
     (if e = lst then Some cnt
      else do { e' \<leftarrow> list_next h e; list_size_loop h e' lst (cnt + 1) })"

definition list_size :: "heap \<Rightarrow> klist \<Rightarrow> nat option" where
  "list_size h l = do { b \<leftarrow> list_begin h l; list_size_loop h b (list_end l) 0 }"

text \<open>\<^verbatim>\<open>swap\<close> of the two link fields of one element.\<close>

definition swap_links :: "heap \<Rightarrow> ptr \<Rightarrow> heap option" where
  "swap_links h e = do {
     t \<leftarrow> get_prev h e;
     n \<leftarrow> get_next h e;
     h \<leftarrow> set_prev h e n;
     set_next h e t }"

partial_function (option) list_reverse_loop :: "heap \<Rightarrow> ptr \<Rightarrow> ptr \<Rightarrow> heap option" where
  "list_reverse_loop h e lst =
     (if e = lst then Some h
      else do {
        h' \<leftarrow> swap_links h e;
        e' \<leftarrow> get_prev h' e;
        list_reverse_loop h' e' lst })"

definition list_reverse :: "heap \<Rightarrow> klist \<Rightarrow> heap option" where
  "list_reverse h l = do {
     emp \<leftarrow> list_empty h l;
     if emp then Some h else do {
       b \<leftarrow> list_begin h l;
       h \<leftarrow> list_reverse_loop h b (list_end l);
       t \<leftarrow> get_next h (l_head l);
       tp \<leftarrow> get_prev h (l_tail l);
       h \<leftarrow> set_next h (l_head l) tp;
       h \<leftarrow> set_prev h (l_tail l) t;
       hn \<leftarrow> get_next h (l_head l);
       tp \<leftarrow> get_prev h (l_tail l);
       t \<leftarrow> get_prev h hn;
       v \<leftarrow> get_next h tp;
       h \<leftarrow> set_prev h hn v;
       set_next h tp t } }"

partial_function (option) is_sorted_loop ::
    "heap \<Rightarrow> ptr \<Rightarrow> ptr \<Rightarrow> less_func \<Rightarrow> bool option" where
  "is_sorted_loop h a b lessf = do {
     a' \<leftarrow> list_next h a;
     if a' = b then Some True
     else do {
       p \<leftarrow> list_prev h a';
       if lessf a' p then Some False else is_sorted_loop h a' b lessf } }"

definition is_sorted :: "heap \<Rightarrow> ptr \<Rightarrow> ptr \<Rightarrow> less_func \<Rightarrow> bool option" where
  "is_sorted h a b lessf = (if a \<noteq> b then is_sorted_loop h a b lessf else Some True)"

partial_function (option) find_end_of_run_loop ::
    "heap \<Rightarrow> ptr \<Rightarrow> ptr \<Rightarrow> less_func \<Rightarrow> ptr option" where
  "find_end_of_run_loop h a b lessf = do {
     a' \<leftarrow> list_next h a;
     if a' = b then Some a'
     else do {
       p \<leftarrow> list_prev h a';
       if lessf a' p then Some a' else find_end_of_run_loop h a' b lessf } }"

definition find_end_of_run :: "heap \<Rightarrow> ptr \<Rightarrow> ptr \<Rightarrow> less_func \<Rightarrow> ptr option" where
  "find_end_of_run h a b lessf = do {
     ASSERT (a \<noteq> NULL); ASSERT (b \<noteq> NULL); ASSERT (a \<noteq> b);
     find_end_of_run_loop h a b lessf }"

partial_function (option) inplace_merge_loop ::
    "heap \<Rightarrow> ptr \<Rightarrow> ptr \<Rightarrow> ptr \<Rightarrow> less_func \<Rightarrow> heap option" where
  "inplace_merge_loop h a0 a1b0 b1 lessf =
     (if a0 \<noteq> a1b0 \<and> a1b0 \<noteq> b1 then
        (if \<not> lessf a1b0 a0 then do {
           a0' \<leftarrow> list_next h a0;
           inplace_merge_loop h a0' a1b0 b1 lessf }
         else do {
           a1b0' \<leftarrow> list_next h a1b0;
           p \<leftarrow> list_prev h a1b0';
           h' \<leftarrow> list_splice h a0 p a1b0';
           inplace_merge_loop h' a0 a1b0' b1 lessf })
      else Some h)"

definition inplace_merge ::
    "heap \<Rightarrow> ptr \<Rightarrow> ptr \<Rightarrow> ptr \<Rightarrow> less_func \<Rightarrow> heap option" where
  "inplace_merge h a0 a1b0 b1 lessf = do {
     ASSERT (a0 \<noteq> NULL); ASSERT (a1b0 \<noteq> NULL); ASSERT (b1 \<noteq> NULL);
     s1 \<leftarrow> is_sorted h a0 a1b0 lessf; ASSERT s1;
     s2 \<leftarrow> is_sorted h a1b0 b1 lessf; ASSERT s2;
     inplace_merge_loop h a0 a1b0 b1 lessf }"

text \<open>The inner \<^verbatim>\<open>for\<close> loop of \<^verbatim>\<open>list_sort\<close>: one pass, with the number of runs it output.\<close>

partial_function (option) list_sort_pass ::
    "heap \<Rightarrow> ptr \<Rightarrow> klist \<Rightarrow> less_func \<Rightarrow> nat \<Rightarrow> (heap \<times> nat) option" where
  "list_sort_pass h a0 l lessf cnt =
     (if a0 = list_end l then Some (h, cnt)
      else do {
        a1b0 \<leftarrow> find_end_of_run h a0 (list_end l) lessf;
        if a1b0 = list_end l then Some (h, cnt + 1)
        else do {
          b1 \<leftarrow> find_end_of_run h a1b0 (list_end l) lessf;
          h' \<leftarrow> inplace_merge h a0 a1b0 b1 lessf;
          list_sort_pass h' b1 l lessf (cnt + 1) } })"

partial_function (option) list_sort_loop ::
    "heap \<Rightarrow> klist \<Rightarrow> less_func \<Rightarrow> heap option" where
  "list_sort_loop h l lessf = do {
     a0 \<leftarrow> list_begin h l;
     r \<leftarrow> list_sort_pass h a0 l lessf 0;
     (if snd r > 1 then list_sort_loop (fst r) l lessf else Some (fst r)) }"

definition list_sort :: "heap \<Rightarrow> klist \<Rightarrow> less_func \<Rightarrow> heap option" where
  "list_sort h l lessf = do {
     h \<leftarrow> list_sort_loop h l lessf;
     b \<leftarrow> list_begin h l;
     s \<leftarrow> is_sorted h b (list_end l) lessf; ASSERT s;
     Some h }"

partial_function (option) list_insert_ordered_loop ::
    "heap \<Rightarrow> ptr \<Rightarrow> ptr \<Rightarrow> ptr \<Rightarrow> less_func \<Rightarrow> ptr option" where
  "list_insert_ordered_loop h e lst elem lessf =
     (if e = lst then Some e
      else if lessf elem e then Some e
      else do { e' \<leftarrow> list_next h e; list_insert_ordered_loop h e' lst elem lessf })"

definition list_insert_ordered :: "heap \<Rightarrow> klist \<Rightarrow> ptr \<Rightarrow> less_func \<Rightarrow> heap option" where
  "list_insert_ordered h l elem lessf = do {
     ASSERT (elem \<noteq> NULL);
     b \<leftarrow> list_begin h l;
     e \<leftarrow> list_insert_ordered_loop h b (list_end l) elem lessf;
     list_insert h e elem }"

text \<open>\<^verbatim>\<open>DUPLICATES\<close> is \<^term>\<open>None\<close> for the null pointer.\<close>

partial_function (option) list_unique_loop ::
    "heap \<Rightarrow> ptr \<Rightarrow> klist \<Rightarrow> klist option \<Rightarrow> less_func \<Rightarrow> heap option" where
  "list_unique_loop h elem l duplicates lessf = do {
     n \<leftarrow> list_next h elem;
     if n = list_end l then Some h
     else if \<not> lessf elem n \<and> \<not> lessf n elem then do {
       r \<leftarrow> list_remove h n;
       h' \<leftarrow> (case duplicates of None \<Rightarrow> Some (fst r) | Some d \<Rightarrow> list_push_back (fst r) d n);
       list_unique_loop h' elem l duplicates lessf }
     else list_unique_loop h n l duplicates lessf }"

definition list_unique :: "heap \<Rightarrow> klist \<Rightarrow> klist option \<Rightarrow> less_func \<Rightarrow> heap option" where
  "list_unique h l duplicates lessf = do {
     emp \<leftarrow> list_empty h l;
     if emp then Some h else do {
       elem \<leftarrow> list_begin h l;
       list_unique_loop h elem l duplicates lessf } }"

partial_function (option) list_max_loop ::
    "heap \<Rightarrow> ptr \<Rightarrow> ptr \<Rightarrow> ptr \<Rightarrow> less_func \<Rightarrow> ptr option" where
  "list_max_loop h m e lst lessf =
     (if e = lst then Some m
      else do {
        e' \<leftarrow> list_next h e;
        list_max_loop h (if lessf m e then e else m) e' lst lessf })"

definition list_max :: "heap \<Rightarrow> klist \<Rightarrow> less_func \<Rightarrow> ptr option" where
  "list_max h l lessf = do {
     m \<leftarrow> list_begin h l;
     if m \<noteq> list_end l then do {
       e \<leftarrow> list_next h m;
       list_max_loop h m e (list_end l) lessf }
     else Some m }"

partial_function (option) list_min_loop ::
    "heap \<Rightarrow> ptr \<Rightarrow> ptr \<Rightarrow> ptr \<Rightarrow> less_func \<Rightarrow> ptr option" where
  "list_min_loop h m e lst lessf =
     (if e = lst then Some m
      else do {
        e' \<leftarrow> list_next h e;
        list_min_loop h (if lessf e m then e else m) e' lst lessf })"

definition list_min :: "heap \<Rightarrow> klist \<Rightarrow> less_func \<Rightarrow> ptr option" where
  "list_min h l lessf = do {
     m \<leftarrow> list_begin h l;
     if m \<noteq> list_end l then do {
       e \<leftarrow> list_next h m;
       list_min_loop h m e (list_end l) lessf }
     else Some m }"

subsection \<open>The abstraction: which elements a list holds\<close>

fun linked :: "heap \<Rightarrow> ptr list \<Rightarrow> bool" where
  "linked h (a # b # ps) \<longleftrightarrow>
     get_next h a = Some b \<and> get_prev h b = Some a \<and> linked h (b # ps)"
| "linked h ps \<longleftrightarrow> True"

definition chain :: "heap \<Rightarrow> ptr list \<Rightarrow> bool" where
  "chain h ps \<longleftrightarrow> distinct ps \<and> NULL \<notin> set ps \<and> linked h ps \<and>
     get_prev h (hd ps) = Some NULL \<and> get_next h (last ps) = Some NULL"

definition list_rep :: "heap \<Rightarrow> klist \<Rightarrow> ptr list \<Rightarrow> bool" where
  "list_rep h l xs \<longleftrightarrow> chain h (l_head l # xs @ [l_tail l])"

text \<open>Two heaps agree outside a set of addresses.\<close>

definition same_except :: "ptr set \<Rightarrow> heap \<Rightarrow> heap \<Rightarrow> bool" where
  "same_except A h h' \<longleftrightarrow> dom h' = dom h \<and> (\<forall>q. q \<notin> A \<longrightarrow> h' q = h q)"

lemma same_except_refl [simp]: "same_except A h h"
  by (simp add: same_except_def)

lemma same_except_trans:
  "same_except A h h' \<Longrightarrow> same_except B h' h'' \<Longrightarrow> same_except (A \<union> B) h h''"
  by (simp add: same_except_def)

lemma same_except_mono: "same_except A h h' \<Longrightarrow> A \<subseteq> B \<Longrightarrow> same_except B h h'"
  by (auto simp: same_except_def)

subsubsection \<open>Reading and writing one element\<close>

lemma get_next_dom: "get_next h p = Some v \<Longrightarrow> p \<in> dom h"
  and get_prev_dom: "get_prev h p = Some v \<Longrightarrow> p \<in> dom h"
  by (auto simp: get_next_def get_prev_def)

lemma dom_get: "p \<in> dom h \<Longrightarrow> \<exists>v. get_next h p = Some v" "p \<in> dom h \<Longrightarrow> \<exists>v. get_prev h p = Some v"
  by (auto simp: get_next_def get_prev_def)

definition upd_prev :: "heap \<Rightarrow> ptr \<Rightarrow> ptr \<Rightarrow> heap" where
  "upd_prev h p v = h(p := map_option (\<lambda>e. e\<lparr>le_prev := v\<rparr>) (h p))"

definition upd_next :: "heap \<Rightarrow> ptr \<Rightarrow> ptr \<Rightarrow> heap" where
  "upd_next h p v = h(p := map_option (\<lambda>e. e\<lparr>le_next := v\<rparr>) (h p))"

lemma set_prev_upd: "set_prev h p v = (if p \<in> dom h then Some (upd_prev h p v) else None)"
  by (auto simp: set_prev_def upd_prev_def split: option.splits)

lemma set_next_upd: "set_next h p v = (if p \<in> dom h then Some (upd_next h p v) else None)"
  by (auto simp: set_next_def upd_next_def split: option.splits)

lemma dom_upd [simp]: "dom (upd_prev h p v) = dom h" "dom (upd_next h p v) = dom h"
  by (auto simp: upd_prev_def upd_next_def)

lemma get_upd [simp]:
  "get_prev (upd_prev h p v) q = (if q = p \<and> p \<in> dom h then Some v else get_prev h q)"
  "get_next (upd_next h p v) q = (if q = p \<and> p \<in> dom h then Some v else get_next h q)"
  "get_prev (upd_next h p v) q = get_prev h q"
  "get_next (upd_prev h p v) q = get_next h q"
  by (cases "h p"; auto simp: get_prev_def get_next_def upd_prev_def upd_next_def)+

lemma upd_other [simp]: "q \<noteq> p \<Longrightarrow> upd_prev h p v q = h q" "q \<noteq> p \<Longrightarrow> upd_next h p v q = h q"
  by (auto simp: upd_prev_def upd_next_def)

lemma same_except_upd [rep_intros]:
  "same_except A h h' \<Longrightarrow> p \<in> A \<Longrightarrow> same_except A h (upd_prev h' p v)"
  "same_except A h h' \<Longrightarrow> p \<in> A \<Longrightarrow> same_except A h (upd_next h' p v)"
  by (auto simp: same_except_def upd_prev_def upd_next_def)

lemmas set_upds = set_prev_upd set_next_upd

subsubsection \<open>Chains\<close>

lemma linked_append: "linked h (ps @ a # qs) \<longleftrightarrow> linked h (ps @ [a]) \<and> linked h (a # qs)"
  by (induction h ps rule: linked.induct) (auto simp: neq_Nil_conv split: list.splits)

lemma linked_cong:
  assumes "\<And>p. p \<in> set (butlast ps) \<Longrightarrow> get_next h' p = get_next h p"
    and "\<And>p. p \<in> set (tl ps) \<Longrightarrow> get_prev h' p = get_prev h p"
  shows "linked h' ps = linked h ps"
  using assms by (induction h ps rule: linked.induct) auto

lemma linked_frame:
  assumes "distinct ps"
    and "\<And>p. p \<in> set ps \<Longrightarrow> p \<noteq> last ps \<Longrightarrow> get_next h' p = get_next h p"
    and "\<And>p. p \<in> set ps \<Longrightarrow> p \<noteq> hd ps \<Longrightarrow> get_prev h' p = get_prev h p"
  shows "linked h' ps = linked h ps"
proof (cases "ps = []")
  case False
  have "set (butlast ps) = set ps - {last ps}"
    using assms(1) False by (cases ps rule: rev_cases) auto
  moreover have "set (tl ps) = set ps - {hd ps}"
    using assms(1) False by (cases ps) auto
  ultimately show ?thesis using assms(2,3) by (intro linked_cong) auto
qed simp

lemma chain_split:
  "chain h (ps @ a # b # qs) \<longleftrightarrow>
     distinct (ps @ a # b # qs) \<and> NULL \<notin> set (ps @ a # b # qs) \<and>
     linked h (ps @ [a]) \<and> get_next h a = Some b \<and> get_prev h b = Some a \<and> linked h (b # qs) \<and>
     get_prev h (hd (ps @ [a])) = Some NULL \<and> get_next h (last (b # qs)) = Some NULL"
  unfolding chain_def
  by (subst linked_append) (auto simp: hd_append)

lemma chain_distinct: "chain h ps \<Longrightarrow> distinct ps"
  and chain_nonnull: "chain h ps \<Longrightarrow> NULL \<notin> set ps"
  by (auto simp: chain_def)

lemma chain_next: "chain h (ps @ a # b # qs) \<Longrightarrow> get_next h a = Some b"
  and chain_prev: "chain h (ps @ a # b # qs) \<Longrightarrow> get_prev h b = Some a"
  by (auto simp: chain_split)

lemma chain_hd_prev: "chain h (a # qs) \<Longrightarrow> get_prev h a = Some NULL"
  and chain_last_next: "chain h (ps @ [a]) \<Longrightarrow> get_next h a = Some NULL"
  by (auto simp: chain_def)

text \<open>What the three shape tests answer, by the element's place in the chain.\<close>

lemma chain_interior_prev:
  assumes "chain h (ps @ x # qs)" "ps \<noteq> []"
  shows "get_prev h x = Some (last ps)" and "last ps \<noteq> NULL"
proof -
  obtain ps' where ps: "ps = ps' @ [last ps]" using assms(2) by (metis append_butlast_last_id)
  then have "chain h (ps' @ last ps # x # qs)"
    using assms(1) by (metis append.assoc append_Cons append_Nil)
  then show "get_prev h x = Some (last ps)" and "last ps \<noteq> NULL"
    by (auto simp: chain_split)
qed

lemma chain_interior_next:
  assumes "chain h (ps @ x # qs)" "qs \<noteq> []"
  shows "get_next h x = Some (hd qs)" and "hd qs \<noteq> NULL"
  using assms by (cases qs; auto simp: chain_split)+

lemma chain_elem_shape:
  assumes "chain h (ps @ x # qs)"
  shows "ps = [] \<Longrightarrow> qs \<noteq> [] \<Longrightarrow> is_head h x = Some True"
    and "ps \<noteq> [] \<Longrightarrow> is_head h x = Some False"
    and "ps \<noteq> [] \<Longrightarrow> qs \<noteq> [] \<Longrightarrow> is_interior h x = Some True"
    and "ps = [] \<or> qs = [] \<Longrightarrow> is_interior h x = Some False"
    and "ps \<noteq> [] \<Longrightarrow> qs = [] \<Longrightarrow> is_tail h x = Some True"
    and "qs \<noteq> [] \<Longrightarrow> is_tail h x = Some False"
proof -
  have x: "x \<noteq> NULL" using chain_nonnull [OF assms] by auto
  have p: "get_prev h x = Some (if ps = [] then NULL else last ps)"
    using chain_interior_prev(1) [OF assms] chain_hd_prev [of h x qs] assms by auto
  have n: "get_next h x = Some (if qs = [] then NULL else hd qs)"
    using chain_interior_next(1) [OF assms] chain_last_next [of h ps x] assms by auto
  note shape = is_head_def is_interior_def is_tail_def p n
  note nn = chain_interior_prev(2) [OF assms] chain_interior_next(2) [OF assms]
  show "ps = [] \<Longrightarrow> qs \<noteq> [] \<Longrightarrow> is_head h x = Some True"
    and "ps \<noteq> [] \<Longrightarrow> is_head h x = Some False"
    and "ps \<noteq> [] \<Longrightarrow> qs \<noteq> [] \<Longrightarrow> is_interior h x = Some True"
    and "ps = [] \<or> qs = [] \<Longrightarrow> is_interior h x = Some False"
    and "ps \<noteq> [] \<Longrightarrow> qs = [] \<Longrightarrow> is_tail h x = Some True"
    and "qs \<noteq> [] \<Longrightarrow> is_tail h x = Some False"
    using x nn by (auto simp: shape)
qed

lemma chain_list_next:
  assumes "chain h (ps @ a # b # qs)"
  shows "list_next h a = Some b"
  using chain_elem_shape(1-4) [OF assms] chain_next [OF assms]
  by (cases "ps = []") (auto simp: list_next_def)

lemma chain_list_prev:
  assumes "chain h (ps @ a # b # qs)"
  shows "list_prev h b = Some a"
proof -
  from assms have c: "chain h ((ps @ [a]) @ b # qs)" by simp
  show ?thesis
    using chain_elem_shape(3-6) [OF c] chain_prev [OF assms]
    by (cases "qs = []") (auto simp: list_prev_def)
qed


lemma chain_elem_dom:
  assumes "chain h ps" "2 \<le> length ps" "x \<in> set ps"
  shows "x \<in> dom h"
proof -
  obtain as bs where s: "ps = as @ x # bs" using assms(3) by (meson split_list)
  show ?thesis
  proof (cases "as = []")
    case True
    then show ?thesis using assms(1) s chain_hd_prev get_prev_dom by fastforce
  next
    case False
    then show ?thesis using assms(1) s chain_interior_prev(1) get_prev_dom by metis
  qed
qed

subsection \<open>Insertion, removal and splicing on a chain\<close>

text \<open>The element before which \<^verbatim>\<open>list_insert\<close> inserts is interior or the tail.\<close>

lemma before_ok:
  assumes "chain h (ps @ b # qs)" "ps \<noteq> []"
  shows "(\<exists>i t. is_interior h b = Some i \<and> is_tail h b = Some t \<and> (i \<or> t))"
  using chain_elem_shape(3-6) [OF assms(1)] assms(2) by (cases "qs = []") auto

lemma list_insert_chain:
  assumes c: "chain h (ps @ a # b # qs)" and x: "x \<notin> set (ps @ a # b # qs)" "x \<noteq> NULL" "x \<in> dom h"
  shows "\<exists>h'. list_insert h b x = Some h' \<and> chain h' (ps @ a # x # b # qs) \<and> same_except {a, x, b} h h'"
proof -
  define h' where "h' = upd_prev (upd_next (upd_next (upd_prev h x a) x b) a x) b x"
  from c have "chain h ((ps @ [a]) @ b # qs)" by simp
  then obtain i t where it: "is_interior h b = Some i" "is_tail h b = Some t" "i \<or> t"
    using before_ok [of h "ps @ [a]" b qs] by auto
  have d: "a \<in> dom h" "b \<in> dom h"
    using chain_elem_dom [OF c] by auto
  have bp: "get_prev h b = Some a" using chain_prev [OF c] .
  have ne: "x \<noteq> a" "x \<noteq> b" "a \<noteq> b" using x(1) chain_distinct [OF c] by auto
  have "list_insert h b x = Some h'"
    using it x(2,3) ne d bp by (simp add: list_insert_def set_upds h'_def)
  moreover have "chain h' (ps @ a # x # b # qs)"
  proof -
    have l1: "linked h' (ps @ [a]) = linked h (ps @ [a])"
      by (rule linked_cong)
        (use x(1) chain_distinct [OF c] ne in \<open>auto simp: h'_def dest: in_set_butlastD in_set_tlD\<close>)
    have l2: "linked h' (b # qs) = linked h (b # qs)"
      by (rule linked_cong)
        (use x(1) chain_distinct [OF c] ne in \<open>auto simp: h'_def dest: in_set_butlastD in_set_tlD split: if_splits\<close>)
    have hl: "get_prev h' (hd (ps @ [a])) = Some NULL" "get_next h' (last (b # qs)) = Some NULL"
      using c ne x(1) chain_distinct [OF c] by (auto simp: h'_def chain_split hd_append split: if_splits)
    show ?thesis
      unfolding chain_split
      using c x ne d l1 l2 hl by (auto simp: chain_split h'_def)
  qed
  moreover have "same_except {a, x, b} h h'"
    unfolding h'_def by (intro rep_intros) auto
  ultimately show ?thesis by blast
qed

lemma list_remove_chain:
  assumes c: "chain h (ps @ a # x # b # qs)"
  shows "\<exists>h'. list_remove h x = Some (h', b) \<and> chain h' (ps @ a # b # qs) \<and> same_except {a, b} h h'"
proof -
  define h' where "h' = upd_prev (upd_next h a b) b a"
  from c have c1: "chain h ((ps @ [a]) @ x # b # qs)" by simp
  have i: "is_interior h x = Some True" using chain_elem_shape(3) [OF c1] by simp
  have d: "a \<in> dom h" "b \<in> dom h" "x \<in> dom h" using chain_elem_dom [OF c] by auto
  have pn: "get_prev h x = Some a" "get_next h x = Some b"
    using chain_prev [OF c] chain_next [OF c1] by auto
  have ne: "x \<noteq> a" "x \<noteq> b" "a \<noteq> b" "a \<noteq> NULL" "b \<noteq> NULL"
    using chain_distinct [OF c] chain_nonnull [OF c] by auto
  have "list_remove h x = Some (h', b)"
    using i d pn ne by (simp add: list_remove_def set_upds h'_def)
  moreover have "chain h' (ps @ a # b # qs)"
  proof -
    have l: "linked h (ps @ [a])" "linked h (b # qs)"
      using c c1 by (auto simp: chain_split)
    have l1: "linked h' (ps @ [a]) = linked h (ps @ [a])"
      by (rule linked_cong)
        (use chain_distinct [OF c] ne in \<open>auto simp: h'_def dest: in_set_butlastD in_set_tlD\<close>)
    have l2: "linked h' (b # qs) = linked h (b # qs)"
      by (rule linked_cong)
        (use chain_distinct [OF c] ne in \<open>auto simp: h'_def dest: in_set_butlastD in_set_tlD split: if_splits\<close>)
    have hl: "get_prev h' (hd (ps @ [a])) = Some NULL" "get_next h' (last (b # qs)) = Some NULL"
      using c ne chain_distinct [OF c] by (auto simp: h'_def chain_split hd_append split: if_splits)
    show ?thesis
      unfolding chain_split
      using c ne d l l1 l2 hl by (auto simp: chain_split h'_def)
  qed
  moreover have "same_except {a, b} h h'"
    unfolding h'_def by (intro rep_intros) auto
  ultimately show ?thesis by blast
qed

lemma chain_interior:
  assumes "chain h (ps @ xs @ qs)" "ps \<noteq> []" "qs \<noteq> []" "x \<in> set xs"
  shows "is_interior h x = Some True"
proof -
  obtain as bs where "xs = as @ x # bs" using assms(4) by (meson split_list)
  then show ?thesis
    using chain_elem_shape(3) [of h "ps @ as" x "bs @ qs"] assms(1-3) by simp
qed

lemma linked_join:
  "ps \<noteq> [] \<Longrightarrow> qs \<noteq> [] \<Longrightarrow> linked h (ps @ qs) \<longleftrightarrow>
     linked h ps \<and> linked h qs \<and> get_next h (last ps) = Some (hd qs) \<and> get_prev h (hd qs) = Some (last ps)"
proof (induction ps)
  case (Cons a ps)
  then show ?case by (cases ps; cases qs) auto
qed simp

lemma list_splice_chain:
  assumes c: "chain h (ps @ u # bs @ fs @ y # qs)" and ne: "bs \<noteq> []" "fs \<noteq> []"
  shows "\<exists>h'. list_splice h (hd bs) (hd fs) y = Some h' \<and> chain h' (ps @ u # fs @ bs @ y # qs) \<and>
           same_except (set (u # bs @ fs @ [y])) h h'"
proof -
  let ?b = "hd bs" and ?lb = "last bs" and ?f = "hd fs" and ?lf = "last fs"
  define h' where "h' = upd_prev (upd_next (upd_next (upd_prev
    (upd_prev (upd_next h ?lb y) y ?lb) ?f u) ?lf ?b) u ?f) ?b ?lf"
  have mem: "?b \<in> set bs" "?lb \<in> set bs" "?f \<in> set fs" "?lf \<in> set fs"
    using ne by auto
  have dist: "distinct (ps @ u # bs @ fs @ y # qs)" and nn: "NULL \<notin> set (ps @ u # bs @ fs @ y # qs)"
    using c by (auto simp: chain_def)
  have dom: "z \<in> dom h" if "z \<in> set (u # bs @ fs @ [y])" for z
    using chain_elem_dom [OF c] that by auto
  have lk: "linked h ((ps @ [u]) @ bs @ fs @ y # qs)"
    using c by (simp add: chain_def)
  then have ls: "linked h (ps @ [u])" "linked h bs" "linked h fs" "linked h (y # qs)"
    and j: "get_prev h ?b = Some u" "get_next h u = Some ?b" "get_next h ?lb = Some ?f"
      "get_prev h ?f = Some ?lb" "get_next h ?lf = Some y" "get_prev h y = Some ?lf"
    using ne by (auto simp: linked_join simp del: append_assoc)
  have d: "?b \<noteq> ?f" "?b \<noteq> ?lf" "?lb \<noteq> ?f" "?lb \<noteq> ?lf" "u \<notin> set (bs @ fs @ [y])" "y \<notin> set (u # bs @ fs)"
    and disj: "set bs \<inter> set fs = {}"
    using dist mem by auto
  have nz: "u \<noteq> NULL" "y \<noteq> NULL" "?lb \<noteq> NULL" "?b \<noteq> NULL" "?f \<noteq> NULL" "?lf \<noteq> NULL"
    using nn mem by (metis Un_iff in_set_conv_decomp set_append list.set_intros(1,2))+
  have "\<exists>i t. is_interior h ?b = Some i \<and> is_tail h ?b = Some t \<and> (i \<or> t)"
    using before_ok [of h "ps @ [u]" ?b "tl bs @ fs @ y # qs"] c ne(1)
    by (metis append.assoc append_Cons append_Nil hd_Cons_tl snoc_eq_iff_butlast)
  then obtain i t where it: "is_interior h ?b = Some i" "is_tail h ?b = Some t" "i \<or> t" by blast
  have lp: "list_prev h y = Some ?lf"
    using chain_list_prev [of h "ps @ u # bs @ butlast fs" ?lf y qs] c ne(2)
    by (metis append.assoc append_Cons append_Nil append_butlast_last_id)
  have ii: "is_interior h ?f = Some True" "is_interior h ?lf = Some True"
    using chain_interior [of h "ps @ u # bs" fs "y # qs"] c mem by auto
  have "list_splice h ?b ?f y = Some h'"
    using it lp ii j d mem dom by (auto simp: list_splice_def set_upds h'_def)
  moreover have "chain h' ((ps @ [u]) @ fs @ bs @ y # qs)"
  proof -
    have gn: "get_next h' q = (if q = u then Some ?f else if q = ?lf then Some ?b
        else if q = ?lb then Some y else get_next h q)"
      and gp: "get_prev h' q = (if q = ?b then Some ?lf else if q = ?f then Some u
        else if q = y then Some ?lb else get_prev h q)" for q
      using dom mem d by (auto simp: h'_def)
    have un: "u \<notin> set qs" "y \<notin> set ps" "set bs \<inter> (set ps \<union> set qs) = {}" "set fs \<inter> (set ps \<union> set qs) = {}"
      using dist by auto
    have "linked h' (ps @ [u]) = linked h (ps @ [u])"
      by (rule linked_frame) (use dist d un mem in \<open>auto simp: gn gp\<close>)
    moreover have "linked h' bs = linked h bs"
      by (rule linked_frame) (use dist d un disj mem in \<open>auto simp: gn gp\<close>)
    moreover have "linked h' fs = linked h fs"
      by (rule linked_frame) (use dist d un disj mem in \<open>auto simp: gn gp\<close>)
    moreover have "linked h' (y # qs) = linked h (y # qs)"
      by (rule linked_frame) (use dist d un mem in \<open>auto simp: gn gp\<close>)
    moreover have "get_prev h' (hd (ps @ [u])) = get_prev h (hd (ps @ [u]))"
      "get_next h' (last (y # qs)) = get_next h (last (y # qs))"
      using un d mem hd_in_set [of "ps @ [u]"] last_in_set [of "y # qs"] by (auto simp: gn gp)
    moreover have "get_next h' u = Some ?f" "get_prev h' ?f = Some u" "get_next h' ?lf = Some ?b"
      "get_prev h' ?b = Some ?lf" "get_next h' ?lb = Some y" "get_prev h' y = Some ?lb"
      using mem d disj by (auto simp: gn gp)
    ultimately show ?thesis
      using c dist nn ne ls
      by (auto simp: chain_def linked_join hd_append simp del: append_assoc split: if_splits)
  qed
  moreover have "same_except (set (u # bs @ fs @ [y])) h h'"
    unfolding h'_def using mem by (intro rep_intros) auto
  ultimately show ?thesis by auto
qed

subsection \<open>Refinement of the list operations\<close>

lemma ends_eq:
  "butlast (a # ps) @ last (a # ps) # ys = a # ps @ ys"
  "hd (qs @ [t]) # tl (qs @ [t]) = qs @ [t]"
  by (metis append.assoc append_Cons append_Nil append_butlast_last_id list.distinct(1)) simp

lemma list_rep_split:
  "list_rep h l (ps @ qs) \<longleftrightarrow>
     chain h (butlast (l_head l # ps) @ last (l_head l # ps) # hd (qs @ [l_tail l]) # tl (qs @ [l_tail l]))"
  by (simp only: list_rep_def ends_eq append_assoc)

lemma chain_frame:
  assumes "chain h ps" "same_except A h h'" "A \<inter> set ps = {}" "ps \<noteq> []"
  shows "chain h' ps"
proof -
  have eq: "get_next h' p = get_next h p" "get_prev h' p = get_prev h p" if "p \<in> set ps" for p
    using assms(2,3) that by (auto simp: same_except_def get_next_def get_prev_def)
  have "linked h' ps = linked h ps"
    using assms(1) eq by (intro linked_frame) (auto simp: chain_def)
  then show ?thesis
    using assms(1,4) eq by (simp add: chain_def)
qed

definition list_addrs :: "klist \<Rightarrow> ptr list \<Rightarrow> ptr set" where
  "list_addrs l xs = insert (l_head l) (insert (l_tail l) (set xs))"

lemma list_rep_frame:
  "list_rep h l xs \<Longrightarrow> same_except A h h' \<Longrightarrow> A \<inter> list_addrs l xs = {} \<Longrightarrow> list_rep h' l xs"
  unfolding list_rep_def list_addrs_def by (erule chain_frame) auto

lemma list_init_rep:
  assumes "l_head l \<noteq> l_tail l" "l_head l \<noteq> NULL" "l_tail l \<noteq> NULL" "l_head l \<in> dom h" "l_tail l \<in> dom h"
  shows "\<exists>h'. list_init h l = Some h' \<and> list_rep h' l [] \<and> same_except (list_addrs l []) h h'"
proof -
  define h' where "h' = upd_next (upd_prev (upd_next (upd_prev h (l_head l) NULL) (l_head l) (l_tail l))
      (l_tail l) (l_head l)) (l_tail l) NULL"
  have "list_init h l = Some h'"
    using assms by (simp add: list_init_def set_upds h'_def)
  moreover have "list_rep h' l []"
    using assms by (auto simp: list_rep_def chain_def h'_def)
  moreover have "same_except (list_addrs l []) h h'"
    unfolding h'_def by (intro rep_intros) (auto simp: list_addrs_def)
  ultimately show ?thesis by blast
qed

lemma list_begin_rep [step_simps]:
  assumes "list_rep h l xs"
  shows "list_begin h l = Some (hd (xs @ [l_tail l]))"
  using assms chain_next [of h "[]" "l_head l" "hd (xs @ [l_tail l])" "tl (xs @ [l_tail l])"]
  by (simp add: list_begin_def list_rep_def)

lemma list_rbegin_rep [step_simps]:
  assumes "list_rep h l xs"
  shows "list_rbegin h l = Some (last (l_head l # xs))"
  using assms list_rep_split [of h l xs "[]"] chain_prev [of h _ _ "l_tail l"]
  by (auto simp: list_rbegin_def)

lemma list_empty_rep [step_simps]:
  assumes "list_rep h l xs"
  shows "list_empty h l = Some (xs = [])"
proof -
  have "l_tail l \<notin> set xs" using assms by (auto simp: list_rep_def chain_def)
  then show ?thesis
    using assms by (cases xs) (auto simp: list_empty_def step_simps list_end_def)
qed

lemma list_insert_rep:
  assumes "list_rep h l (ps @ qs)" "x \<notin> list_addrs l (ps @ qs)" "x \<noteq> NULL" "x \<in> dom h"
  shows "\<exists>h'. list_insert h (hd (qs @ [l_tail l])) x = Some h' \<and> list_rep h' l (ps @ x # qs) \<and>
     same_except (insert x (list_addrs l (ps @ qs))) h h'"
proof -
  let ?a = "last (l_head l # ps)" and ?b = "hd (qs @ [l_tail l])"
  have "?a \<in> list_addrs l (ps @ qs)" "?b \<in> list_addrs l (ps @ qs)"
    by (auto simp: list_addrs_def hd_append)
  then have A: "{?a, x, ?b} \<subseteq> insert x (list_addrs l (ps @ qs))" by simp
  have c: "chain h (butlast (l_head l # ps) @ ?a # ?b # tl (qs @ [l_tail l]))"
    using assms(1) by (simp only: list_rep_split)
  then obtain h' where "list_insert h ?b x = Some h'"
    "chain h' (butlast (l_head l # ps) @ ?a # x # ?b # tl (qs @ [l_tail l]))" "same_except {?a, x, ?b} h h'"
    using list_insert_chain [OF c] assms(2-4) unfolding ends_eq by (auto simp: list_addrs_def)
  then show ?thesis
    using same_except_mono [OF _ A] unfolding ends_eq by (auto simp: list_rep_def)
qed

lemma list_push_front_rep:
  assumes "list_rep h l xs" "x \<notin> list_addrs l xs" "x \<noteq> NULL" "x \<in> dom h"
  shows "\<exists>h'. list_push_front h l x = Some h' \<and> list_rep h' l (x # xs) \<and>
     same_except (insert x (list_addrs l xs)) h h'"
  using list_insert_rep [of h l "[]" xs x] assms
  by (simp add: list_push_front_def step_simps)

lemma list_push_back_rep:
  assumes "list_rep h l xs" "x \<notin> list_addrs l xs" "x \<noteq> NULL" "x \<in> dom h"
  shows "\<exists>h'. list_push_back h l x = Some h' \<and> list_rep h' l (xs @ [x]) \<and>
     same_except (insert x (list_addrs l xs)) h h'"
  using list_insert_rep [of h l xs "[]" x] assms
  by (simp add: list_push_back_def list_end_def)

lemma list_remove_rep:
  assumes "list_rep h l (ps @ x # qs)"
  shows "\<exists>h'. list_remove h x = Some (h', hd (qs @ [l_tail l])) \<and> list_rep h' l (ps @ qs) \<and>
     same_except (list_addrs l (ps @ qs)) h h'"
proof -
  let ?a = "last (l_head l # ps)" and ?b = "hd (qs @ [l_tail l])"
  have "?a \<in> list_addrs l (ps @ qs)" "?b \<in> list_addrs l (ps @ qs)"
    by (auto simp: list_addrs_def hd_append)
  then have A: "{?a, ?b} \<subseteq> list_addrs l (ps @ qs)" by simp
  have "chain h (butlast (l_head l # ps) @ ?a # x # ?b # tl (qs @ [l_tail l]))"
    using assms by (simp add: list_rep_def ends_eq del: butlast.simps last.simps)
  from list_remove_chain [OF this] show ?thesis
    using same_except_mono [OF _ A] by (auto simp: list_rep_def ends_eq simp del: butlast.simps last.simps)
qed

lemma list_rep_tail_fresh: "list_rep h l xs \<Longrightarrow> x \<in> set xs \<Longrightarrow> x \<noteq> l_tail l"
  and list_rep_nonnull: "list_rep h l xs \<Longrightarrow> x \<in> set xs \<Longrightarrow> x \<noteq> NULL"
  and list_rep_distinct: "list_rep h l xs \<Longrightarrow> distinct xs"
  by (auto simp: list_rep_def chain_def intro: gr0I)

lemma list_front_rep [step_simps]:
  "list_rep h l xs \<Longrightarrow> list_front h l = (if xs = [] then None else Some (hd xs))"
  using list_begin_rep [of h l xs] by (auto simp: list_front_def step_simps list_begin_def)

lemma list_back_rep [step_simps]:
  "list_rep h l xs \<Longrightarrow> list_back h l = (if xs = [] then None else Some (last xs))"
  using list_rbegin_rep [of h l xs] by (auto simp: list_back_def step_simps list_rbegin_def)

lemma list_pop_front_rep:
  assumes "list_rep h l (x # xs)"
  shows "\<exists>h'. list_pop_front h l = Some (h', x) \<and> list_rep h' l xs \<and> same_except (list_addrs l xs) h h'"
  using list_remove_rep [of h l "[]" x xs] assms
  by (auto simp: list_pop_front_def step_simps)

lemma list_pop_back_rep:
  assumes "list_rep h l (xs @ [x])"
  shows "\<exists>h'. list_pop_back h l = Some (h', x) \<and> list_rep h' l xs \<and> same_except (list_addrs l xs) h h'"
  using list_remove_rep [of h l xs x "[]"] assms
  by (auto simp: list_pop_back_def step_simps)

text \<open>Loops walk along a suffix of the chain; the part already passed is arbitrary.\<close>

lemma list_size_loop_chain:
  "chain h (ps @ qs @ [t]) \<Longrightarrow> list_size_loop h (hd (qs @ [t])) t n = Some (n + length qs)"
proof (induction qs arbitrary: ps n)
  case Nil
  then show ?case by (simp add: list_size_loop.simps)
next
  case (Cons q qs)
  have c: "chain h ((ps @ [q]) @ qs @ [t])" using Cons.prems by simp
  have "q \<noteq> t" using Cons.prems by (auto simp: chain_def)
  moreover have "list_next h q = Some (hd (qs @ [t]))"
    using chain_list_next [of h ps q "hd (qs @ [t])" "tl (qs @ [t])"] Cons.prems by simp
  ultimately show ?case
    using Cons.IH [OF c, of "n + 1"] by (subst list_size_loop.simps) simp
qed

lemma list_size_rep [step_simps]:
  "list_rep h l xs \<Longrightarrow> list_size h l = Some (length xs)"
  using list_size_loop_chain [of h "[l_head l]" xs "l_tail l" 0]
  by (simp add: list_size_def step_simps list_end_def list_rep_def)

lemma chain_step:
  assumes "chain h (ps @ (q # qs) @ [t])"
  shows "q \<noteq> t" and "q \<noteq> NULL" and "list_next h q = Some (hd (qs @ [t]))"
    and "chain h ((ps @ [q]) @ qs @ [t])"
  using chain_list_next [of h ps q "hd (qs @ [t])" "tl (qs @ [t])"] assms
  by (auto simp: chain_def)

fun insert_ordered :: "('a \<Rightarrow> 'a \<Rightarrow> bool) \<Rightarrow> 'a \<Rightarrow> 'a list \<Rightarrow> 'a list" where
  "insert_ordered lessf x [] = [x]"
| "insert_ordered lessf x (y # ys) = (if lessf x y then x # y # ys else y # insert_ordered lessf x ys)"

lemma insert_ordered_split:
  "insert_ordered lessf x xs =
     takeWhile (\<lambda>y. \<not> lessf x y) xs @ x # dropWhile (\<lambda>y. \<not> lessf x y) xs"
  by (induction xs) auto

lemma list_insert_ordered_loop_chain:
  "chain h (ps @ qs @ [t]) \<Longrightarrow> list_insert_ordered_loop h (hd (qs @ [t])) t x lessf =
     Some (hd (dropWhile (\<lambda>y. \<not> lessf x y) qs @ [t]))"
proof (induction qs arbitrary: ps)
  case Nil
  then show ?case by (simp add: list_insert_ordered_loop.simps)
next
  case (Cons q qs)
  note st = chain_step [OF Cons.prems]
  from st(1,3) Cons.IH [OF st(4)] show ?case
    by (subst list_insert_ordered_loop.simps) simp
qed

lemma list_insert_ordered_rep:
  assumes "list_rep h l xs" "x \<notin> list_addrs l xs" "x \<noteq> NULL" "x \<in> dom h"
  shows "\<exists>h'. list_insert_ordered h l x lessf = Some h' \<and> list_rep h' l (insert_ordered lessf x xs) \<and>
     same_except (insert x (list_addrs l xs)) h h'"
  using list_insert_rep [of h l "takeWhile (\<lambda>y. \<not> lessf x y) xs" "dropWhile (\<lambda>y. \<not> lessf x y) xs" x]
    list_insert_ordered_loop_chain [of h "[l_head l]" xs "l_tail l" x lessf] assms
  by (simp add: list_insert_ordered_def step_simps list_end_def list_rep_def insert_ordered_split)

subsubsection \<open>Extremal elements\<close>

definition first_max :: "('a \<Rightarrow> 'a \<Rightarrow> bool) \<Rightarrow> 'a \<Rightarrow> 'a list \<Rightarrow> 'a" where
  "first_max lessf x xs = fold (\<lambda>e m. if lessf m e then e else m) xs x"

definition first_min :: "('a \<Rightarrow> 'a \<Rightarrow> bool) \<Rightarrow> 'a \<Rightarrow> 'a list \<Rightarrow> 'a" where
  "first_min lessf x xs = fold (\<lambda>e m. if lessf e m then e else m) xs x"

lemma list_max_loop_chain:
  "chain h (ps @ qs @ [t]) \<Longrightarrow>
     list_max_loop h m (hd (qs @ [t])) t lessf = Some (first_max lessf m qs)"
proof (induction qs arbitrary: ps m)
  case Nil
  then show ?case by (simp add: list_max_loop.simps first_max_def)
next
  case (Cons q qs)
  note st = chain_step [OF Cons.prems]
  from st(1,3) Cons.IH [OF st(4)] show ?case
    by (subst list_max_loop.simps) (simp add: first_max_def)
qed

lemma list_min_loop_chain:
  "chain h (ps @ qs @ [t]) \<Longrightarrow>
     list_min_loop h m (hd (qs @ [t])) t lessf = Some (first_min lessf m qs)"
proof (induction qs arbitrary: ps m)
  case Nil
  then show ?case by (simp add: list_min_loop.simps first_min_def)
next
  case (Cons q qs)
  note st = chain_step [OF Cons.prems]
  from st(1,3) Cons.IH [OF st(4)] show ?case
    by (subst list_min_loop.simps) (simp add: first_min_def)
qed

lemma list_max_rep [step_simps]:
  assumes "list_rep h l xs"
  shows "list_max h l lessf = Some (case xs of [] \<Rightarrow> l_tail l | x # ys \<Rightarrow> first_max lessf x ys)"
proof (cases xs)
  case (Cons x ys)
  then have c: "chain h ([l_head l] @ (x # ys) @ [l_tail l])" using assms by (simp add: list_rep_def)
  show ?thesis
    using assms chain_step [OF c] list_max_loop_chain [OF chain_step(4) [OF c]] Cons
    by (simp add: list_max_def step_simps list_end_def)
qed (use assms in \<open>simp add: list_max_def step_simps list_end_def\<close>)

lemma list_min_rep [step_simps]:
  assumes "list_rep h l xs"
  shows "list_min h l lessf = Some (case xs of [] \<Rightarrow> l_tail l | x # ys \<Rightarrow> first_min lessf x ys)"
proof (cases xs)
  case (Cons x ys)
  then have c: "chain h ([l_head l] @ (x # ys) @ [l_tail l])" using assms by (simp add: list_rep_def)
  show ?thesis
    using assms chain_step [OF c] list_min_loop_chain [OF chain_step(4) [OF c]] Cons
    by (simp add: list_min_def step_simps list_end_def)
qed (use assms in \<open>simp add: list_min_def step_simps list_end_def\<close>)

subsubsection \<open>Reversal\<close>

lemma list_reverse_loop_linked:
  assumes "linked h (qs @ [t])" "distinct (qs @ [t])" "set qs \<subseteq> dom h"
  shows "\<exists>h'. list_reverse_loop h (hd (qs @ [t])) t = Some h' \<and> same_except (set qs) h h' \<and>
     (\<forall>q. get_prev h' q = (if q \<in> set qs then get_next h q else get_prev h q)) \<and>
     (\<forall>q. get_next h' q = (if q \<in> set qs then get_prev h q else get_next h q))"
  using assms
proof (induction qs arbitrary: h)
  case Nil
  then show ?case by (simp add: list_reverse_loop.simps)
next
  case (Cons q qs)
  let ?n = "hd (qs @ [t])"
  obtain p where p: "get_prev h q = Some p" using Cons.prems(3) dom_get(2) [of q h] by auto
  have n: "get_next h q = Some ?n" using Cons.prems(1) by (cases qs) auto
  define h1 where "h1 = upd_next (upd_prev h q ?n) q p"
  have q: "q \<in> dom h" using Cons.prems(3) by simp
  have sw: "swap_links h q = Some h1"
    using p n q by (simp add: swap_links_def set_upds h1_def)
  have g1: "get_prev h1 x = (if x = q then Some ?n else get_prev h x)"
    "get_next h1 x = (if x = q then Some p else get_next h x)" for x
    using q by (auto simp: h1_def)
  have "linked h (qs @ [t])" using Cons.prems(1) by (cases qs) auto
  then have "linked h1 (qs @ [t])"
    using Cons.prems(2) g1 by (subst linked_frame [of _ h1 h]) auto
  then obtain h' where h': "list_reverse_loop h1 ?n t = Some h'" "same_except (set qs) h1 h'"
    "\<forall>x. get_prev h' x = (if x \<in> set qs then get_next h1 x else get_prev h1 x)"
    "\<forall>x. get_next h' x = (if x \<in> set qs then get_prev h1 x else get_next h1 x)"
    using Cons.IH [of h1] Cons.prems(2,3) by (auto simp: h1_def)
  have "list_reverse_loop h q t = Some h'"
    using Cons.prems(2) sw g1 h'(1) by (subst list_reverse_loop.simps) simp
  moreover have "same_except (set (q # qs)) h h'"
  proof -
    have "same_except {q} h h1" unfolding h1_def by (intro rep_intros) auto
    from same_except_trans [OF this h'(2)] show ?thesis by simp
  qed
  ultimately show ?case using h'(3,4) g1 p n Cons.prems(2) by auto
qed

lemma linked_rev:
  assumes "linked h ps" "distinct ps"
    and "\<And>p. p \<in> set ps \<Longrightarrow> p \<noteq> last ps \<Longrightarrow> get_prev h' p = get_next h p"
    and "\<And>p. p \<in> set ps \<Longrightarrow> p \<noteq> hd ps \<Longrightarrow> get_next h' p = get_prev h p"
  shows "linked h' (rev ps)"
  using assms
proof (induction h ps rule: linked.induct)
  case (1 h a b ps)
  have "last (b # ps) \<noteq> a" using "1.prems"(2) by (metis distinct.simps(2) last_in_set list.distinct(1))
  moreover have "linked h' (rev (b # ps))"
    using 1 by (auto split: if_splits)
  ultimately show ?case
    using linked_join [of "rev (b # ps)" "[a]" h'] 1 by auto
qed auto

lemma list_reverse_rep:
  assumes r: "list_rep h l xs"
  shows "\<exists>h'. list_reverse h l = Some h' \<and> list_rep h' l (rev xs) \<and> same_except (list_addrs l xs) h h'"
proof (cases "xs = []")
  case True
  then show ?thesis using r by (auto simp: list_reverse_def step_simps)
next
  case ne: False
  let ?H = "l_head l" and ?T = "l_tail l"
  have c: "chain h (?H # xs @ [?T])" using r by (simp add: list_rep_def)
  then have lk: "linked h ([?H] @ (xs @ [?T]))" by (simp add: chain_def)
  then have lx: "linked h xs" "linked h (xs @ [?T])" and j: "get_next h ?H = Some (hd xs)"
    "get_prev h (hd xs) = Some ?H" "get_next h (last xs) = Some ?T" "get_prev h ?T = Some (last xs)"
    using linked_join [of "[?H]" "xs @ [?T]" h] linked_join [of xs "[?T]" h] ne by auto
  have dist: "distinct (?H # xs @ [?T])" "NULL \<notin> set (?H # xs @ [?T])" using c by (auto simp: chain_def)
  have dom: "z \<in> dom h" if "z \<in> set (?H # xs @ [?T])" for z using chain_elem_dom [OF c _ that] by simp
  obtain h1 where h1: "list_reverse_loop h (hd (xs @ [?T])) ?T = Some h1" "same_except (set xs) h h1"
    "\<forall>q. get_prev h1 q = (if q \<in> set xs then get_next h q else get_prev h q)"
    "\<forall>q. get_next h1 q = (if q \<in> set xs then get_prev h q else get_next h q)"
    using list_reverse_loop_linked [OF lx(2)] dist dom by (auto simp: subset_iff)
  have d1: "dom h1 = dom h" using h1(2) by (simp add: same_except_def)
  define h2 where "h2 = upd_next (upd_prev (upd_prev (upd_next h1 ?H (last xs)) ?T (hd xs)) (last xs) ?H) (hd xs) ?T"
  have m: "hd xs \<in> set xs" "last xs \<in> set xs" using ne by auto
  have ht: "?H \<notin> set xs" "?T \<notin> set xs" "?H \<noteq> ?T" "hd xs \<noteq> ?H" "hd xs \<noteq> ?T" "last xs \<noteq> ?H" "last xs \<noteq> ?T"
    using dist m by auto
  have dm: "?H \<in> dom h" "?T \<in> dom h" "hd xs \<in> dom h" "last xs \<in> dom h" using dom m by auto
  have "list_reverse h l = Some h2"
    using r ne h1 j m ht dm d1 by (auto simp: list_reverse_def step_simps list_end_def set_upds h2_def)
  moreover have "list_rep h2 l (rev xs)"
  proof -
    have g2: "get_prev h2 q = (if q = last xs then Some ?H else if q = ?T then Some (hd xs)
          else if q \<in> set xs then get_next h q else get_prev h q)"
        "get_next h2 q = (if q = hd xs then Some ?T else if q = ?H then Some (last xs)
          else if q \<in> set xs then get_prev h q else get_next h q)" for q
      using h1(3,4) m ht dm d1 by (auto simp: h2_def)
    have "linked h2 (rev xs)"
      by (rule linked_rev [OF lx(1)]) (use dist ht g2 in auto)
    moreover have "get_prev h2 ?H = Some NULL" "get_next h2 ?T = Some NULL"
      using c m ht g2 by (auto simp: chain_def)
    ultimately have "chain h2 ([?H] @ rev xs @ [?T])"
      unfolding chain_def using dist ne ht m g2 linked_join [of "[?H]" "rev xs @ [?T]" h2]
        linked_join [of "rev xs" "[?T]" h2] by (auto simp: hd_rev last_rev)
    then show ?thesis by (simp add: list_rep_def)
  qed
  moreover have "same_except (list_addrs l xs) h h2"
    unfolding h2_def using m by (intro rep_intros same_except_mono [OF h1(2)]) (auto simp: list_addrs_def)
  ultimately show ?thesis by blast
qed

subsubsection \<open>Removal of adjacent duplicates\<close>

fun unique_adj :: "('a \<Rightarrow> 'a \<Rightarrow> bool) \<Rightarrow> 'a list \<Rightarrow> 'a list" where
  "unique_adj lessf (x # y # ys) =
     (if \<not> lessf x y \<and> \<not> lessf y x then unique_adj lessf (x # ys) else x # unique_adj lessf (y # ys))"
| "unique_adj lessf xs = xs"

fun dups_adj :: "('a \<Rightarrow> 'a \<Rightarrow> bool) \<Rightarrow> 'a list \<Rightarrow> 'a list" where
  "dups_adj lessf (x # y # ys) =
     (if \<not> lessf x y \<and> \<not> lessf y x then y # dups_adj lessf (x # ys) else dups_adj lessf (y # ys))"
| "dups_adj lessf xs = []"


definition dup_rep :: "heap \<Rightarrow> klist option \<Rightarrow> ptr list \<Rightarrow> ptr set \<Rightarrow> bool" where
  "dup_rep h d ds A \<longleftrightarrow>
     (case d of None \<Rightarrow> True | Some d' \<Rightarrow> list_rep h d' ds \<and> list_addrs d' ds \<inter> A = {})"

lemma list_addrs_simps [simp]:
  "list_addrs l (xs @ ys) = list_addrs l xs \<union> set ys"
  "list_addrs l (x # xs) = insert x (list_addrs l xs)"
  by (auto simp: list_addrs_def)

lemma list_unique_dup_step:
  assumes r: "list_rep h l (ps @ x # y # ys)" and d: "dup_rep h dup ds (list_addrs l (ps @ x # y # ys))"
  shows "\<exists>h1 h2 n. list_remove h y = Some (h1, n) \<and>
     (case dup of None \<Rightarrow> Some h1 | Some d' \<Rightarrow> list_push_back h1 d' y) = Some h2 \<and>
     list_rep h2 l (ps @ x # ys) \<and> dup_rep h2 dup (ds @ [y]) (list_addrs l (ps @ x # ys))"
proof -
  from r have "list_rep h l ((ps @ [x]) @ y # ys)" by simp
  then obtain h1 where h1: "list_remove h y = Some (h1, hd (ys @ [l_tail l]))" "list_rep h1 l (ps @ x # ys)"
    "same_except (list_addrs l (ps @ x # ys)) h h1"
    using list_remove_rep [of h l "ps @ [x]" y ys] by auto
  have y: "y \<notin> list_addrs l (ps @ x # ys)" "y \<noteq> NULL" "y \<in> dom h"
    using r chain_elem_dom [of h "l_head l # (ps @ x # y # ys) @ [l_tail l]" y]
    by (auto simp: list_rep_def chain_def list_addrs_def)
  show ?thesis
  proof (cases dup)
    case None
    then show ?thesis using h1 by (auto simp: dup_rep_def)
  next
    case (Some d')
    have d1: "list_rep h1 d' ds" "list_addrs d' ds \<inter> list_addrs l (ps @ x # y # ys) = {}"
      using d Some list_rep_frame [OF _ h1(3)] by (auto simp: dup_rep_def)
    obtain h2 where h2: "list_push_back h1 d' y = Some h2" "list_rep h2 d' (ds @ [y])"
      "same_except (insert y (list_addrs d' ds)) h1 h2"
      using list_push_back_rep [OF d1(1), of y] d1(2) y h1(3) by (auto simp: same_except_def)
    have "list_rep h2 l (ps @ x # ys)"
      using list_rep_frame [OF h1(2) h2(3)] d1(2) y(1) by auto
    then show ?thesis
      using h1(1) h2 Some d1(2) y(1) by (auto simp: dup_rep_def)
  qed
qed

lemma list_unique_loop_rep:
  assumes "list_rep h l (ps @ x # qs)" "dup_rep h dup ds (list_addrs l (ps @ x # qs))"
  shows "\<exists>h'. list_unique_loop h x l dup lessf = Some h' \<and> list_rep h' l (ps @ unique_adj lessf (x # qs)) \<and>
     dup_rep h' dup (ds @ dups_adj lessf (x # qs)) (list_addrs l (ps @ unique_adj lessf (x # qs)))"
  using assms
proof (induction qs arbitrary: h ps x ds)
  case Nil
  have "chain h (([l_head l] @ ps) @ (x # []) @ [l_tail l])" using Nil.prems(1) by (simp add: list_rep_def)
  from chain_step(3) [OF this] show ?case
    using Nil.prems by (subst list_unique_loop.simps) (simp add: list_end_def)
next
  case (Cons y ys)
  have "chain h (([l_head l] @ ps) @ (x # y # ys) @ [l_tail l])" using Cons.prems(1) by (simp add: list_rep_def)
  from chain_step(3) [OF this] have n: "list_next h x = Some y" by simp
  have yt: "y \<noteq> l_tail l" using list_rep_tail_fresh [OF Cons.prems(1)] by simp
  show ?case
  proof (cases "\<not> lessf x y \<and> \<not> lessf y x")
    case True
    from list_unique_dup_step [OF Cons.prems] obtain h1 h2 n' where
      s: "list_remove h y = Some (h1, n')"
        "(case dup of None \<Rightarrow> Some h1 | Some d' \<Rightarrow> list_push_back h1 d' y) = Some h2"
      and r2: "list_rep h2 l (ps @ x # ys)" "dup_rep h2 dup (ds @ [y]) (list_addrs l (ps @ x # ys))"
      by blast
    from Cons.IH [OF r2] show ?thesis
      using True n yt s by (subst list_unique_loop.simps) (cases dup; simp add: list_end_def)
  next
    case False
    have "list_rep h l ((ps @ [x]) @ y # ys)" "dup_rep h dup ds (list_addrs l ((ps @ [x]) @ y # ys))"
      using Cons.prems by simp_all
    from Cons.IH [OF this] show ?thesis
      using False n yt by (subst list_unique_loop.simps) (auto simp: list_end_def)
  qed
qed

lemma list_unique_rep:
  assumes "list_rep h l xs" "dup_rep h dup ds (list_addrs l xs)"
  shows "\<exists>h'. list_unique h l dup lessf = Some h' \<and> list_rep h' l (unique_adj lessf xs) \<and>
     dup_rep h' dup (ds @ dups_adj lessf xs) (list_addrs l (unique_adj lessf xs))"
proof (cases xs)
  case (Cons x ys)
  then show ?thesis
    using list_unique_loop_rep [of h l "[]" x ys dup ds lessf] assms
    by (simp add: list_unique_def step_simps)
qed (use assms in \<open>simp add: list_unique_def step_simps\<close>)

end
