(* ===== verification/Kernel_List_Sort.thy ===== *)
theory Kernel_List_Sort
  imports Kernel_List "HOL-Library.Multiset"
begin

text \<open>
  Correctness of \<^verbatim>\<open>list_sort\<close> of \<^verbatim>\<open>lib/kernel/list.c\<close>, the in-place natural merge sort behind the
  ready queue, the sleep queue and the waiter lists. The reference is the stable insertion sort
  \<open>ssort\<close>. A pass of the loop merges the runs of the list in pairs; it keeps \<open>ssort\<close> of the
  list, and whenever it outputs more than one run it lowers the number of descents, which is why
  the loop ends.
\<close>

subsection \<open>Comparison functions\<close>

text \<open>What \<^verbatim>\<open>list.h\<close> asks of a \<^verbatim>\<open>list_less_func\<close>.\<close>

locale strict_weak_order =
  fixes lessf :: "'a \<Rightarrow> 'a \<Rightarrow> bool"
  assumes asym: "lessf a b \<Longrightarrow> \<not> lessf b a"
    and negtrans: "\<not> lessf a b \<Longrightarrow> \<not> lessf b c \<Longrightarrow> \<not> lessf a c"
begin

lemma less_irrefl [simp]: "\<not> lessf a a"
  using asym by blast

lemma less_trans: "lessf a b \<Longrightarrow> lessf b c \<Longrightarrow> lessf a c"
  using asym negtrans by blast

lemma less_notless_trans: "lessf b a \<Longrightarrow> \<not> lessf x a \<Longrightarrow> lessf b x"
  using negtrans by blast

end

lemma strict_weak_order_key: "strict_weak_order (\<lambda>a b. (f a :: 'k :: linorder) < f b)"
  by unfold_locales auto

lemma strict_weak_order_key_desc: "strict_weak_order (\<lambda>a b. (f a :: 'k :: linorder) > f b)"
  by unfold_locales auto

subsection \<open>The reference: stable insertion sort\<close>

fun sinsert :: "('a \<Rightarrow> 'a \<Rightarrow> bool) \<Rightarrow> 'a \<Rightarrow> 'a list \<Rightarrow> 'a list" where
  "sinsert lessf x [] = [x]"
| "sinsert lessf x (y # ys) = (if lessf y x then y # sinsert lessf x ys else x # y # ys)"

definition ssort :: "('a \<Rightarrow> 'a \<Rightarrow> bool) \<Rightarrow> 'a list \<Rightarrow> 'a list" where
  "ssort lessf xs = foldr (sinsert lessf) xs []"

lemma ssort_simps [simp]:
  "ssort lessf [] = []" "ssort lessf (x # xs) = sinsert lessf x (ssort lessf xs)"
  by (simp_all add: ssort_def)

abbreviation sorted_by :: "('a \<Rightarrow> 'a \<Rightarrow> bool) \<Rightarrow> 'a list \<Rightarrow> bool" where
  "sorted_by lessf \<equiv> sorted_wrt (\<lambda>a b. \<not> lessf b a)"

lemma mset_sinsert [simp]: "mset (sinsert lessf x xs) = add_mset x (mset xs)"
  by (induction xs) auto

lemma mset_ssort: "mset (ssort lessf xs) = mset xs"
  by (induction xs) auto

lemma set_sinsert [simp]: "set (sinsert lessf x xs) = insert x (set xs)"
  by (induction xs) auto

lemma set_ssort [simp]: "set (ssort lessf xs) = set xs"
  by (induction xs) auto

lemma length_ssort [simp]: "length (ssort lessf xs) = length xs"
  using mset_ssort [of lessf xs] by (metis size_mset)

text \<open>Merging, maximal runs and one pass, as functions on the list of elements.\<close>

fun merge_runs :: "('a \<Rightarrow> 'a \<Rightarrow> bool) \<Rightarrow> 'a list \<Rightarrow> 'a list \<Rightarrow> 'a list" where
  "merge_runs lessf [] bs = bs"
| "merge_runs lessf (a # as) [] = a # as"
| "merge_runs lessf (a # as) (b # bs) =
     (if \<not> lessf b a then a # merge_runs lessf as (b # bs) else b # merge_runs lessf (a # as) bs)"

fun run_of :: "('a \<Rightarrow> 'a \<Rightarrow> bool) \<Rightarrow> 'a list \<Rightarrow> 'a list" where
  "run_of lessf (a # b # xs) = (if lessf b a then [a] else a # run_of lessf (b # xs))"
| "run_of lessf xs = xs"

fun after_run :: "('a \<Rightarrow> 'a \<Rightarrow> bool) \<Rightarrow> 'a list \<Rightarrow> 'a list" where
  "after_run lessf (a # b # xs) = (if lessf b a then b # xs else after_run lessf (b # xs))"
| "after_run lessf xs = []"

lemma run_split: "run_of lessf xs @ after_run lessf xs = xs"
  by (induction lessf xs rule: run_of.induct) auto

lemma run_of_nonempty [simp]: "run_of lessf xs = [] \<longleftrightarrow> xs = []"
  by (cases xs rule: run_of.cases [of "(lessf, xs)" for xs]) auto

lemma length_after_run: "xs \<noteq> [] \<Longrightarrow> length (after_run lessf xs) < length xs"
  using run_split [of lessf xs] by (metis length_append length_greater_0_conv less_add_same_cancel2 run_of_nonempty)

lemma length_after_run_le: "length (after_run lessf xs) \<le> length xs"
  using run_split [of lessf xs] by (metis length_append le_add2)

function sort_pass :: "('a \<Rightarrow> 'a \<Rightarrow> bool) \<Rightarrow> 'a list \<Rightarrow> 'a list \<times> nat" where
  "sort_pass lessf xs =
     (if xs = [] then ([], 0)
      else if after_run lessf xs = [] then (xs, 1)
      else (merge_runs lessf (run_of lessf xs) (run_of lessf (after_run lessf xs)) @
              fst (sort_pass lessf (after_run lessf (after_run lessf xs))),
            1 + snd (sort_pass lessf (after_run lessf (after_run lessf xs)))))"
  by pat_completeness auto

termination
  by (relation "measure (\<lambda>(_, xs). length xs)")
     (auto intro: le_less_trans [OF length_after_run_le] length_after_run)

declare sort_pass.simps [simp del]

fun descents :: "('a \<Rightarrow> 'a \<Rightarrow> bool) \<Rightarrow> 'a list \<Rightarrow> nat" where
  "descents lessf (a # b # xs) = (if lessf b a then 1 else 0) + descents lessf (b # xs)"
| "descents lessf xs = 0"

lemma descents_append:
  "descents lessf (as @ bs) = descents lessf as + descents lessf bs +
     (if as \<noteq> [] \<and> bs \<noteq> [] \<and> lessf (hd bs) (last as) then 1 else 0)"
proof (induction lessf as rule: descents.induct)
  case (1 lessf a b xs)
  then show ?case by simp
qed (cases bs; simp)+

lemma after_run_descent: "after_run lessf xs \<noteq> [] \<Longrightarrow> lessf (hd (after_run lessf xs)) (last (run_of lessf xs))"
  by (induction lessf xs rule: run_of.induct) auto

lemma set_merge_runs [simp]: "set (merge_runs lessf as bs) = set as \<union> set bs"
  by (induction lessf as bs rule: merge_runs.induct) auto

lemma merge_runs_eq_Nil [simp]: "merge_runs lessf as bs = [] \<longleftrightarrow> as = [] \<and> bs = []"
  by (induction lessf as bs rule: merge_runs.induct) auto

lemma two_list_induct [case_names Nil1 Nil2 Cons]:
  assumes "\<And>bs. P [] bs" "\<And>a as. P (a # as) []"
    and "\<And>a as b bs. P as (b # bs) \<Longrightarrow> P (a # as) bs \<Longrightarrow> P (a # as) (b # bs)"
  shows "P as bs"
  using assms by induction_schema (pat_completeness, lexicographic_order)

subsection \<open>What a pass does to the order\<close>

context strict_weak_order
begin

lemma transp_sorted: "transp (\<lambda>a b. \<not> lessf b a)"
  by (rule transpI) (metis negtrans)

lemma sorted_by_Cons2: "sorted_by lessf (x # y # zs) \<longleftrightarrow> \<not> lessf y x \<and> sorted_by lessf (y # zs)"
  by (simp only: sorted_wrt2 [OF transp_sorted])

lemma sorted_run_of: "sorted_by lessf (run_of lessf xs)"
proof (induction xs rule: induct_list012)
  case (3 a b xs)
  then show ?case
    by (cases xs) (auto simp del: sorted_wrt.simps(2) simp: sorted_by_Cons2 sorted_wrt1)
qed simp_all

lemma sorted_sinsert: "sorted_by lessf xs \<Longrightarrow> sorted_by lessf (sinsert lessf x xs)"
  by (induction xs) (auto dest: asym intro: asym, metis negtrans)

lemma sorted_ssort: "sorted_by lessf (ssort lessf xs)"
  by (induction xs) (auto intro: sorted_sinsert)

lemma sinsert_hd: "\<forall>y\<in>set ys. \<not> lessf y x \<Longrightarrow> sinsert lessf x ys = x # ys"
  by (cases ys) auto

lemma ssort_id: "sorted_by lessf xs \<Longrightarrow> ssort lessf xs = xs"
  by (induction xs) (auto intro: sinsert_hd)

lemma sinsert_commute: "lessf b a \<Longrightarrow> sinsert lessf a (sinsert lessf b ys) = sinsert lessf b (sinsert lessf a ys)"
  by (induction ys) (auto dest: asym less_trans)

lemma ssort_move: "\<forall>a\<in>set as. lessf b a \<Longrightarrow> ssort lessf (as @ b # bs) = ssort lessf (b # as @ bs)"
proof (induction as)
  case (Cons a as)
  then show ?case using sinsert_commute [of b a] by simp
qed simp

text \<open>Stability: elements that compare equal keep their order.\<close>

lemma filter_sinsert:
  "filter (\<lambda>y. \<not> lessf x y \<and> \<not> lessf y x) (sinsert lessf z ys) =
     filter (\<lambda>y. \<not> lessf x y \<and> \<not> lessf y x) (z # ys)"
proof (induction ys)
  case (Cons y ys)
  show ?case
  proof (cases "\<not> lessf x z \<and> \<not> lessf z x \<and> lessf y z")
    case True
    then have "lessf y x" using less_notless_trans by blast
    then show ?thesis using True Cons by simp
  qed (use Cons in auto)
qed simp

lemma filter_ssort:
  "filter (\<lambda>y. \<not> lessf x y \<and> \<not> lessf y x) (ssort lessf ys) =
     filter (\<lambda>y. \<not> lessf x y \<and> \<not> lessf y x) ys"
proof (induction ys)
  case (Cons y ys)
  then show ?case by (simp only: ssort_simps filter_sinsert) simp
qed simp

lemma shorter: "xs \<noteq> [] \<Longrightarrow> length (after_run lessf (after_run lessf xs)) < length xs"
  by (rule le_less_trans [OF length_after_run_le length_after_run])

lemma ssort_append_cong: "ssort lessf xs = ssort lessf ys \<Longrightarrow> ssort lessf (zs @ xs) = ssort lessf (zs @ ys)"
  by (induction zs) auto

lemma ssort_merge_runs:
  "sorted_by lessf as \<Longrightarrow> ssort lessf (merge_runs lessf as bs @ cs) = ssort lessf (as @ bs @ cs)"
proof (induction as bs rule: two_list_induct)
  case (Cons a as b bs)
  show ?case
  proof (cases "lessf b a")
    case True
    then have "\<forall>x\<in>set (a # as). lessf b x"
      using Cons.prems by (auto intro: less_notless_trans)
    then show ?thesis
      using Cons True ssort_move [of "a # as" b "bs @ cs"] by simp
  qed (use Cons in simp)
qed auto

lemma sorted_merge_runs:
  "sorted_by lessf as \<Longrightarrow> sorted_by lessf bs \<Longrightarrow> sorted_by lessf (merge_runs lessf as bs)"
proof (induction as bs rule: two_list_induct)
  case (Cons a as b bs)
  then show ?case by (auto dest: asym) (metis negtrans asym)+
qed auto

lemma descents_sorted: "sorted_by lessf xs \<Longrightarrow> descents lessf xs = 0"
  by (induction xs rule: induct_list012) auto

lemma sort_pass_ssort: "ssort lessf (fst (sort_pass lessf xs)) = ssort lessf xs"
proof (induction xs rule: length_induct)
  case (1 xs)
  let ?r = "after_run lessf xs"
  show ?case
  proof (cases "xs = [] \<or> ?r = []")
    case False
    have "ssort lessf (merge_runs lessf (run_of lessf xs) (run_of lessf ?r) @ fst (sort_pass lessf (after_run lessf ?r)))
        = ssort lessf (run_of lessf xs @ run_of lessf ?r @ fst (sort_pass lessf (after_run lessf ?r)))"
      by (rule ssort_merge_runs [OF sorted_run_of])
    also have "\<dots> = ssort lessf (run_of lessf xs @ run_of lessf ?r @ after_run lessf ?r)"
      using 1 False shorter [of xs] by (intro ssort_append_cong) auto
    also have "\<dots> = ssort lessf xs" by (simp add: run_split)
    finally show ?thesis using False by (simp add: sort_pass.simps [of lessf xs])
  qed (auto simp: sort_pass.simps [of lessf xs])
qed

text \<open>A pass that outputs at most one run has sorted the list; one that outputs more has fewer descents.\<close>

lemma sort_pass_done: "snd (sort_pass lessf xs) \<le> 1 \<Longrightarrow> sorted_by lessf (fst (sort_pass lessf xs))"
  using sorted_run_of [of xs] run_split [of lessf xs]
  by (auto simp: sort_pass.simps [of lessf xs] sort_pass.simps [of lessf "after_run lessf (after_run lessf xs)"]
      intro!: sorted_merge_runs sorted_run_of split: if_splits)

lemma sort_pass_descents:
  "xs \<noteq> [] \<Longrightarrow> descents lessf (fst (sort_pass lessf xs)) < snd (sort_pass lessf xs) \<and>
     2 * snd (sort_pass lessf xs) \<le> descents lessf xs + 2"
proof (induction xs rule: length_induct)
  case (1 xs)
  let ?r = "after_run lessf xs" let ?rr = "after_run lessf ?r"
  show ?case
  proof (cases "?r = []")
    case True
    then have "descents lessf xs = 0"
      using sorted_run_of [of xs] run_split [of lessf xs] by (simp add: descents_sorted)
    then show ?thesis using True 1 by (simp add: sort_pass.simps [of lessf xs])
  next
    case False
    have m: "descents lessf (merge_runs lessf (run_of lessf xs) (run_of lessf ?r)) = 0"
      by (intro descents_sorted sorted_merge_runs sorted_run_of)
    have z: "descents lessf (run_of lessf ys) = 0" for ys by (intro descents_sorted sorted_run_of)
    have r: "descents lessf ?r = (if ?rr = [] then 0 else descents lessf ?rr + 1)"
      using descents_append [of lessf "run_of lessf ?r" ?rr] after_run_descent [of lessf ?r] False
      by (auto simp: run_split z)
    have x: "descents lessf xs = descents lessf ?r + 1"
      using descents_append [of lessf "run_of lessf xs" ?r] after_run_descent [of lessf xs] False 1
      by (simp add: run_split z)
    have e: "sort_pass lessf [] = ([], 0)" by (simp add: sort_pass.simps)
    show ?thesis
      using "1.IH" [rule_format, of ?rr] shorter [of xs] "1.prems" False m r x
      by (cases "?rr = []") (auto simp: sort_pass.simps [of lessf xs] descents_append e)
  qed
qed

end

subsection \<open>The heap operations implement the pass\<close>

lemma chain_run_step:
  assumes "chain h (ps @ (a # a' # as) @ b # qs)"
  shows "list_next h a = Some a'" and "list_prev h a' = Some a" and "a' \<noteq> b"
    and "chain h ((ps @ [a]) @ (a' # as) @ b # qs)"
proof -
  have c: "chain h (ps @ a # a' # as @ b # qs)" using assms by simp
  show "list_next h a = Some a'" "list_prev h a' = Some a"
    by (rule chain_list_next [OF c], rule chain_list_prev [OF c])
  show "a' \<noteq> b" "chain h ((ps @ [a]) @ (a' # as) @ b # qs)"
    using c by (auto simp: chain_def)
qed

lemma is_sorted_loop_chain:
  assumes "strict_weak_order lessf"
  shows "chain h (ps @ (a # as) @ b # qs) \<Longrightarrow> is_sorted_loop h a b lessf = Some (sorted_by lessf (a # as))"
proof (induction as arbitrary: a ps)
  case Nil
  then show ?case using chain_list_next [of h ps a b qs] by (subst is_sorted_loop.simps) simp
next
  case (Cons a' as)
  note st = chain_run_step [OF Cons.prems]
  from st(1-3) show ?case
    using Cons.IH [OF st(4)] strict_weak_order.sorted_by_Cons2 [OF assms, of a a' as]
    by (subst is_sorted_loop.simps) simp
qed

lemma is_sorted_chain:
  assumes "strict_weak_order lessf" "chain h (ps @ xs @ b # qs)"
  shows "is_sorted h (hd (xs @ [b])) b lessf = Some (sorted_by lessf xs)"
  using is_sorted_loop_chain [OF assms(1), of h ps "hd xs" "tl xs" b qs] assms(2)
  by (cases xs) (auto simp: is_sorted_def chain_def)

lemma find_end_of_run_loop_chain:
  "chain h (ps @ (a # as) @ b # qs) \<Longrightarrow>
     find_end_of_run_loop h a b lessf = Some (hd (after_run lessf (a # as) @ [b]))"
proof (induction as arbitrary: a ps)
  case Nil
  then show ?case using chain_list_next [of h ps a b qs] by (subst find_end_of_run_loop.simps) simp
next
  case (Cons a' as)
  note st = chain_run_step [OF Cons.prems]
  from st(1-3) show ?case
    using Cons.IH [OF st(4)] by (subst find_end_of_run_loop.simps) simp
qed

lemma find_end_of_run_chain:
  assumes "chain h (ps @ xs @ b # qs)" "xs \<noteq> []"
  shows "find_end_of_run h (hd xs) b lessf = Some (hd (after_run lessf xs @ [b]))"
  using find_end_of_run_loop_chain [of h ps "hd xs" "tl xs" b qs] assms
  by (cases xs) (auto simp: find_end_of_run_def chain_def intro: gr0I)

lemma inplace_merge_loop_chain:
  "chain h (ps @ u # as @ bs @ t # qs) \<Longrightarrow>
   \<exists>h'. inplace_merge_loop h (hd (as @ bs @ [t])) (hd (bs @ [t])) t lessf = Some h' \<and>
     chain h' (ps @ u # merge_runs lessf as bs @ t # qs) \<and> same_except (set (u # as @ bs @ [t])) h h'"
proof (induction as bs arbitrary: h ps u rule: two_list_induct)
  case (Nil1 bs)
  then show ?case by (subst inplace_merge_loop.simps) simp
next
  case (Nil2 a as)
  then show ?case by (subst inplace_merge_loop.simps) simp
next
  case (Cons a as b bs)
  have ne: "a \<noteq> b" "b \<noteq> t" using Cons.prems by (auto simp: chain_def)
  show ?case
  proof (cases "lessf b a")
    case False
    have n: "list_next h a = Some (hd (as @ (b # bs) @ [t]))"
      using chain_list_next [of h "ps @ [u]" a "hd (as @ b # bs @ [t])" "tl (as @ b # bs @ t # qs)"] Cons.prems
      by (cases as) auto
    have c: "chain h ((ps @ [u]) @ a # as @ (b # bs) @ t # qs)" using Cons.prems by simp
    from Cons.IH(1) [OF c] obtain h' where
      "inplace_merge_loop h (hd (as @ (b # bs) @ [t])) (hd ((b # bs) @ [t])) t lessf = Some h'"
      "chain h' ((ps @ [u]) @ a # merge_runs lessf as (b # bs) @ t # qs)"
      "same_except (set (a # as @ (b # bs) @ [t])) h h'" by blast
    then show ?thesis
      using False n ne by (subst inplace_merge_loop.simps) (auto elim: same_except_mono)
  next
    case True
    let ?y = "hd (bs @ [t])" and ?ys = "tl (bs @ t # qs)"
    have e: "?y # ?ys = bs @ t # qs" by (cases bs) auto
    have c: "chain h ((ps @ u # a # as) @ b # ?y # ?ys)" using Cons.prems by (simp add: e)
    have n: "list_next h b = Some ?y" "list_prev h ?y = Some b"
      using chain_list_next [OF c] chain_list_prev [OF c] by auto
    have "chain h (ps @ u # (a # as) @ [b] @ ?y # ?ys)" using Cons.prems by (simp add: e)
    from list_splice_chain [OF this] obtain h1 where h1: "list_splice h a b ?y = Some h1"
      "chain h1 ((ps @ [u]) @ b # (a # as) @ bs @ t # qs)" "same_except (set (u # (a # as) @ [b] @ [?y])) h h1"
      by (auto simp: e)
    from Cons.IH(2) [OF h1(2)] obtain h' where h':
      "inplace_merge_loop h1 a ?y t lessf = Some h'"
      "chain h' ((ps @ [u]) @ b # merge_runs lessf (a # as) bs @ t # qs)"
      "same_except (set (b # (a # as) @ bs @ [t])) h1 h'" by auto
    have "same_except (set (u # (a # as) @ (b # bs) @ [t])) h h'"
      by (rule same_except_mono [OF same_except_trans [OF h1(3) h'(3)]]) (cases bs; auto)
    then show ?thesis
      using True n ne h1(1) h'(1,2) by (subst inplace_merge_loop.simps) simp
  qed
qed

lemma butlast_last_append: "m \<noteq> [] \<Longrightarrow> butlast m @ last m # zs = m @ zs"
  by (metis append.assoc append_Cons append_Nil append_butlast_last_id)

lemma inplace_merge_chain:
  assumes "strict_weak_order lessf" "chain h (ps @ u # as @ bs @ t # qs)"
    "sorted_by lessf as" "sorted_by lessf bs" "as \<noteq> []"
  shows "\<exists>h'. inplace_merge h (hd as) (hd (bs @ [t])) t lessf = Some h' \<and>
     chain h' (ps @ u # merge_runs lessf as bs @ t # qs) \<and> same_except (set (u # as @ bs @ [t])) h h'"
proof -
  let ?m = "hd (bs @ [t])"
  have e: "?m # tl (bs @ t # qs) = bs @ t # qs" by (cases bs) auto
  have "is_sorted h (hd (as @ [?m])) ?m lessf = Some (sorted_by lessf as)"
    using is_sorted_chain [OF assms(1), of h "ps @ [u]" as ?m "tl (bs @ t # qs)"] assms(2) by (simp add: e)
  moreover have "is_sorted h ?m t lessf = Some (sorted_by lessf bs)"
    using is_sorted_chain [OF assms(1), of h "ps @ u # as" bs t qs] assms(2) by simp
  moreover have "hd as \<noteq> NULL" "?m \<noteq> NULL" "t \<noteq> NULL"
    using assms(2,5) chain_nonnull [OF assms(2)] by (cases as; cases bs; auto)+
  ultimately show ?thesis
    using inplace_merge_loop_chain [OF assms(2), of lessf] assms(3-5) by (simp add: inplace_merge_def)
qed

lemma list_sort_pass_chain:
  assumes swo: "strict_weak_order lessf"
  shows "chain h (ps @ u # xs @ [l_tail l]) \<Longrightarrow>
   \<exists>h'. list_sort_pass h (hd (xs @ [l_tail l])) l lessf cnt = Some (h', cnt + snd (sort_pass lessf xs)) \<and>
     chain h' (ps @ u # fst (sort_pass lessf xs) @ [l_tail l]) \<and> same_except (set (u # xs @ [l_tail l])) h h'"
proof (induction xs arbitrary: h ps u cnt rule: length_induct)
  case (1 xs)
  let ?t = "l_tail l"
  let ?a = "run_of lessf xs" and ?r = "after_run lessf xs"
  let ?b = "run_of lessf ?r" and ?rr = "after_run lessf ?r"
  have c: "chain h ((ps @ [u]) @ xs @ [?t])" using "1.prems" by simp
  show ?case
  proof (cases "xs = []")
    case True
    then show ?thesis using "1.prems"
      by (subst list_sort_pass.simps) (simp add: sort_pass.simps [of lessf "[]"] list_end_def)
  next
    case ne: False
    have a0: "hd (xs @ [?t]) = hd xs" "hd xs \<noteq> ?t" using ne c by (cases xs; auto simp: chain_def)+
    have f1: "find_end_of_run h (hd xs) ?t lessf = Some (hd (?r @ [?t]))"
      using find_end_of_run_chain [OF c ne] .
    show ?thesis
    proof (cases "?r = []")
      case True
      then show ?thesis using "1.prems" ne a0 f1
        by (subst list_sort_pass.simps) (simp add: sort_pass.simps [of lessf xs] list_end_def)
    next
      case False
      let ?y = "hd (?rr @ [?t])" and ?ys = "tl (?rr @ [?t])"
      have xs: "xs = ?a @ ?b @ ?rr" by (simp add: run_split)
      have c2: "chain h ((ps @ u # ?a) @ ?r @ [?t])"
        using c run_split [of lessf xs] by (metis append.assoc append_Cons append_Nil)
      have rt: "hd (?r @ [?t]) = hd ?r" "hd ?r \<noteq> ?t"
        using False c2 by (cases ?r; auto simp: chain_def)+
      have f2: "find_end_of_run h (hd ?r) ?t lessf = Some ?y"
        using find_end_of_run_chain [OF c2 False] .
      have "chain h (ps @ u # ?a @ ?b @ ?y # ?ys)"
        using "1.prems" by (simp add: run_split) (metis append.assoc run_split)
      then obtain h1 where h1: "inplace_merge h (hd ?a) (hd (?b @ [?y])) ?y lessf = Some h1"
        "chain h1 (ps @ u # merge_runs lessf ?a ?b @ ?y # ?ys)" "same_except (set (u # ?a @ ?b @ [?y])) h h1"
        using inplace_merge_chain [OF swo] strict_weak_order.sorted_run_of [OF swo] ne
        by (metis run_of_nonempty)
      have hd: "hd ?a = hd xs" "hd (?b @ [?y]) = hd ?r"
        using run_split [of lessf xs] run_split [of lessf ?r] ne False run_of_nonempty
        by (metis hd_append)+
      let ?m = "merge_runs lessf ?a ?b"
      have mne: "?m \<noteq> []" using ne by simp
      have "chain h1 ((ps @ u # butlast ?m) @ last ?m # ?rr @ [?t])"
        using h1(2) mne by (simp add: ends_eq butlast_last_append)
      from "1.IH" [rule_format, OF _ this, of "cnt + 1"]
      obtain h' where h': "list_sort_pass h1 ?y l lessf (cnt + 1) = Some (h', cnt + 1 + snd (sort_pass lessf ?rr))"
        "chain h' ((ps @ u # butlast ?m) @ last ?m # fst (sort_pass lessf ?rr) @ [?t])"
        "same_except (set (last ?m # ?rr @ [?t])) h1 h'"
        using le_less_trans [OF length_after_run_le [of lessf ?r] length_after_run [OF ne, of lessf]] by blast
      have "same_except (set (u # xs @ [?t])) h h'"
      proof (rule same_except_mono [OF same_except_trans [OF h1(3) h'(3)]])
        have "last ?m \<in> set ?a \<union> set ?b" using last_in_set [OF mne] by simp
        moreover have "?y \<in> insert ?t (set ?rr)" by (cases ?rr) auto
        ultimately show "set (u # ?a @ ?b @ [?y]) \<union> set (last ?m # ?rr @ [?t]) \<subseteq> set (u # xs @ [?t])"
          by (subst (3) xs) auto
      qed
      moreover have "chain h' (ps @ u # (?m @ fst (sort_pass lessf ?rr)) @ [?t])"
        using h'(2) mne by (simp add: butlast_last_append)
      ultimately show ?thesis
        using ne False a0 rt f1 f2 h1(1) h'(1) hd
        by (subst list_sort_pass.simps) (simp add: sort_pass.simps [of lessf xs] list_end_def)
    qed
  qed
qed

lemma list_sort_loop_rep:
  assumes swo: "strict_weak_order lessf"
  shows "list_rep h l xs \<Longrightarrow>
   \<exists>h'. list_sort_loop h l lessf = Some h' \<and> list_rep h' l (ssort lessf xs) \<and> same_except (list_addrs l xs) h h'"
proof (induction "descents lessf xs" arbitrary: h xs rule: less_induct)
  case less
  let ?p = "sort_pass lessf xs"
  obtain h1 where h1: "list_sort_pass h (hd (xs @ [l_tail l])) l lessf 0 = Some (h1, snd ?p)"
    "list_rep h1 l (fst ?p)" "same_except (list_addrs l xs) h h1"
    using list_sort_pass_chain [OF swo, of h "[]" "l_head l" xs l 0] less.prems
    by (auto simp: list_rep_def list_addrs_def insert_commute)
  have s: "ssort lessf (fst ?p) = ssort lessf xs" by (rule strict_weak_order.sort_pass_ssort [OF swo])
  have A: "list_addrs l (fst ?p) = list_addrs l xs"
    using arg_cong [OF s, of set] by (simp add: list_addrs_def)
  show ?case
  proof (cases "snd ?p > 1")
    case True
    then have "xs \<noteq> []" by (auto simp: sort_pass.simps [of lessf "[]"])
    then have "descents lessf (fst ?p) < descents lessf xs"
      using strict_weak_order.sort_pass_descents [OF swo, of xs] True by auto
    from less.hyps [OF this h1(2)] obtain h' where
      "list_sort_loop h1 l lessf = Some h'" "list_rep h' l (ssort lessf xs)" "same_except (list_addrs l xs) h1 h'"
      by (auto simp: s A)
    then show ?thesis
      using True h1 less.prems same_except_trans [OF h1(3)]
      by (subst list_sort_loop.simps) (fastforce simp: step_simps)
  next
    case False
    then have "ssort lessf xs = fst ?p"
      using s strict_weak_order.sort_pass_done [OF swo, of xs] strict_weak_order.ssort_id [OF swo, of "fst ?p"]
      by simp
    then show ?thesis
      using False h1 less.prems by (subst list_sort_loop.simps) (simp add: step_simps)
  qed
qed

lemma list_sort_rep:
  assumes swo: "strict_weak_order lessf" and r: "list_rep h l xs"
  shows "\<exists>h'. list_sort h l lessf = Some h' \<and> list_rep h' l (ssort lessf xs) \<and> same_except (list_addrs l xs) h h'"
proof -
  obtain h' where h': "list_sort_loop h l lessf = Some h'" "list_rep h' l (ssort lessf xs)"
    "same_except (list_addrs l xs) h h'"
    using list_sort_loop_rep [OF swo r] by blast
  have "is_sorted h' (hd (ssort lessf xs @ [l_tail l])) (l_tail l) lessf = Some True"
    using is_sorted_chain [OF swo, of h' "[l_head l]" "ssort lessf xs" "l_tail l" "[]"] h'(2)
      strict_weak_order.sorted_ssort [OF swo] by (simp add: list_rep_def)
  then show ?thesis
    using h' by (simp add: list_sort_def step_simps list_end_def)
qed

subsection \<open>Correctness of the sort\<close>

text \<open>
  C15. \<^verbatim>\<open>list_sort\<close> on a well-formed list and a strict weak order terminates without a panic and
  leaves a well-formed list that holds exactly the same elements, in ascending order, in which
  elements that compare equal stand in their original order; nothing outside the list and its two
  sentinels is written.
\<close>

theorem list_sort_correct:
  assumes "strict_weak_order lessf" "list_rep h l xs"
  shows "\<exists>h' ys. list_sort h l lessf = Some h' \<and> list_rep h' l ys \<and> mset ys = mset xs \<and>
     sorted_by lessf ys \<and>
     (\<forall>x. filter (\<lambda>y. \<not> lessf x y \<and> \<not> lessf y x) ys = filter (\<lambda>y. \<not> lessf x y \<and> \<not> lessf y x) xs) \<and>
     same_except (list_addrs l xs) h h'"
  using list_sort_rep [OF assms] mset_ssort strict_weak_order.sorted_ssort [OF assms(1)]
    strict_weak_order.filter_ssort [OF assms(1)] by blast

text \<open>Three elements at addresses 10, 20 and 30, compared by their address.\<close>

definition demo_list :: klist where
  "demo_list = \<lparr>l_head = 1, l_tail = 2\<rparr>"

definition demo_heap :: heap where
  "demo_heap = [1 \<mapsto> \<lparr>le_prev = 0, le_next = 30\<rparr>, 30 \<mapsto> \<lparr>le_prev = 1, le_next = 10\<rparr>,
     10 \<mapsto> \<lparr>le_prev = 30, le_next = 20\<rparr>, 20 \<mapsto> \<lparr>le_prev = 10, le_next = 2\<rparr>,
     2 \<mapsto> \<lparr>le_prev = 20, le_next = 0\<rparr>]"

lemma demo_rep: "list_rep demo_heap demo_list [30, 10, 20]"
  by (simp add: list_rep_def chain_def demo_heap_def demo_list_def get_next_def get_prev_def)

theorem list_sort_correct_witness:
  "\<exists>h' ys. list_sort demo_heap demo_list (<) = Some h' \<and> list_rep h' demo_list ys \<and>
     mset ys = {#10, 20, 30#} \<and> sorted ys"
proof -
  have "strict_weak_order ((<) :: nat \<Rightarrow> nat \<Rightarrow> bool)" by unfold_locales auto
  from list_sort_correct [OF this demo_rep] show ?thesis
    by (auto simp: add_mset_commute not_less)
qed

end
