(* ===== verification/Fixed_Point.thy ===== *)
theory Fixed_Point
  imports Pintos_Prelude
begin

text \<open>
  The fixed-point arithmetic of \<^verbatim>\<open>threads/fixed.h\<close> and the formulas of the multi-level feedback
  queue scheduler in \<^verbatim>\<open>threads/thread.c\<close>. A \<^verbatim>\<open>fixed_t\<close> is a 32-bit signed integer with 15
  fraction bits, modelled as an \<^typ>\<open>int\<close> that every operation reduces to the 32-bit range by
  \<open>s32\<close>. Division truncates toward zero (\<^verbatim>\<open>/\<close> of C), the right shift rounds down.
  The bounds show that the scheduler's values never leave the range in which nothing wraps.
\<close>

subsection \<open>The macros\<close>

definition FP_SHIFT_AMOUNT :: nat where
  "FP_SHIFT_AMOUNT = 15"

definition FP_CONST :: "int \<Rightarrow> int" where
  "FP_CONST a = s32 (a * 2 ^ FP_SHIFT_AMOUNT)"

definition FP_ADD :: "int \<Rightarrow> int \<Rightarrow> int" where
  "FP_ADD a b = s32 (a + b)"

definition FP_ADD_MIX :: "int \<Rightarrow> int \<Rightarrow> int" where
  "FP_ADD_MIX a b = s32 (a + s32 (b * 2 ^ FP_SHIFT_AMOUNT))"

definition FP_SUB :: "int \<Rightarrow> int \<Rightarrow> int" where
  "FP_SUB a b = s32 (a - b)"

definition FP_SUB_MIX :: "int \<Rightarrow> int \<Rightarrow> int" where
  "FP_SUB_MIX a b = s32 (a - s32 (b * 2 ^ FP_SHIFT_AMOUNT))"

definition FP_MULT_MIX :: "int \<Rightarrow> int \<Rightarrow> int" where
  "FP_MULT_MIX a b = s32 (a * b)"

definition FP_DIV_MIX :: "int \<Rightarrow> int \<Rightarrow> int" where
  "FP_DIV_MIX a b = s32 (a sdiv b)"

definition FP_MULT :: "int \<Rightarrow> int \<Rightarrow> int" where
  "FP_MULT a b = s32 ((a * b) div 2 ^ FP_SHIFT_AMOUNT)"

definition FP_DIV :: "int \<Rightarrow> int \<Rightarrow> int" where
  "FP_DIV a b = s32 ((a * 2 ^ FP_SHIFT_AMOUNT) sdiv b)"

definition FP_INT_PART :: "int \<Rightarrow> int" where
  "FP_INT_PART a = a div 2 ^ FP_SHIFT_AMOUNT"

definition FP_ROUND :: "int \<Rightarrow> int" where
  "FP_ROUND a = (if a \<ge> 0 then s32 (a + 2 ^ (FP_SHIFT_AMOUNT - 1)) div 2 ^ FP_SHIFT_AMOUNT
     else s32 (a - 2 ^ (FP_SHIFT_AMOUNT - 1)) div 2 ^ FP_SHIFT_AMOUNT)"

lemmas fp_defs = FP_SHIFT_AMOUNT_def FP_CONST_def FP_ADD_def FP_ADD_MIX_def FP_SUB_def FP_SUB_MIX_def
  FP_MULT_MIX_def FP_DIV_MIX_def FP_MULT_def FP_DIV_def FP_INT_PART_def FP_ROUND_def

subsection \<open>The scheduler's formulas\<close>

definition PRI_MIN :: int where "PRI_MIN = 0"
definition PRI_DEFAULT :: int where "PRI_DEFAULT = 31"
definition PRI_MAX :: int where "PRI_MAX = 63"

lemmas pri_defs = PRI_MIN_def PRI_DEFAULT_def PRI_MAX_def

text \<open>The arithmetic of \<^verbatim>\<open>mlfqs_priority_of\<close>, for a thread that is not the idle thread.\<close>

definition mlfqs_priority :: "int \<Rightarrow> int \<Rightarrow> int" where
  "mlfqs_priority recent_cpu nice =
     (let pr = s32 (s32 (PRI_MAX - FP_INT_PART (FP_DIV_MIX recent_cpu 4)) - s32 (nice * 2)) in
      let pr = (if pr > PRI_MAX then PRI_MAX else pr) in
      if pr < PRI_MIN then PRI_MIN else pr)"

definition mlfqs_load_avg :: "int \<Rightarrow> int \<Rightarrow> int" where
  "mlfqs_load_avg load_avg ready_threads =
     (let term1 = FP_DIV_MIX (FP_MULT_MIX load_avg 59) 60;
          term2 = FP_DIV_MIX (FP_CONST ready_threads) 60
      in FP_ADD term1 term2)"

definition mlfqs_coeff :: "int \<Rightarrow> int" where
  "mlfqs_coeff load_avg =
     (let two_la = FP_MULT_MIX load_avg 2 in FP_DIV two_la (FP_ADD_MIX two_la 1))"

definition mlfqs_recent_cpu :: "int \<Rightarrow> int \<Rightarrow> int \<Rightarrow> int" where
  "mlfqs_recent_cpu coeff recent_cpu nice = FP_ADD (FP_MULT coeff recent_cpu) (FP_CONST nice)"

subsection \<open>Bounds\<close>

lemma sdiv_nonneg: "0 \<le> (a::int) \<Longrightarrow> 0 < b \<Longrightarrow> a sdiv b = a div b"
  by (simp add: signed_divide_int_def sgn_if)

lemma mlfqs_priority_range: "PRI_MIN \<le> mlfqs_priority rc n \<and> mlfqs_priority rc n \<le> PRI_MAX"
  by (simp add: mlfqs_priority_def Let_def pri_defs)

lemma mlfqs_load_avg_exact:
  assumes "0 \<le> la" "la \<le> 1000 * 2 ^ 15" "0 \<le> r" "r \<le> 1000"
  shows "mlfqs_load_avg la r = la * 59 div 60 + r * 2 ^ 15 div 60"
proof -
  have a: "0 \<le> la * 59" "la * 59 < 2147483648" "0 \<le> r * 32768" "r * 32768 < 2147483648" using assms by auto
  have "la * 59 div 60 \<le> 1000 * 2 ^ 15" "r * 32768 div 60 \<le> 1000 * 2 ^ 15" using assms by auto
  moreover have "0 \<le> la * 59 div 60" "0 \<le> r * 32768 div 60" using a by (auto simp: pos_imp_zdiv_nonneg_iff)
  ultimately show ?thesis
    using a by (simp add: mlfqs_load_avg_def Let_def fp_defs sdiv_nonneg)
qed

text \<open>
  C21. Under the per-second update the load average never leaves the interval from 0 to the largest
  number of ready threads: with at most \<open>R\<close> threads ready, \<open>R\<close> up to 1000, a load average in
  that interval stays in it, and none of the 32-bit operations of the formula wraps.
\<close>

theorem mlfqs_load_avg_bounded:
  assumes "R \<le> 1000" "0 \<le> la" "la \<le> R * 2 ^ 15" "0 \<le> r" "r \<le> R"
  shows "0 \<le> mlfqs_load_avg la r \<and> mlfqs_load_avg la r \<le> R * 2 ^ 15 \<and>
    mlfqs_load_avg la r = la * 59 div 60 + r * 2 ^ 15 div 60"
proof -
  have la: "la \<le> 1000 * 2 ^ 15" "r \<le> 1000" using assms by auto
  have e: "mlfqs_load_avg la r = la * 59 div 60 + r * 2 ^ 15 div 60"
    using mlfqs_load_avg_exact [OF assms(2) la(1) assms(4) la(2)] .
  have "0 \<le> la * 59 div 60" "0 \<le> r * 2 ^ 15 div 60" using assms by (auto simp: pos_imp_zdiv_nonneg_iff)
  moreover have "la * 59 div 60 + r * 2 ^ 15 div 60 \<le> R * 2 ^ 15"
    using assms(3,5) by simp
  ultimately show ?thesis using e by simp
qed

theorem mlfqs_load_avg_bounded_witness:
  "0 \<le> mlfqs_load_avg 50000 3 \<and> mlfqs_load_avg 50000 3 \<le> 3 * 2 ^ 15"
  using mlfqs_load_avg_bounded [of 3 50000 3] by simp

lemma int_div_mult_le: "0 < (b::int) \<Longrightarrow> a div b * b \<le> a"
  using pos_mod_sign [of b a] by (simp add: minus_mod_eq_div_mult [symmetric])

lemma int_div_less:
  assumes "0 < (b::int)" "a < c * b"
  shows "a div b < c"
proof (rule ccontr)
  assume "\<not> a div b < c"
  then have "c * b \<le> a div b * b" using assms(1) by (intro mult_right_mono) auto
  then show False using assms int_div_mult_le [of b a] by linarith
qed

lemma mlfqs_coeff_range:
  assumes "0 \<le> la" "la \<le> 1000 * 2 ^ 15"
  shows "0 \<le> mlfqs_coeff la \<and> mlfqs_coeff la < 2 ^ 15 \<and>
    mlfqs_coeff la = (2 * la * 2 ^ 15) div (2 * la + 2 ^ 15)"
proof -
  let ?q = "(2 * la * 32768) div (2 * la + 32768)"
  have q: "?q < 32768" using assms by (intro int_div_less) auto
  have q0: "0 \<le> ?q" using assms by (simp add: pos_imp_zdiv_nonneg_iff)
  have "mlfqs_coeff la = ?q"
    using assms q q0 by (simp add: mlfqs_coeff_def Let_def fp_defs sdiv_nonneg mult.commute)
  then show ?thesis using q q0 by simp
qed

text \<open>The decay factor is at most \<open>2R / (2R + 1)\<close> for a load average up to \<open>R\<close>.\<close>

lemma mlfqs_coeff_decay:
  assumes "0 \<le> la" "la \<le> R * 2 ^ 15" "R \<le> 1000"
  shows "mlfqs_coeff la * (2 * R + 1) \<le> 2 * R * 2 ^ 15"
proof -
  define c where "c = mlfqs_coeff la"
  have c: "0 \<le> c" "c < 2 ^ 15" "c = (2 * la * 2 ^ 15) div (2 * la + 2 ^ 15)"
    using mlfqs_coeff_range [of la] assms by (auto simp: c_def)
  have "c * (2 * la + 2 ^ 15) \<le> 2 * la * 2 ^ 15"
    unfolding c(3) using assms by (intro int_div_mult_le) simp
  then have "c * 2 ^ 15 \<le> la * (2 * (2 ^ 15 - c))" by (simp add: algebra_simps)
  also have "\<dots> \<le> R * 2 ^ 15 * (2 * (2 ^ 15 - c))"
    using assms c by (intro mult_right_mono) auto
  finally have "c * 2 ^ 15 \<le> (R * (2 * (2 ^ 15 - c))) * 2 ^ 15" by (simp add: algebra_simps)
  then have "c \<le> R * (2 * (2 ^ 15 - c))" by simp
  then show ?thesis by (simp add: c_def algebra_simps)
qed

text \<open>
  C22. A thread's \<^verbatim>\<open>recent_cpu\<close> stays in a fixed range. With a load average of at most \<open>R\<close>
  (\<open>R \<le> 100\<close>) and nice values from -20 to 20, let \<^verbatim>\<open>recent_cpu\<close> at one per-second update be at
  most \<open>240 R + 20\<close> and let the thread run for all 100 ticks up to the next one: after that update
  it is again at most \<open>240 R + 20\<close>, it never falls below \<open>-20 (2 R + 1)\<close>, and the
  update computes the exact (rounded down) value without wrapping.
\<close>

theorem mlfqs_recent_cpu_bounded:
  assumes R: "0 \<le> R" "R \<le> 100" and la: "0 \<le> la" "la \<le> R * 2 ^ 15"
    and nice: "- 20 \<le> nice" "nice \<le> 20"
    and rc: "- (20 * (2 * R + 1)) * 2 ^ 15 \<le> rc" "rc \<le> (240 * R + 20 + 100) * 2 ^ 15"
  shows "mlfqs_recent_cpu (mlfqs_coeff la) rc nice = mlfqs_coeff la * rc div 2 ^ 15 + nice * 2 ^ 15 \<and>
    - (20 * (2 * R + 1)) * 2 ^ 15 \<le> mlfqs_recent_cpu (mlfqs_coeff la) rc nice \<and>
    mlfqs_recent_cpu (mlfqs_coeff la) rc nice \<le> (240 * R + 20) * 2 ^ 15"
proof -
  define c where "c = mlfqs_coeff la"
  have c: "0 \<le> c" "c * (2 * R + 1) \<le> 2 * R * 2 ^ 15"
    using mlfqs_coeff_range [of la] mlfqs_coeff_decay [of la R] assms by (auto simp: c_def)
  have "c * rc \<le> c * (120 * (2 * R + 1) * 2 ^ 15)"
    using c(1) rc(2) by (intro mult_left_mono) auto
  also have "\<dots> = 120 * (c * (2 * R + 1)) * 2 ^ 15" by (simp add: algebra_simps)
  also have "\<dots> \<le> 120 * (2 * R * 2 ^ 15) * 2 ^ 15"
    using c(2) by (intro mult_right_mono mult_left_mono) auto
  finally have u: "c * rc div 2 ^ 15 \<le> 240 * R * 2 ^ 15" by simp
  have "c * (20 * (2 * R + 1) * 2 ^ 15) = 20 * (c * (2 * R + 1)) * 2 ^ 15" by (simp add: algebra_simps)
  also have "\<dots> \<le> 20 * (2 * R * 2 ^ 15) * 2 ^ 15"
    using c(2) by (intro mult_right_mono mult_left_mono) auto
  also have "\<dots> = (40 * R * 2 ^ 15) * 2 ^ 15" by simp
  finally have "- ((40 * R * 2 ^ 15) * 2 ^ 15) \<le> - (c * (20 * (2 * R + 1) * 2 ^ 15))" by simp
  also have "\<dots> = c * (- (20 * (2 * R + 1)) * 2 ^ 15)" by (simp add: algebra_simps)
  also have "\<dots> \<le> c * rc" using c(1) rc(1) by (intro mult_left_mono) auto
  finally have l: "- (40 * R * 2 ^ 15) \<le> c * rc div 2 ^ 15" by simp
  have "mlfqs_recent_cpu c rc nice = c * rc div 2 ^ 15 + nice * 2 ^ 15"
    using u l R nice by (simp add: mlfqs_recent_cpu_def fp_defs)
  then show ?thesis using u l nice by (simp add: c_def)
qed

theorem mlfqs_recent_cpu_bounded_witness:
  "mlfqs_recent_cpu (mlfqs_coeff (2 ^ 15)) (3 * 2 ^ 15) 5 \<le> 260 * 2 ^ 15"
  using mlfqs_recent_cpu_bounded [of 1 "2 ^ 15" 5 "3 * 2 ^ 15"] by simp

lemma FP_ROUND_nonneg:
  assumes "0 \<le> a" "a < 2 ^ 31 - 2 ^ 14"
  shows "a - 2 ^ 14 < FP_ROUND a * 2 ^ 15 \<and> FP_ROUND a * 2 ^ 15 \<le> a + 2 ^ 14"
proof -
  have "FP_ROUND a * 32768 = a + 16384 - (a + 16384) mod 32768"
    using assms by (simp add: fp_defs minus_mod_eq_div_mult)
  then show ?thesis using pos_mod_bound [of 32768 "a + 16384"] pos_mod_sign [of 32768 "a + 16384"] by simp
qed

lemma FP_ROUND_neg:
  assumes "a < 0" "- (2 ^ 31) + 2 ^ 14 \<le> a"
  shows "FP_ROUND a * 2 ^ 15 \<le> a - 2 ^ 14 \<and> a - 2 ^ 14 < FP_ROUND a * 2 ^ 15 + 2 ^ 15"
proof -
  have "FP_ROUND a * 32768 = a - 16384 - (a - 16384) mod 32768"
    using assms by (simp add: fp_defs minus_mod_eq_div_mult)
  then show ?thesis using pos_mod_bound [of 32768 "a - 16384"] pos_mod_sign [of 32768 "a - 16384"] by simp
qed

text \<open>
  C27. What \<^verbatim>\<open>FP_ROUND\<close> computes for every value that half a unit can be added to or subtracted from without
  overflow. A nonnegative value \<open>x\<close> is rounded to the nearest integer, halves upwards: the result is within
  \<open>x - 1/2 < r \<le> x + 1/2\<close>. For a negative value the shift rounds down after the half was subtracted, so the result is the
  one integer with \<open>x - 3/2 < r \<le> x - 1/2\<close>, one less than the nearest: the value of an integer \<open>k < 0\<close> gives \<open>k - 1\<close>.
\<close>

theorem FP_ROUND_rounding:
  assumes "- (2 ^ 31) + 2 ^ 14 \<le> a" "a < 2 ^ 31 - 2 ^ 14"
  shows "(0 \<le> a \<longrightarrow> a - 2 ^ 14 < FP_ROUND a * 2 ^ 15 \<and> FP_ROUND a * 2 ^ 15 \<le> a + 2 ^ 14) \<and>
    (a < 0 \<longrightarrow> a - 2 ^ 15 - 2 ^ 14 < FP_ROUND a * 2 ^ 15 \<and> FP_ROUND a * 2 ^ 15 \<le> a - 2 ^ 14)"
  using FP_ROUND_nonneg [of a] FP_ROUND_neg [of a] assms by auto

theorem FP_ROUND_rounding_witness: "FP_ROUND (FP_CONST (- 7)) = - 8 \<and> FP_ROUND (2 ^ 14) = 1 \<and> FP_ROUND (2 ^ 14 - 1) = 0"
  using FP_ROUND_rounding [of "FP_CONST (- 7)"] FP_ROUND_rounding [of "2 ^ 14"] FP_ROUND_rounding [of "2 ^ 14 - 1"]
  by (simp add: FP_CONST_def FP_SHIFT_AMOUNT_def)

end
