(* ===== verification/Kernel_Threads.thy ===== *)
theory Kernel_Threads
  imports Kernel_List_Sort Fixed_Point
begin

text \<open>
  The threads and the scheduler: \<^verbatim>\<open>threads/thread.c\<close> with the interrupt level of
  \<^verbatim>\<open>threads/interrupt.c\<close>. A thread is named by the address of its \<^verbatim>\<open>struct thread\<close>. The kernel's
  lists are lists of thread addresses: \<^verbatim>\<open>Kernel_List\<close> and \<^verbatim>\<open>Kernel_List_Sort\<close> show that the list
  functions do on the heap what \<open>insert_ordered\<close>, \<open>ssort\<close>, \<open>remove1\<close>, \<open>hd\<close> and \<open>tl\<close> do here.

  The processor runs one thread at a time. A function that reaches \<^verbatim>\<open>schedule\<close> hands the processor
  to another thread; what the caller still has to do is kept as a \<open>frame\<close> on the stack of the
  suspended thread, and is executed when that thread runs again. Calls below the level of this
  theory (\<^verbatim>\<open>palloc_get_page\<close>) are arguments: the page they return.
\<close>

subsection \<open>Threads, frames and the kernel state\<close>

datatype thread_status = THREAD_RUNNING | THREAD_READY | THREAD_BLOCKED | THREAD_DYING

record thread =
  t_tid :: int
  t_status :: thread_status
  t_name :: string
  t_stack :: ptr
  t_priority :: int
  t_base_priority :: int
  t_donors :: "ptr list"
  t_waiting_on :: ptr
  t_pagedir :: ptr
  t_nice :: int
  t_recent_cpu :: int
  t_wakeup_tick :: int

text \<open>To whom \<^verbatim>\<open>sema_down\<close> returns: to thread code, or into \<^verbatim>\<open>lock_acquire\<close> of a lock.\<close>

datatype down_ret = Ret_Plain | Ret_Lock ptr

text \<open>
  What a thread still has to execute before it is back in its own code: the \<^verbatim>\<open>intr_set_level\<close> after
  a \<^verbatim>\<open>schedule\<close>, the return from an interrupt, the start of a new thread, the \<^verbatim>\<open>hlt\<close> of the idle
  loop, and the remaining parts of the synchronization functions.
\<close>

datatype frame =
    Set_Level bool
  | Iret
  | Kernel_Thread
  | Idle_Halt
  | Sema_Down ptr down_ret
  | Sema_Down_Loop ptr bool down_ret
  | Lock_Acquire ptr
  | Lock_Acquired ptr
  | Lock_Release ptr
  | Lock_Up ptr
  | Cond_Broadcast ptr ptr

record semaphore =
  s_value :: nat
  s_waiters :: "ptr list"

record kernel =
  k_threads :: "ptr \<rightharpoonup> thread"
  k_frames :: "ptr \<Rightarrow> frame list"
  running :: ptr
  ready_list :: "ptr list"
  all_list :: "ptr list"
  sleeping_list :: "ptr list"
  idle_thread :: ptr
  initial_thread :: ptr
  intr_on :: bool
  in_external_intr :: bool
  yield_on_return :: bool
  thread_ticks :: nat
  idle_ticks :: int
  kernel_ticks :: int
  user_ticks :: int
  load_avg :: int
  thread_mlfqs :: bool
  next_tid :: int
  k_ticks :: int
  next_wakeup_tick :: int
  k_semas :: "ptr \<rightharpoonup> semaphore"
  k_holder :: "ptr \<rightharpoonup> ptr"
  k_conds :: "ptr \<rightharpoonup> ptr list"
  donor_word :: "ptr \<Rightarrow> int"

text \<open>
  \<open>k_holder l\<close> is the \<^verbatim>\<open>holder\<close> of the lock at \<open>l\<close>; its semaphore is at \<open>l + 4\<close>.
  \<open>k_conds c\<close> lists the \<^verbatim>\<open>semaphore_elem\<close>s waiting on the condition variable at \<open>c\<close>, each by the
  address of its semaphore. \<open>donor_word t\<close> is the word that \<^verbatim>\<open>thread_priority_comparison\<close> reads
  when it is given \<^verbatim>\<open>&t->donor_elem\<close>: it subtracts the offset of \<^verbatim>\<open>elem\<close>, not of \<^verbatim>\<open>donor_elem\<close>, so
  this is not the priority of \<open>t\<close> but whatever lies 524 bytes below it.
\<close>

definition thread_of :: "kernel \<Rightarrow> ptr \<Rightarrow> thread option" where
  "thread_of k t = k_threads k t"

definition prio :: "kernel \<Rightarrow> ptr \<Rightarrow> int" where
  "prio k t = (case k_threads k t of Some th \<Rightarrow> t_priority th | None \<Rightarrow> 0)"

definition status_of :: "kernel \<Rightarrow> ptr \<Rightarrow> thread_status option" where
  "status_of k t = map_option t_status (k_threads k t)"

definition upd_thread :: "ptr \<Rightarrow> (thread \<Rightarrow> thread) \<Rightarrow> kernel \<Rightarrow> kernel option" where
  "upd_thread t f k = (case k_threads k t of None \<Rightarrow> None
     | Some th \<Rightarrow> Some (k\<lparr>k_threads := (k_threads k)(t \<mapsto> f th)\<rparr>))"

definition set_status :: "ptr \<Rightarrow> thread_status \<Rightarrow> kernel \<Rightarrow> kernel option" where
  "set_status t s = upd_thread t (\<lambda>th. th\<lparr>t_status := s\<rparr>)"

definition push_frame :: "frame \<Rightarrow> kernel \<Rightarrow> kernel" where
  "push_frame f k = k\<lparr>k_frames := (k_frames k)(running k := f # k_frames k (running k))\<rparr>"

definition pop_frame :: "kernel \<Rightarrow> kernel" where
  "pop_frame k = k\<lparr>k_frames := (k_frames k)(running k := tl (k_frames k (running k)))\<rparr>"

subsection \<open>The interrupt level\<close>

definition intr_context :: "kernel \<Rightarrow> bool" where
  "intr_context k = in_external_intr k"

definition intr_get_level :: "kernel \<Rightarrow> bool" where
  "intr_get_level k = intr_on k"

definition intr_enable :: "kernel \<Rightarrow> kernel option" where
  "intr_enable k = do { ASSERT (\<not> intr_context k); Some (k\<lparr>intr_on := True\<rparr>) }"

definition intr_disable :: "kernel \<Rightarrow> kernel" where
  "intr_disable k = k\<lparr>intr_on := False\<rparr>"

definition intr_set_level :: "bool \<Rightarrow> kernel \<Rightarrow> kernel option" where
  "intr_set_level level k = (if level then intr_enable k else Some (intr_disable k))"

definition intr_yield_on_return :: "kernel \<Rightarrow> kernel option" where
  "intr_yield_on_return k = do { ASSERT (intr_context k); Some (k\<lparr>yield_on_return := True\<rparr>) }"

subsection \<open>Comparison functions and the current thread\<close>

definition thread_priority_comparison :: "kernel \<Rightarrow> ptr \<Rightarrow> ptr \<Rightarrow> bool" where
  "thread_priority_comparison k a b \<longleftrightarrow> prio k a > prio k b"

text \<open>The same function, called on elements of a donor list.\<close>

definition donor_comparison :: "kernel \<Rightarrow> ptr \<Rightarrow> ptr \<Rightarrow> bool" where
  "donor_comparison k a b \<longleftrightarrow> donor_word k a > donor_word k b"

definition wakeup_of :: "kernel \<Rightarrow> ptr \<Rightarrow> int" where
  "wakeup_of k t = (case k_threads k t of Some th \<Rightarrow> t_wakeup_tick th | None \<Rightarrow> 0)"

definition list_sleep_less_func :: "kernel \<Rightarrow> ptr \<Rightarrow> ptr \<Rightarrow> bool" where
  "list_sleep_less_func k a b \<longleftrightarrow> wakeup_of k a < wakeup_of k b"

definition is_thread :: "kernel \<Rightarrow> ptr \<Rightarrow> bool" where
  "is_thread k t \<longleftrightarrow> t \<noteq> NULL \<and> t \<in> dom (k_threads k)"

definition thread_current :: "kernel \<Rightarrow> ptr option" where
  "thread_current k = do {
     ASSERT (is_thread k (running k));
     ASSERT (status_of k (running k) = Some THREAD_RUNNING);
     Some (running k) }"

subsection \<open>Switching threads\<close>

definition next_thread_to_run :: "kernel \<Rightarrow> kernel \<times> ptr" where
  "next_thread_to_run k =
     (case ready_list k of [] \<Rightarrow> (k, idle_thread k) | t # ts \<Rightarrow> (k\<lparr>ready_list := ts\<rparr>, t))"

definition thread_schedule_tail :: "ptr \<Rightarrow> kernel \<Rightarrow> kernel option" where
  "thread_schedule_tail prev k = do {
     ASSERT (\<not> intr_on k);
     k \<leftarrow> set_status (running k) THREAD_RUNNING k;
     let k = k\<lparr>thread_ticks := 0\<rparr>;
     if prev \<noteq> NULL \<and> status_of k prev = Some THREAD_DYING \<and> prev \<noteq> initial_thread k then do {
       ASSERT (prev \<noteq> running k);
       Some (k\<lparr>k_threads := (k_threads k)(prev := None)\<rparr>) }
     else Some k }"

definition schedule :: "kernel \<Rightarrow> kernel option" where
  "schedule k = (
     let cur = running k; (k, nxt) = next_thread_to_run k in do {
     ASSERT (\<not> intr_on k);
     ASSERT (status_of k cur \<noteq> Some THREAD_RUNNING);
     ASSERT (is_thread k nxt);
     if cur \<noteq> nxt then thread_schedule_tail cur (k\<lparr>running := nxt\<rparr>)
     else thread_schedule_tail NULL k })"

definition thread_block :: "kernel \<Rightarrow> kernel option" where
  "thread_block k = do {
     ASSERT (\<not> intr_context k);
     ASSERT (\<not> intr_on k);
     cur \<leftarrow> thread_current k;
     k \<leftarrow> set_status cur THREAD_BLOCKED k;
     schedule k }"

definition thread_unblock :: "ptr \<Rightarrow> kernel \<Rightarrow> kernel option" where
  "thread_unblock t k = do {
     ASSERT (is_thread k t);
     let old_level = intr_get_level k;
     let k = intr_disable k;
     ASSERT (status_of k t = Some THREAD_BLOCKED);
     let k = k\<lparr>ready_list := insert_ordered (thread_priority_comparison k) t (ready_list k)\<rparr>;
     k \<leftarrow> set_status t THREAD_READY k;
     k \<leftarrow> (if intr_context k \<and> ready_list k \<noteq> [] then do {
             cur \<leftarrow> thread_current k;
             if prio k (hd (ready_list k)) > prio k cur then intr_yield_on_return k else Some k }
           else Some k);
     intr_set_level old_level k }"

definition thread_yield :: "kernel \<Rightarrow> kernel option" where
  "thread_yield k = do {
     cur \<leftarrow> thread_current k;
     ASSERT (\<not> intr_context k);
     let old_level = intr_get_level k;
     let k = intr_disable k;
     let k = (if cur \<noteq> idle_thread k
              then k\<lparr>ready_list := insert_ordered (thread_priority_comparison k) cur (ready_list k)\<rparr> else k);
     k \<leftarrow> set_status cur THREAD_READY k;
     schedule (push_frame (Set_Level old_level) k) }"

definition try_thread_yield :: "kernel \<Rightarrow> kernel option" where
  "try_thread_yield k = do {
     let old_level = intr_get_level k;
     let k = intr_disable k;
     cur \<leftarrow> (if ready_list k \<noteq> [] then thread_current k else Some (running k));
     let need_yield = (ready_list k \<noteq> [] \<and> prio k (hd (ready_list k)) > prio k cur);
     k \<leftarrow> intr_set_level old_level k;
     if need_yield then thread_yield k else Some k }"

text \<open>The part of \<^verbatim>\<open>thread_exit\<close> after \<^verbatim>\<open>process_exit\<close>, which is a step of its own.\<close>

definition thread_exit :: "kernel \<Rightarrow> kernel option" where
  "thread_exit k = do {
     ASSERT (\<not> intr_context k);
     let k = intr_disable k;
     cur \<leftarrow> thread_current k;
     ASSERT (cur \<in> set (all_list k));
     let k = k\<lparr>all_list := remove1 cur (all_list k)\<rparr>;
     k \<leftarrow> set_status cur THREAD_DYING k;
     schedule k }"

subsection \<open>Sleeping\<close>

definition thread_sleep :: "int \<Rightarrow> kernel \<Rightarrow> kernel option" where
  "thread_sleep wakeup k = do {
     t \<leftarrow> thread_current k;
     if t = idle_thread k then Some k else do {
       let old_level = intr_get_level k;
       let k = intr_disable k;
       k \<leftarrow> upd_thread t (\<lambda>th. th\<lparr>t_wakeup_tick := wakeup\<rparr>) k;
       let k = k\<lparr>sleeping_list := insert_ordered (list_sleep_less_func k) t (sleeping_list k)\<rparr>;
       let k = (if wakeup < next_wakeup_tick k then k\<lparr>next_wakeup_tick := wakeup\<rparr> else k);
       k \<leftarrow> set_status t THREAD_BLOCKED k;
       schedule (push_frame (Set_Level old_level) k) } }"

text \<open>\<^verbatim>\<open>thread_set_sleeping\<close>: its loop finds the place \<open>insert_ordered\<close> inserts at.\<close>

definition thread_set_sleeping :: "int \<Rightarrow> kernel \<Rightarrow> kernel option" where
  "thread_set_sleeping n k = do {
     cur \<leftarrow> thread_current k;
     k \<leftarrow> upd_thread cur (\<lambda>th. th\<lparr>t_wakeup_tick := k_ticks k + n\<rparr>) k;
     let k = k\<lparr>sleeping_list := insert_ordered (list_sleep_less_func k) cur (sleeping_list k)\<rparr>;
     thread_block k }"

subsection \<open>Priorities\<close>

definition update_priority :: "ptr \<Rightarrow> kernel \<Rightarrow> kernel option" where
  "update_priority t k = do {
     k \<leftarrow> upd_thread t (\<lambda>th. th\<lparr>t_priority := t_base_priority th\<rparr>) k;
     th \<leftarrow> k_threads k t;
     if t_donors th \<noteq> [] then do {
       k \<leftarrow> upd_thread t (\<lambda>th. th\<lparr>t_donors := ssort (donor_comparison k) (t_donors th)\<rparr>) k;
       th \<leftarrow> k_threads k t;
       let highest_prio = hd (t_donors th);
       if prio k highest_prio > t_priority th
       then upd_thread t (\<lambda>th. th\<lparr>t_priority := prio k highest_prio\<rparr>) k
       else Some k }
     else Some k }"

definition thread_set_priority :: "int \<Rightarrow> kernel \<Rightarrow> kernel option" where
  "thread_set_priority new_priority k =
     (if thread_mlfqs k then Some k else do {
       cur \<leftarrow> thread_current k;
       k \<leftarrow> upd_thread cur (\<lambda>th. th\<lparr>t_base_priority := new_priority\<rparr>) k;
       k \<leftarrow> update_priority cur k;
       if ready_list k \<noteq> [] \<and> prio k (hd (ready_list k)) > prio k cur then thread_yield k
       else Some k })"

definition thread_get_priority :: "kernel \<Rightarrow> int option" where
  "thread_get_priority k = do { cur \<leftarrow> thread_current k; Some (prio k cur) }"

subsection \<open>The multi-level feedback queue scheduler\<close>

definition mlfqs_priority_of :: "kernel \<Rightarrow> ptr \<Rightarrow> int" where
  "mlfqs_priority_of k t = (if t = idle_thread k then PRI_MIN
     else case k_threads k t of Some th \<Rightarrow> mlfqs_priority (t_recent_cpu th) (t_nice th) | None \<Rightarrow> PRI_MIN)"

definition thread_ready_rearrange :: "ptr \<Rightarrow> kernel \<Rightarrow> kernel option" where
  "thread_ready_rearrange t k = do {
     ASSERT (status_of k t = Some THREAD_READY);
     let old_level = intr_get_level k;
     let k = intr_disable k;
     ASSERT (t \<in> set (ready_list k));
     let k = k\<lparr>ready_list := insert_ordered (thread_priority_comparison k) t (remove1 t (ready_list k))\<rparr>;
     intr_set_level old_level k }"

definition thread_update_priority_mlfqs :: "ptr \<Rightarrow> kernel \<Rightarrow> kernel option" where
  "thread_update_priority_mlfqs t k = (
     let old_priority = prio k t; new_priority = mlfqs_priority_of k t in
     if new_priority \<noteq> old_priority then do {
       k \<leftarrow> upd_thread t (\<lambda>th. th\<lparr>t_priority := new_priority\<rparr>) k;
       if status_of k t = Some THREAD_READY then thread_ready_rearrange t k else Some k }
     else Some k)"

definition thread_set_nice :: "int \<Rightarrow> kernel \<Rightarrow> kernel option" where
  "thread_set_nice nice k = do {
     cur \<leftarrow> thread_current k;
     k \<leftarrow> upd_thread cur (\<lambda>th. th\<lparr>t_nice := nice\<rparr>) k;
     k \<leftarrow> thread_update_priority_mlfqs cur k;
     try_thread_yield k }"

definition thread_get_nice :: "kernel \<Rightarrow> int option" where
  "thread_get_nice k = do { cur \<leftarrow> thread_current k; map_option t_nice (k_threads k cur) }"

definition thread_get_load_avg :: "kernel \<Rightarrow> int" where
  "thread_get_load_avg k = FP_ROUND (FP_MULT_MIX (load_avg k) 100)"

definition thread_get_recent_cpu :: "kernel \<Rightarrow> int option" where
  "thread_get_recent_cpu k = do {
     cur \<leftarrow> thread_current k;
     th \<leftarrow> k_threads k cur;
     Some (FP_ROUND (FP_MULT_MIX (t_recent_cpu th) 100)) }"

text \<open>The two loops over \<^verbatim>\<open>all_list\<close>; they skip the idle thread.\<close>

fun foreach_thread :: "(kernel \<Rightarrow> ptr \<Rightarrow> thread \<Rightarrow> thread) \<Rightarrow> ptr list \<Rightarrow> kernel \<Rightarrow> kernel option" where
  "foreach_thread f [] k = Some k"
| "foreach_thread f (t # ts) k = do {
     k \<leftarrow> (if t = idle_thread k then Some k else upd_thread t (f k t) k);
     foreach_thread f ts k }"

definition mlfqs_update_load_avg_and_recent_cpu_all :: "kernel \<Rightarrow> kernel option" where
  "mlfqs_update_load_avg_and_recent_cpu_all k = do {
     let old_level = intr_get_level k;
     let k = intr_disable k;
     cur \<leftarrow> thread_current k;
     let ready_threads = int (length (ready_list k)) + (if cur \<noteq> idle_thread k then 1 else 0);
     let k = k\<lparr>load_avg := mlfqs_load_avg (load_avg k) ready_threads\<rparr>;
     let coeff = mlfqs_coeff (load_avg k);
     k \<leftarrow> foreach_thread
       (\<lambda>_ _ th. th\<lparr>t_recent_cpu := mlfqs_recent_cpu coeff (t_recent_cpu th) (t_nice th)\<rparr>) (all_list k) k;
     intr_set_level old_level k }"

definition mlfqs_recompute_priority_all :: "kernel \<Rightarrow> kernel option" where
  "mlfqs_recompute_priority_all k = do {
     k \<leftarrow> foreach_thread (\<lambda>k t th. th\<lparr>t_priority := mlfqs_priority_of k t\<rparr>) (all_list k) k;
     let old = intr_get_level k;
     let k = intr_disable k;
     let k = (if ready_list k \<noteq> [] then k\<lparr>ready_list := ssort (thread_priority_comparison k) (ready_list k)\<rparr> else k);
     intr_set_level old k }"

definition thread_mlfqs_tick :: "kernel \<Rightarrow> kernel option" where
  "thread_mlfqs_tick k = do {
     cur \<leftarrow> thread_current k;
     k \<leftarrow> (if cur \<noteq> idle_thread k then upd_thread cur (\<lambda>th. th\<lparr>t_recent_cpu := FP_ADD_MIX (t_recent_cpu th) 1\<rparr>) k
           else Some k);
     k \<leftarrow> (if k_ticks k smod 4 = 0 then thread_update_priority_mlfqs cur k else Some k);
     if ready_list k \<noteq> [] \<and> prio k (hd (ready_list k)) > prio k cur then intr_yield_on_return k
     else Some k }"

definition TIME_SLICE :: nat where
  "TIME_SLICE = 4"

definition thread_tick :: "kernel \<Rightarrow> kernel option" where
  "thread_tick k = do {
     t \<leftarrow> thread_current k;
     th \<leftarrow> k_threads k t;
     let k = (if t = idle_thread k then k\<lparr>idle_ticks := idle_ticks k + 1\<rparr>
              else if t_pagedir th \<noteq> NULL then k\<lparr>user_ticks := user_ticks k + 1\<rparr>
              else k\<lparr>kernel_ticks := kernel_ticks k + 1\<rparr>);
     let k = k\<lparr>thread_ticks := usz (thread_ticks k + 1)\<rparr>;
     k \<leftarrow> (if thread_ticks k \<ge> TIME_SLICE then intr_yield_on_return k else Some k);
     if thread_mlfqs k then thread_mlfqs_tick k else Some k }"

subsection \<open>Creating threads\<close>

text \<open>
  \<^verbatim>\<open>init_thread\<close> for the page at \<open>t\<close>. The name is a string, never a null pointer. It is cut to 15 characters by \<^verbatim>\<open>strlcpy\<close>; a new thread
  inherits the nice value and \<^verbatim>\<open>recent_cpu\<close> of the thread that creates it.
\<close>

definition init_thread :: "ptr \<Rightarrow> string \<Rightarrow> int \<Rightarrow> kernel \<Rightarrow> kernel option" where
  "init_thread t name priority k = do {
     ASSERT (t \<noteq> NULL);
     ASSERT (PRI_MIN \<le> priority \<and> priority \<le> PRI_MAX);
     let th = \<lparr>t_tid = 0, t_status = THREAD_BLOCKED, t_name = take 15 name, t_stack = t + 4096,
               t_priority = 0, t_base_priority = priority, t_donors = [], t_waiting_on = NULL,
               t_pagedir = NULL, t_nice = 0, t_recent_cpu = 0, t_wakeup_tick = 0\<rparr>;
     let k = k\<lparr>k_threads := (k_threads k)(t \<mapsto> th), k_frames := (k_frames k)(t := [])\<rparr>;
     k \<leftarrow> (if thread_mlfqs k then
             (if t = idle_thread k then upd_thread t (\<lambda>th. th\<lparr>t_priority := PRI_MIN\<rparr>) k
              else if t = initial_thread k then upd_thread t (\<lambda>th. th\<lparr>t_priority := mlfqs_priority_of k t\<rparr>) k
              else do {
                cth \<leftarrow> k_threads k (running k);
                k \<leftarrow> upd_thread t (\<lambda>th. th\<lparr>t_nice := t_nice cth, t_recent_cpu := t_recent_cpu cth\<rparr>) k;
                upd_thread t (\<lambda>th. th\<lparr>t_priority := mlfqs_priority_of k t\<rparr>) k })
           else upd_thread t (\<lambda>th. th\<lparr>t_priority := priority\<rparr>) k);
     Some (k\<lparr>all_list := all_list k @ [t]\<rparr>) }"

text \<open>
  The critical section of \<^verbatim>\<open>tid_lock\<close> is one step: the lock protects nothing else, so that no other thread can observe the
  state in between.
\<close>

definition allocate_tid :: "kernel \<Rightarrow> kernel \<times> int" where
  "allocate_tid k = (k\<lparr>next_tid := s32 (next_tid k + 1)\<rparr>, next_tid k)"

definition alloc_frame :: "ptr \<Rightarrow> nat \<Rightarrow> kernel \<Rightarrow> kernel option" where
  "alloc_frame t sz k = do {
     ASSERT (is_thread k t);
     ASSERT (sz mod 4 = 0);
     upd_thread t (\<lambda>th. th\<lparr>t_stack := t_stack th - sz\<rparr>) k }"

definition TID_ERROR :: int where
  "TID_ERROR = - 1"

text \<open>
  \<open>page\<close> is what \<^verbatim>\<open>palloc_get_page\<close> returns. The three stack frames have 12, 4 and 28 bytes; they make
  the first switch to the thread start in \<^verbatim>\<open>kernel_thread\<close>.
\<close>

definition thread_create :: "string \<Rightarrow> int \<Rightarrow> ptr \<Rightarrow> kernel \<Rightarrow> (kernel \<times> int) option" where
  "thread_create name priority page k =
     (if page = NULL then Some (k, TID_ERROR) else do {
       k \<leftarrow> init_thread page name priority k;
       let (k, tid) = allocate_tid k;
       k \<leftarrow> upd_thread page (\<lambda>th. th\<lparr>t_tid := tid\<rparr>) k;
       k \<leftarrow> alloc_frame page 12 k;
       k \<leftarrow> alloc_frame page 4 k;
       k \<leftarrow> alloc_frame page 28 k;
       let k = k\<lparr>k_frames := (k_frames k)(page := [Kernel_Thread])\<rparr>;
       k \<leftarrow> thread_unblock page k;
       cur \<leftarrow> (if thread_mlfqs k then Some (running k) else thread_current k);
       k \<leftarrow> (if \<not> thread_mlfqs k \<and> prio k cur < priority then thread_yield k else Some k);
       Some (k, tid) })"

text \<open>The idle thread's loop: block, and later enable interrupts and halt.\<close>

definition idle_loop :: "kernel \<Rightarrow> kernel option" where
  "idle_loop k = thread_block (push_frame Idle_Halt (intr_disable k))"

definition kernel_thread :: "kernel \<Rightarrow> kernel option" where
  "kernel_thread k = intr_enable k"

end
