(* ===== verification/Synchronization.thy ===== *)
theory Synchronization
  imports Kernel_Threads
begin

text \<open>
  Semaphores, locks with priority donation and condition variables: \<^verbatim>\<open>threads/synch.c\<close>. Each
  function is translated up to the point where the thread can lose the processor; the rest of it is
  a frame (\<^verbatim>\<open>Kernel_Threads\<close>). The regions the code runs with interrupts off are single steps. Of the
  code between them, which a timer interrupt may cut, the parts of \<^verbatim>\<open>lock_acquire\<close>, \<^verbatim>\<open>lock_release\<close> and
  \<^verbatim>\<open>cond_broadcast\<close> before and after a semaphore operation are separate frames; the statements within one part, and the
  assignment of the holder after a successful \<^verbatim>\<open>sema_try_down\<close> in \<^verbatim>\<open>lock_try_acquire\<close>, are one step.
\<close>

subsection \<open>Semaphores\<close>

definition sema_init :: "ptr \<Rightarrow> nat \<Rightarrow> kernel \<Rightarrow> kernel" where
  "sema_init s v k = k\<lparr>k_semas := (k_semas k)(s \<mapsto> \<lparr>s_value = v, s_waiters = []\<rparr>)\<rparr>"

definition set_sema :: "ptr \<Rightarrow> semaphore \<Rightarrow> kernel \<Rightarrow> kernel" where
  "set_sema s sm k = k\<lparr>k_semas := (k_semas k)(s \<mapsto> sm)\<rparr>"

text \<open>One round of the \<^verbatim>\<open>while\<close> loop of \<^verbatim>\<open>sema_down\<close>; a thread that is woken starts the next one.\<close>

definition sema_down_loop :: "ptr \<Rightarrow> bool \<Rightarrow> down_ret \<Rightarrow> kernel \<Rightarrow> kernel option" where
  "sema_down_loop s old_level ret k = do {
     sm \<leftarrow> k_semas k s;
     if s_value sm = 0 then do {
       cur \<leftarrow> thread_current k;
       let k = set_sema s (sm\<lparr>s_waiters := insert_ordered (thread_priority_comparison k) cur (s_waiters sm)\<rparr>) k;
       thread_block (push_frame (Sema_Down_Loop s old_level ret) k) }
     else do {
       let k = set_sema s (sm\<lparr>s_value := s_value sm - 1\<rparr>) k;
       k \<leftarrow> intr_set_level old_level k;
       Some (case ret of Ret_Plain \<Rightarrow> k | Ret_Lock l \<Rightarrow> push_frame (Lock_Acquired l) k) } }"

definition sema_down :: "ptr \<Rightarrow> down_ret \<Rightarrow> kernel \<Rightarrow> kernel option" where
  "sema_down s ret k = do {
     ASSERT (\<not> intr_context k);
     sema_down_loop s (intr_get_level k) ret (intr_disable k) }"

definition sema_try_down :: "ptr \<Rightarrow> kernel \<Rightarrow> (kernel \<times> bool) option" where
  "sema_try_down s k = do {
     let old_level = intr_get_level k;
     let k = intr_disable k;
     sm \<leftarrow> k_semas k s;
     let (k, success) = (if s_value sm > 0 then (set_sema s (sm\<lparr>s_value := s_value sm - 1\<rparr>) k, True) else (k, False));
     k \<leftarrow> intr_set_level old_level k;
     Some (k, success) }"

definition sema_up :: "ptr \<Rightarrow> kernel \<Rightarrow> kernel option" where
  "sema_up s k = do {
     let old_level = intr_get_level k;
     let k = intr_disable k;
     sm \<leftarrow> k_semas k s;
     r \<leftarrow> (if s_waiters sm \<noteq> [] then do {
             let ws = ssort (thread_priority_comparison k) (s_waiters sm);
             let k = set_sema s (sm\<lparr>s_waiters := tl ws\<rparr>) k;
             k \<leftarrow> thread_unblock (hd ws) k;
             cur \<leftarrow> (if intr_context k then Some (running k) else thread_current k);
             Some (k, \<not> intr_context k \<and> prio k (hd ws) > prio k cur) }
           else Some (k, False));
     let (k, yield) = r;
     sm \<leftarrow> k_semas k s;
     let k = set_sema s (sm\<lparr>s_value := usz (s_value sm + 1)\<rparr>) k;
     k \<leftarrow> intr_set_level old_level k;
     if yield then thread_yield k else Some k }"

subsection \<open>Priority donation\<close>

definition donation_limit :: nat where
  "donation_limit = 20"

text \<open>The \<^verbatim>\<open>while\<close> loop; the number of rounds left is \<^verbatim>\<open>limit - depth\<close>.\<close>

fun donate_loop :: "ptr \<Rightarrow> ptr \<Rightarrow> nat \<Rightarrow> kernel \<Rightarrow> kernel option" where
  "donate_loop current cur_lock 0 k = Some k"
| "donate_loop current cur_lock (Suc n) k =
     (if cur_lock = NULL then Some k else do {
       holder \<leftarrow> k_holder k cur_lock;
       if holder = NULL then Some k
       else if prio k current > prio k holder then do {
         k \<leftarrow> upd_thread holder (\<lambda>th. th\<lparr>t_priority := prio k current\<rparr>) k;
         hth \<leftarrow> k_threads k holder;
         if t_waiting_on hth \<noteq> NULL then donate_loop current (t_waiting_on hth) n k else Some k }
       else Some k })"

definition donate_priority :: "ptr \<Rightarrow> kernel \<Rightarrow> kernel option" where
  "donate_priority lock k = (if thread_mlfqs k then Some k else do {
     current \<leftarrow> thread_current k;
     k \<leftarrow> upd_thread current (\<lambda>th. th\<lparr>t_waiting_on := lock\<rparr>) k;
     k \<leftarrow> donate_loop current lock donation_limit k;
     holder \<leftarrow> k_holder k lock;
     if holder \<noteq> NULL
     then upd_thread holder (\<lambda>th. th\<lparr>t_donors := insert_ordered (donor_comparison k) current (t_donors th)\<rparr>) k
     else Some k })"

text \<open>The loop of \<^verbatim>\<open>remove_priority\<close> over the donors: the ones that stay, and the new state.\<close>

fun remove_donors :: "ptr \<Rightarrow> ptr list \<Rightarrow> kernel \<Rightarrow> (ptr list \<times> kernel) option" where
  "remove_donors lock [] k = Some ([], k)"
| "remove_donors lock (d # ds) k = do {
     dth \<leftarrow> k_threads k d;
     if t_waiting_on dth = lock then do {
       k \<leftarrow> upd_thread d (\<lambda>th. th\<lparr>t_waiting_on := NULL\<rparr>) k;
       remove_donors lock ds k }
     else do {
       r \<leftarrow> remove_donors lock ds k;
       Some (d # fst r, snd r) } }"

definition remove_priority :: "ptr \<Rightarrow> kernel \<Rightarrow> kernel option" where
  "remove_priority lock k = (if thread_mlfqs k then Some k else do {
     current \<leftarrow> thread_current k;
     th \<leftarrow> k_threads k current;
     r \<leftarrow> remove_donors lock (t_donors th) k;
     k \<leftarrow> upd_thread current (\<lambda>th. th\<lparr>t_donors := fst r\<rparr>) (snd r);
     update_priority current k })"

subsection \<open>Locks\<close>

definition lock_semaphore :: "ptr \<Rightarrow> ptr" where
  "lock_semaphore l = l + 4"

definition set_holder :: "ptr \<Rightarrow> ptr \<Rightarrow> kernel \<Rightarrow> kernel" where
  "set_holder l t k = k\<lparr>k_holder := (k_holder k)(l \<mapsto> t)\<rparr>"

definition lock_init :: "ptr \<Rightarrow> kernel \<Rightarrow> kernel" where
  "lock_init l k = sema_init (lock_semaphore l) 1 (set_holder l NULL k)"

definition lock_held_by_current_thread :: "ptr \<Rightarrow> kernel \<Rightarrow> bool option" where
  "lock_held_by_current_thread l k = do { h \<leftarrow> k_holder k l; cur \<leftarrow> thread_current k; Some (h = cur) }"

definition lock_acquire :: "ptr \<Rightarrow> kernel \<Rightarrow> kernel option" where
  "lock_acquire l k = do {
     ASSERT (\<not> intr_context k);
     held \<leftarrow> lock_held_by_current_thread l k; ASSERT (\<not> held);
     h \<leftarrow> k_holder k l;
     k \<leftarrow> (if \<not> thread_mlfqs k \<and> h \<noteq> NULL then donate_priority l k else Some k);
     Some (push_frame (Sema_Down (lock_semaphore l) (Ret_Lock l)) k) }"

text \<open>The end of \<^verbatim>\<open>lock_acquire\<close>, after \<^verbatim>\<open>sema_down\<close> has returned.\<close>

definition lock_acquired :: "ptr \<Rightarrow> kernel \<Rightarrow> kernel option" where
  "lock_acquired l k = do {
     cur \<leftarrow> thread_current k;
     upd_thread cur (\<lambda>th. th\<lparr>t_waiting_on := NULL\<rparr>) (set_holder l cur k) }"

definition lock_try_acquire :: "ptr \<Rightarrow> kernel \<Rightarrow> (kernel \<times> bool) option" where
  "lock_try_acquire l k = do {
     held \<leftarrow> lock_held_by_current_thread l k; ASSERT (\<not> held);
     r \<leftarrow> sema_try_down (lock_semaphore l) k;
     let (k, success) = r;
     if success then do { cur \<leftarrow> thread_current k; Some (set_holder l cur k, True) }
     else Some (k, False) }"

definition lock_release :: "ptr \<Rightarrow> kernel \<Rightarrow> kernel option" where
  "lock_release l k = do {
     held \<leftarrow> lock_held_by_current_thread l k; ASSERT held;
     k \<leftarrow> remove_priority l k;
     Some (push_frame (Lock_Up l) (set_holder l NULL k)) }"

subsection \<open>Condition variables\<close>

definition cond_init :: "ptr \<Rightarrow> kernel \<Rightarrow> kernel" where
  "cond_init c k = k\<lparr>k_conds := (k_conds k)(c \<mapsto> [])\<rparr>"

text \<open>\<open>w\<close> is the address of the semaphore on the caller's stack.\<close>

definition cond_wait :: "ptr \<Rightarrow> ptr \<Rightarrow> ptr \<Rightarrow> kernel \<Rightarrow> kernel option" where
  "cond_wait c l w k = do {
     ASSERT (\<not> intr_context k);
     held \<leftarrow> lock_held_by_current_thread l k; ASSERT held;
     let k = sema_init w 0 k;
     ws \<leftarrow> k_conds k c;
     let k = k\<lparr>k_conds := (k_conds k)(c \<mapsto> ws @ [w])\<rparr>;
     Some (push_frame (Lock_Release l) (push_frame (Sema_Down w Ret_Plain) (push_frame (Lock_Acquire l) k))) }"

text \<open>The priority of the first thread in the waiter list of a semaphore; \<^verbatim>\<open>list_front\<close> panics on an empty one.\<close>

definition waiter_prio :: "kernel \<Rightarrow> ptr \<Rightarrow> int option" where
  "waiter_prio k w = (case k_semas k w of
     None \<Rightarrow> None
   | Some sm \<Rightarrow> (case s_waiters sm of [] \<Rightarrow> None | t # _ \<Rightarrow> Some (prio k t)))"

definition thread_semaphore_comparison :: "kernel \<Rightarrow> ptr \<Rightarrow> ptr \<Rightarrow> bool" where
  "thread_semaphore_comparison k a b \<longleftrightarrow> the (waiter_prio k a) > the (waiter_prio k b)"

text \<open>
  The first pass of \<^verbatim>\<open>list_sort\<close> compares every two neighbours, so with two or more waiters the
  comparison function is applied to each of them, and one whose semaphore has no waiting thread
  makes it panic. A single waiter is never compared.
\<close>

definition cond_signal :: "ptr \<Rightarrow> ptr \<Rightarrow> kernel \<Rightarrow> kernel option" where
  "cond_signal c l k = do {
     ASSERT (\<not> intr_context k);
     held \<leftarrow> lock_held_by_current_thread l k; ASSERT held;
     ws \<leftarrow> k_conds k c;
     if ws \<noteq> [] then do {
       ASSERT (length ws \<ge> 2 \<longrightarrow> list_all (\<lambda>w. waiter_prio k w \<noteq> None) ws);
       let ws = ssort (thread_semaphore_comparison k) ws;
       let k = k\<lparr>k_conds := (k_conds k)(c \<mapsto> tl ws)\<rparr>;
       sema_up (hd ws) k }
     else Some k }"

definition cond_broadcast :: "ptr \<Rightarrow> ptr \<Rightarrow> kernel \<Rightarrow> kernel option" where
  "cond_broadcast c l k = do {
     ws \<leftarrow> k_conds k c;
     if ws \<noteq> [] then cond_signal c l (push_frame (Cond_Broadcast c l) k) else Some k }"

end
