(* ===== verification/Timer.thy ===== *)
theory Timer
  imports Synchronization
begin

text \<open>
  The timer of \<^verbatim>\<open>devices/timer.c\<close> and the external part of \<^verbatim>\<open>intr_handler\<close> in
  \<^verbatim>\<open>threads/interrupt.c\<close>. The hardware's only part is that it raises the interrupt.
\<close>

definition TIMER_FREQ :: int where
  "TIMER_FREQ = 100"

definition INT64_MAX :: int where
  "INT64_MAX = 2 ^ 63 - 1"

definition timer_init :: "kernel \<Rightarrow> kernel" where
  "timer_init k = k\<lparr>sleeping_list := [], next_wakeup_tick := INT64_MAX\<rparr>"

definition timer_ticks :: "kernel \<Rightarrow> int" where
  "timer_ticks k = k_ticks k"

definition timer_elapsed :: "int \<Rightarrow> kernel \<Rightarrow> int" where
  "timer_elapsed thn k = s64 (timer_ticks k - thn)"

definition timer_sleep :: "int \<Rightarrow> kernel \<Rightarrow> kernel option" where
  "timer_sleep n k = (if n \<le> 0 then Some k else do {
     ASSERT (intr_get_level k);
     thread_sleep (s64 (timer_ticks k + n)) k })"

text \<open>The wake-up loop of the handler, over the sleeping list from its front.\<close>

fun wake_sleepers :: "ptr list \<Rightarrow> kernel \<Rightarrow> kernel option" where
  "wake_sleepers [] k = Some k"
| "wake_sleepers (t # ts) k = do {
     th \<leftarrow> k_threads k t;
     if k_ticks k \<ge> t_wakeup_tick th then do {
       k \<leftarrow> thread_unblock t (k\<lparr>sleeping_list := ts\<rparr>);
       wake_sleepers ts k }
     else Some k }"

definition timer_interrupt :: "kernel \<Rightarrow> kernel option" where
  "timer_interrupt k = do {
     let k = k\<lparr>k_ticks := s64 (k_ticks k + 1)\<rparr>;
     k \<leftarrow> thread_tick k;
     k \<leftarrow> (if k_ticks k \<ge> next_wakeup_tick k then do {
             k \<leftarrow> wake_sleepers (sleeping_list k) k;
             if sleeping_list k \<noteq> [] then do {
               th \<leftarrow> k_threads k (hd (sleeping_list k));
               Some (k\<lparr>next_wakeup_tick := t_wakeup_tick th\<rparr>) }
             else Some (k\<lparr>next_wakeup_tick := INT64_MAX\<rparr>) }
           else Some k);
     if thread_mlfqs k \<and> k_ticks k smod TIMER_FREQ = 0 then do {
       k \<leftarrow> mlfqs_update_load_avg_and_recent_cpu_all k;
       mlfqs_recompute_priority_all k }
     else Some k }"

text \<open>
  \<^verbatim>\<open>intr_handler\<close> for the timer's vector. The processor has switched interrupts off on entry and the
  final \<^verbatim>\<open>iret\<close> switches them on again.
\<close>

definition intr_handler_timer :: "kernel \<Rightarrow> kernel option" where
  "intr_handler_timer k = do {
     let k = push_frame Iret (k\<lparr>intr_on := False\<rparr>);
     ASSERT (\<not> intr_context k);
     let k = k\<lparr>in_external_intr := True, yield_on_return := False\<rparr>;
     k \<leftarrow> timer_interrupt k;
     ASSERT (\<not> intr_on k);
     ASSERT (intr_context k);
     let k = k\<lparr>in_external_intr := False\<rparr>;
     if yield_on_return k then thread_yield k else Some k }"

subsection \<open>Delays\<close>

text \<open>
  \<^verbatim>\<open>real_time_sleep\<close> sleeps for the number of ticks it computes; if that is not positive it calls
  \<^verbatim>\<open>real_time_delay\<close>, a busy-wait loop that changes nothing.
\<close>

definition real_time_ticks :: "int \<Rightarrow> int \<Rightarrow> int" where
  "real_time_ticks num denom = s64 (s64 (num * TIMER_FREQ) sdiv denom)"

definition real_time_sleep :: "int \<Rightarrow> int \<Rightarrow> kernel \<Rightarrow> kernel option" where
  "real_time_sleep num denom k = do {
     let ticks = real_time_ticks num denom;
     ASSERT (intr_get_level k);
     if ticks > 0 then timer_sleep ticks k else Some k }"

definition timer_msleep :: "int \<Rightarrow> kernel \<Rightarrow> kernel option" where
  "timer_msleep ms k = real_time_sleep ms 1000 k"

definition timer_usleep :: "int \<Rightarrow> kernel \<Rightarrow> kernel option" where
  "timer_usleep us k = real_time_sleep us 1000000 k"

definition timer_nsleep :: "int \<Rightarrow> kernel \<Rightarrow> kernel option" where
  "timer_nsleep ns k = real_time_sleep ns 1000000000 k"

end
