(* ===== verification/Scheduler_Invariant.thy ===== *)
theory Scheduler_Invariant
  imports Timer
begin

text \<open>
  The kernel as a transition system and its invariants. A step is a call of a kernel function by the
  running thread, the execution of the running thread's topmost frame, or a timer interrupt while
  interrupts are on. Two invariants hold in every reachable state: the scheduler's lists and the
  threads' states agree (\<open>sched_wf\<close>), and for every lock exactly one of its semaphore, its holder and
  the threads inside \<^verbatim>\<open>lock_acquire\<close> or \<^verbatim>\<open>lock_release\<close> has the lock (\<open>locks_ok\<close>).
\<close>

subsection \<open>The scheduler's invariant\<close>

text \<open>
  \<open>E\<close> is the set of blocked threads that no list holds for the moment: a thread between its removal
  from a waiter list and its insertion into the ready list.
\<close>

definition sleep_frame :: "frame list \<Rightarrow> bool" where
  "sleep_frame fs \<longleftrightarrow> (\<exists>b r. fs = Set_Level b # r)"

definition wait_frame :: "ptr \<Rightarrow> frame list \<Rightarrow> bool" where
  "wait_frame s fs \<longleftrightarrow> (\<exists>b ret r. fs = Sema_Down_Loop s b ret # r)"

definition ready_ok :: "(ptr \<rightharpoonup> thread_status) \<Rightarrow> ptr \<Rightarrow> ptr list \<Rightarrow> bool" where
  "ready_ok st idle rl \<longleftrightarrow> distinct rl \<and> (\<forall>t. t \<in> set rl \<longleftrightarrow> st t = Some THREAD_READY \<and> t \<noteq> idle)"

definition sleep_ok :: "ptr set \<Rightarrow> (ptr \<rightharpoonup> thread_status) \<Rightarrow> ptr \<Rightarrow> ptr list \<Rightarrow> (ptr \<Rightarrow> frame list) \<Rightarrow> bool" where
  "sleep_ok E st idle sl fr \<longleftrightarrow> distinct sl \<and>
     (\<forall>t\<in>set sl. st t = Some THREAD_BLOCKED \<and> t \<noteq> idle \<and> t \<notin> E \<and> sleep_frame (fr t))"

definition wait_ok :: "ptr set \<Rightarrow> (ptr \<rightharpoonup> thread_status) \<Rightarrow> ptr \<Rightarrow> (ptr \<rightharpoonup> semaphore) \<Rightarrow> (ptr \<Rightarrow> frame list) \<Rightarrow> bool" where
  "wait_ok E st idle sem fr \<longleftrightarrow> (\<forall>s sm. sem s = Some sm \<longrightarrow> distinct (s_waiters sm) \<and>
     (\<forall>t\<in>set (s_waiters sm). st t = Some THREAD_BLOCKED \<and> t \<noteq> idle \<and> t \<notin> E \<and> wait_frame s (fr t)))"

definition waits_on :: "(ptr \<rightharpoonup> semaphore) \<Rightarrow> ptr \<Rightarrow> ptr \<Rightarrow> bool" where
  "waits_on sem s t \<longleftrightarrow> (case sem s of Some sm \<Rightarrow> t \<in> set (s_waiters sm) | None \<Rightarrow> False)"

definition none_lost :: "ptr set \<Rightarrow> (ptr \<rightharpoonup> thread_status) \<Rightarrow> ptr \<Rightarrow> ptr list \<Rightarrow> (ptr \<rightharpoonup> semaphore) \<Rightarrow> bool" where
  "none_lost E st idle sl sem \<longleftrightarrow>
     (\<forall>t. st t = Some THREAD_BLOCKED \<longrightarrow> t = idle \<or> t \<in> E \<or> t \<in> set sl \<or> (\<exists>s. waits_on sem s t))"

definition threads_ok :: "(ptr \<rightharpoonup> thread_status) \<Rightarrow> ptr \<Rightarrow> (ptr \<Rightarrow> frame list) \<Rightarrow> bool" where
  "threads_ok st idle fr \<longleftrightarrow>
     st idle \<noteq> None \<and> st idle \<noteq> Some THREAD_DYING \<and> st NULL = None \<and> (\<forall>t. st t = None \<longrightarrow> fr t = [])"

definition lists_ok :: "ptr set \<Rightarrow> (ptr \<rightharpoonup> thread_status) \<Rightarrow> ptr \<Rightarrow> ptr list \<Rightarrow> ptr list \<Rightarrow>
    (ptr \<rightharpoonup> semaphore) \<Rightarrow> (ptr \<Rightarrow> frame list) \<Rightarrow> bool" where
  "lists_ok E st idle rl sl sem fr \<longleftrightarrow> ready_ok st idle rl \<and> sleep_ok E st idle sl fr \<and>
     wait_ok E st idle sem fr \<and> none_lost E st idle sl sem \<and> threads_ok st idle fr"

abbreviation klists_ok :: "ptr set \<Rightarrow> kernel \<Rightarrow> bool" where
  "klists_ok E k \<equiv> lists_ok E (status_of k) (idle_thread k) (ready_list k) (sleeping_list k) (k_semas k) (k_frames k)"

definition sched_wf :: "kernel \<Rightarrow> bool" where
  "sched_wf k \<longleftrightarrow> klists_ok {} k \<and> \<not> in_external_intr k \<and> (\<forall>t. status_of k t = Some THREAD_RUNNING \<longleftrightarrow> t = running k)"

text \<open>At the entry of \<^verbatim>\<open>schedule\<close> no thread is marked as running.\<close>

definition pre_sched :: "kernel \<Rightarrow> bool" where
  "pre_sched k \<longleftrightarrow> klists_ok {} k \<and> \<not> in_external_intr k \<and> \<not> intr_on k \<and> status_of k (running k) \<noteq> None \<and>
     (\<forall>t. status_of k t \<noteq> Some THREAD_RUNNING) \<and>
     (status_of k (running k) = Some THREAD_DYING \<longrightarrow> k_frames k (running k) = [])"

subsubsection \<open>Updates of single threads\<close>

lemma upd_thread_eq:
  "upd_thread t f k = (if status_of k t = None then None
     else Some (k\<lparr>k_threads := (k_threads k)(t \<mapsto> f (the (k_threads k t)))\<rparr>))"
  by (auto simp: upd_thread_def status_of_def split: option.splits)

lemma status_of_simps [simp]:
  "status_of (k\<lparr>k_threads := (k_threads k)(t \<mapsto> th)\<rparr>) = (status_of k)(t \<mapsto> t_status th)"
  "status_of (k\<lparr>k_threads := (k_threads k)(t := None)\<rparr>) = (status_of k)(t := None)"
  "status_of (k\<lparr>ready_list := rl\<rparr>) = status_of k"
  "status_of (k\<lparr>sleeping_list := sl\<rparr>) = status_of k"
  "status_of (k\<lparr>all_list := al\<rparr>) = status_of k"
  "status_of (k\<lparr>running := r\<rparr>) = status_of k"
  "status_of (k\<lparr>thread_ticks := n\<rparr>) = status_of k"
  "status_of (k\<lparr>intr_on := b\<rparr>) = status_of k"
  "status_of (k\<lparr>in_external_intr := b\<rparr>) = status_of k"
  "status_of (k\<lparr>yield_on_return := b\<rparr>) = status_of k"
  "status_of (k\<lparr>k_frames := fr\<rparr>) = status_of k"
  "status_of (k\<lparr>k_semas := sem\<rparr>) = status_of k"
  "status_of (k\<lparr>k_holder := ho\<rparr>) = status_of k"
  "status_of (k\<lparr>k_conds := cs\<rparr>) = status_of k"
  "status_of (k\<lparr>k_ticks := n'\<rparr>) = status_of k"
  "status_of (k\<lparr>next_wakeup_tick := n'\<rparr>) = status_of k"
  "status_of (k\<lparr>next_tid := n'\<rparr>) = status_of k"
  "status_of (k\<lparr>load_avg := n'\<rparr>) = status_of k"
  "status_of (k\<lparr>idle_ticks := n'\<rparr>) = status_of k"
  "status_of (k\<lparr>kernel_ticks := n'\<rparr>) = status_of k"
  "status_of (k\<lparr>user_ticks := n'\<rparr>) = status_of k"
  by (auto simp: status_of_def fun_eq_iff)

lemma status_same:
  "k_threads k t = Some th \<Longrightarrow> t_status th' = t_status th \<Longrightarrow> (status_of k)(t \<mapsto> t_status th') = status_of k"
  by (auto simp: status_of_def fun_eq_iff)

lemma status_None: "status_of k t = None \<longleftrightarrow> k_threads k t = None"
  by (simp add: status_of_def)

lemma set_insert_ordered [simp]: "set (insert_ordered lf x xs) = insert x (set xs)"
  by (induction xs) auto

lemma distinct_insert_ordered [simp]: "distinct (insert_ordered lf x xs) \<longleftrightarrow> x \<notin> set xs \<and> distinct xs"
  by (induction xs) auto

lemma distinct_ssort [simp]: "distinct (ssort lf xs) \<longleftrightarrow> distinct xs"
  using mset_ssort [of lf xs] mset_eq_imp_distinct_iff by blast

lemma ssort_Nil_iff [simp]: "ssort lf xs = [] \<longleftrightarrow> xs = []"
  by (metis length_0_conv length_ssort)

subsubsection \<open>Moves between the lists\<close>

text \<open>One lemma per way in which a thread changes its state and its list.\<close>

lemmas lists_defs = ready_ok_def sleep_ok_def wait_ok_def none_lost_def threads_ok_def

lemma lists_ok_nonnull: "lists_ok E st idle rl sl sem fr \<Longrightarrow> st t \<noteq> None \<Longrightarrow> t \<noteq> NULL"
  unfolding lists_ok_def threads_ok_def by metis

lemma waits_on_upd:
  "waits_on (sem(s \<mapsto> sm)) s' t \<longleftrightarrow> (if s' = s then t \<in> set (s_waiters sm) else waits_on sem s' t)"
  by (simp add: waits_on_def)

lemma lists_ok_elsewhere:
  assumes "lists_ok E st idle rl sl sem fr" "st t \<noteq> Some THREAD_BLOCKED \<or> t \<in> E \<or> t = idle"
  shows "t \<notin> set sl" "sem s = Some sm \<Longrightarrow> t \<notin> set (s_waiters sm)"
  using assms unfolding lists_ok_def lists_defs by blast+

text \<open>The next thread, or the idle thread, starts to run.\<close>

lemma lists_ok_run_next:
  assumes l: "lists_ok E st idle (t # ts) sl sem fr"
  shows "lists_ok E (st(t \<mapsto> THREAD_RUNNING)) idle ts sl sem fr"
proof -
  have t: "st t = Some THREAD_READY" "t \<noteq> idle" "t \<notin> set ts" "t \<noteq> NULL"
    using l lists_ok_nonnull [OF l, of t] by (auto simp: lists_ok_def ready_ok_def)
  have e: "t \<notin> set sl" "\<And>s sm. sem s = Some sm \<Longrightarrow> t \<notin> set (s_waiters sm)"
    using lists_ok_elsewhere [OF l, of t] t by auto
  show ?thesis
    using l t e by (auto simp: lists_ok_def lists_defs)
qed

lemma lists_ok_idle:
  assumes l: "lists_ok E st idle rl sl sem fr" and x: "x \<noteq> THREAD_DYING"
  shows "lists_ok E (st(idle \<mapsto> x)) idle rl sl sem fr"
proof -
  have e: "idle \<notin> set sl" "\<And>s sm. sem s = Some sm \<Longrightarrow> idle \<notin> set (s_waiters sm)"
    using lists_ok_elsewhere [OF l, of idle] by auto
  show ?thesis
    using l x e lists_ok_nonnull [OF l, of idle] by (auto simp: lists_ok_def lists_defs)
qed

text \<open>The running thread \<open>c\<close> becomes ready, sleeps, waits or dies; a dead thread is freed.\<close>

lemma lists_ok_yield:
  assumes l: "lists_ok E st idle rl sl sem fr" and c: "st c = Some THREAD_RUNNING" "c \<noteq> idle"
  shows "lists_ok E (st(c \<mapsto> THREAD_READY)) idle (insert_ordered lf c rl) sl sem fr"
proof -
  have e: "c \<notin> set sl" "c \<notin> set rl" "c \<noteq> NULL" "\<And>s sm. sem s = Some sm \<Longrightarrow> c \<notin> set (s_waiters sm)"
    using lists_ok_elsewhere [OF l, of c] c l lists_ok_nonnull [OF l, of c] by (auto simp: lists_ok_def ready_ok_def)
  show ?thesis using l c e by (auto simp: lists_ok_def lists_defs)
qed

lemma lists_ok_sleep:
  assumes l: "lists_ok E st idle rl sl sem fr" and c: "st c = Some THREAD_RUNNING" "c \<noteq> idle" "c \<notin> E"
  shows "lists_ok E (st(c \<mapsto> THREAD_BLOCKED)) idle rl (insert_ordered lf c sl) sem (fr(c := Set_Level b # fs))"
proof -
  have e: "c \<notin> set sl" "c \<notin> set rl" "c \<noteq> NULL" "\<And>s sm. sem s = Some sm \<Longrightarrow> c \<notin> set (s_waiters sm)"
    using lists_ok_elsewhere [OF l, of c] c l lists_ok_nonnull [OF l, of c] by (auto simp: lists_ok_def ready_ok_def)
  show ?thesis using l c e by (auto simp: lists_ok_def lists_defs sleep_frame_def)
qed

lemma lists_ok_wait:
  assumes l: "lists_ok E st idle rl sl sem fr" and c: "st c = Some THREAD_RUNNING" "c \<noteq> idle" "c \<notin> E"
    and s: "sem s = Some sm"
  shows "lists_ok E (st(c \<mapsto> THREAD_BLOCKED)) idle rl sl
    (sem(s \<mapsto> sm\<lparr>s_waiters := insert_ordered lf c (s_waiters sm)\<rparr>)) (fr(c := Sema_Down_Loop s b ret # fs))"
proof -
  have e: "c \<notin> set sl" "c \<notin> set rl" "c \<noteq> NULL" "\<And>s sm. sem s = Some sm \<Longrightarrow> c \<notin> set (s_waiters sm)"
    using lists_ok_elsewhere [OF l, of c] c l lists_ok_nonnull [OF l, of c] by (auto simp: lists_ok_def ready_ok_def)
  have "none_lost E (st(c \<mapsto> THREAD_BLOCKED)) idle sl (sem(s \<mapsto> sm\<lparr>s_waiters := insert_ordered lf c (s_waiters sm)\<rparr>))"
  proof -
    have "\<exists>s'. waits_on (sem(s \<mapsto> sm\<lparr>s_waiters := insert_ordered lf c (s_waiters sm)\<rparr>)) s' t"
      if "waits_on sem s' t \<or> t = c" for s' t
      using that s by (cases "t = c"; cases "s' = s") (auto simp: waits_on_def)
    then show ?thesis using l unfolding lists_ok_def none_lost_def by (metis fun_upd_apply)
  qed
  moreover have "wait_ok E (st(c \<mapsto> THREAD_BLOCKED)) idle
      (sem(s \<mapsto> sm\<lparr>s_waiters := insert_ordered lf c (s_waiters sm)\<rparr>)) (fr(c := Sema_Down_Loop s b ret # fs))"
    using l c e s by (auto simp: lists_ok_def wait_ok_def wait_frame_def)
  ultimately show ?thesis using l c e by (auto simp: lists_ok_def ready_ok_def sleep_ok_def threads_ok_def)
qed

lemma lists_ok_die:
  assumes l: "lists_ok E st idle rl sl sem fr" and c: "st c = Some THREAD_RUNNING" "c \<noteq> idle"
  shows "lists_ok E (st(c \<mapsto> THREAD_DYING)) idle rl sl sem fr"
proof -
  have e: "c \<notin> set sl" "c \<notin> set rl" "c \<noteq> NULL" "\<And>s sm. sem s = Some sm \<Longrightarrow> c \<notin> set (s_waiters sm)"
    using lists_ok_elsewhere [OF l, of c] c l lists_ok_nonnull [OF l, of c] by (auto simp: lists_ok_def ready_ok_def)
  show ?thesis using l c e by (auto simp: lists_ok_def lists_defs)
qed

lemma lists_ok_free:
  assumes l: "lists_ok E st idle rl sl sem fr" and c: "st c = Some THREAD_DYING" "fr c = []"
  shows "lists_ok E (st(c := None)) idle rl sl sem fr"
proof -
  have e: "c \<notin> set sl" "c \<notin> set rl" "c \<noteq> NULL" "\<And>s sm. sem s = Some sm \<Longrightarrow> c \<notin> set (s_waiters sm)"
    using lists_ok_elsewhere [OF l, of c] c l lists_ok_nonnull [OF l, of c] by (auto simp: lists_ok_def ready_ok_def)
  show ?thesis using l c e by (auto simp: lists_ok_def lists_defs)
qed

text \<open>A thread is taken from a waiter list or from the front of the sleeping list, and unblocked.\<close>

lemma lists_ok_take_waiter:
  assumes l: "lists_ok E st idle rl sl sem fr" and s: "sem s = Some sm" "t \<in> set (s_waiters sm)"
    and ws: "distinct ws" "set ws = set (s_waiters sm) - {t}"
  shows "lists_ok (insert t E) st idle rl sl (sem(s \<mapsto> sm\<lparr>s_waiters := ws\<rparr>)) fr \<and>
    st t = Some THREAD_BLOCKED \<and> t \<noteq> idle \<and> t \<notin> E"
proof -
  have w: "st t = Some THREAD_BLOCKED" "t \<noteq> idle" "t \<notin> E" "wait_frame s (fr t)"
    using l s unfolding lists_ok_def wait_ok_def by blast+
  have o: "t \<notin> set (s_waiters sm')" if "sem s' = Some sm'" "s' \<noteq> s" for s' sm'
    using l that w(4) unfolding lists_ok_def wait_ok_def wait_frame_def by fastforce
  have "t \<notin> set sl" using l w(4) unfolding lists_ok_def sleep_ok_def wait_frame_def sleep_frame_def by fastforce
  moreover have "\<exists>s''. waits_on (sem(s \<mapsto> sm\<lparr>s_waiters := ws\<rparr>)) s'' t'" if "waits_on sem s' t'" "t' \<noteq> t" for s' t'
    using that s ws by (cases "s' = s") (auto simp: waits_on_def)
  then have "none_lost (insert t E) st idle sl (sem(s \<mapsto> sm\<lparr>s_waiters := ws\<rparr>))"
    using l unfolding lists_ok_def none_lost_def by blast
  moreover have "wait_ok (insert t E) st idle (sem(s \<mapsto> sm\<lparr>s_waiters := ws\<rparr>)) fr"
    using l s ws o by (auto simp: lists_ok_def wait_ok_def)
  ultimately show ?thesis using l w by (auto simp: lists_ok_def sleep_ok_def)
qed

lemma lists_ok_take_sleeper:
  assumes l: "lists_ok E st idle rl (t # ts) sem fr"
  shows "lists_ok (insert t E) st idle rl ts sem fr \<and> st t = Some THREAD_BLOCKED \<and> t \<noteq> idle \<and> t \<notin> E"
proof -
  have w: "st t = Some THREAD_BLOCKED" "t \<noteq> idle" "t \<notin> E" "sleep_frame (fr t)" "t \<notin> set ts"
    using l unfolding lists_ok_def sleep_ok_def by auto
  have o: "t \<notin> set (s_waiters sm')" if "sem s' = Some sm'" for s' sm'
    using l that w(4) unfolding lists_ok_def wait_ok_def wait_frame_def sleep_frame_def by fastforce
  show ?thesis using l w o by (auto simp: lists_ok_def sleep_ok_def none_lost_def wait_ok_def)
qed

lemma lists_ok_unblock:
  assumes l: "lists_ok (insert t E) st idle rl sl sem fr" and t: "st t = Some THREAD_BLOCKED" "t \<noteq> idle" "t \<notin> E"
  shows "lists_ok E (st(t \<mapsto> THREAD_READY)) idle (insert_ordered lf t rl) sl sem fr"
proof -
  have e: "t \<notin> set sl" "t \<notin> set rl" "t \<noteq> NULL" "\<And>s sm. sem s = Some sm \<Longrightarrow> t \<notin> set (s_waiters sm)"
    using lists_ok_elsewhere [OF l, of t] t l lists_ok_nonnull [OF l, of t] by (auto simp: lists_ok_def ready_ok_def)
  show ?thesis using l t e by (auto simp: lists_ok_def lists_defs)
qed

text \<open>Changes that move no thread.\<close>

lemma lists_ok_frames:
  assumes l: "lists_ok E st idle rl sl sem fr" and c: "st c = Some THREAD_RUNNING"
  shows "lists_ok E st idle rl sl sem (fr(c := fs))"
proof -
  have "c \<notin> set sl" "\<And>s sm. sem s = Some sm \<Longrightarrow> c \<notin> set (s_waiters sm)"
    using lists_ok_elsewhere [OF l, of c] c by auto
  then show ?thesis using l c by (auto simp: lists_ok_def lists_defs)
qed

lemma lists_ok_sema_value:
  assumes l: "lists_ok E st idle rl sl sem fr" and s: "sem s = Some sm" "s_waiters sm' = s_waiters sm"
  shows "lists_ok E st idle rl sl (sem(s \<mapsto> sm')) fr"
proof -
  have "waits_on (sem(s \<mapsto> sm')) = waits_on sem"
    using s by (auto simp: waits_on_def fun_eq_iff)
  then show ?thesis using l s by (auto simp: lists_ok_def lists_defs)
qed

lemma lists_ok_sema_init:
  assumes l: "lists_ok E st idle rl sl sem fr" and s: "\<And>sm. sem s = Some sm \<Longrightarrow> s_waiters sm = []"
  shows "lists_ok E st idle rl sl (sem(s \<mapsto> \<lparr>s_value = v, s_waiters = []\<rparr>)) fr"
proof -
  have "waits_on (sem(s \<mapsto> \<lparr>s_value = v, s_waiters = []\<rparr>)) = waits_on sem"
    using s by (auto simp: waits_on_def fun_eq_iff split: option.splits)
  then show ?thesis using l by (auto simp: lists_ok_def lists_defs)
qed

lemma lists_ok_new_thread:
  assumes l: "lists_ok E st idle rl sl sem fr" and p: "st p = None" "p \<noteq> NULL"
  shows "lists_ok (insert p E) (st(p \<mapsto> THREAD_BLOCKED)) idle rl sl sem (fr(p := fs))"
proof -
  have "p \<notin> set rl" "p \<noteq> idle" using l p by (auto simp: lists_ok_def lists_defs)
  moreover have "p \<notin> set sl" "\<And>s sm. sem s = Some sm \<Longrightarrow> p \<notin> set (s_waiters sm)"
    using lists_ok_elsewhere [OF l, of p] p by auto
  ultimately show ?thesis using l p by (auto simp: lists_ok_def lists_defs)
qed

lemma lists_ok_resort:
  "lists_ok E st idle rl sl sem fr \<Longrightarrow> distinct rl' \<Longrightarrow> set rl' = set rl \<Longrightarrow> lists_ok E st idle rl' sl sem fr"
  by (simp add: lists_ok_def ready_ok_def)

subsection \<open>The scheduler's functions keep the invariant\<close>

text \<open>What switching threads leaves alone.\<close>

definition same_sync :: "kernel \<Rightarrow> kernel \<Rightarrow> bool" where
  "same_sync k k' \<longleftrightarrow> k_semas k' = k_semas k \<and> k_holder k' = k_holder k \<and> k_conds k' = k_conds k \<and>
     idle_thread k' = idle_thread k \<and> initial_thread k' = initial_thread k \<and> thread_mlfqs k' = thread_mlfqs k"

lemma same_sync_refl [simp]: "same_sync k k"
  by (simp add: same_sync_def)

lemma same_sync_trans: "same_sync k k' \<Longrightarrow> same_sync k' k'' \<Longrightarrow> same_sync k k''"
  by (simp add: same_sync_def)

lemma thread_schedule_tail_eq:
  assumes "status_of k (running k) \<noteq> None" "\<not> intr_on k"
    "k2 = k\<lparr>k_threads := (k_threads k)(running k \<mapsto> (the (k_threads k (running k)))\<lparr>t_status := THREAD_RUNNING\<rparr>),
       thread_ticks := 0\<rparr>"
  shows "thread_schedule_tail prev k =
    (if prev \<noteq> NULL \<and> status_of k2 prev = Some THREAD_DYING \<and> prev \<noteq> initial_thread k
     then (if prev \<noteq> running k then Some (k2\<lparr>k_threads := (k_threads k2)(prev := None)\<rparr>) else None) else Some k2)"
  using assms by (auto simp: thread_schedule_tail_def set_status_def upd_thread_eq Let_def)

lemma schedule_eq:
  assumes "next_thread_to_run k = (k1, nxt)" "\<not> intr_on k1" "status_of k1 (running k) \<noteq> Some THREAD_RUNNING"
    "is_thread k1 nxt"
  shows "schedule k = (if running k \<noteq> nxt then thread_schedule_tail (running k) (k1\<lparr>running := nxt\<rparr>)
     else thread_schedule_tail NULL k1)"
  using assms by (simp add: schedule_def Let_def)

lemma schedule_wf:
  assumes p: "pre_sched k"
  shows "\<exists>k'. schedule k = Some k' \<and> sched_wf k' \<and> same_sync k k' \<and> k_frames k' = k_frames k \<and> \<not> intr_on k' \<and>
     running k' = (case ready_list k of [] \<Rightarrow> idle_thread k | t # ts \<Rightarrow> t)"
proof -
  obtain k1 nxt where n: "next_thread_to_run k = (k1, nxt)" by fastforce
  have l: "klists_ok {} k" using p by (simp add: pre_sched_def)
  have k1: "status_of k1 = status_of k" "k_threads k1 = k_threads k" "same_sync k k1" "running k1 = running k"
    "sleeping_list k1 = sleeping_list k" "k_frames k1 = k_frames k" "intr_on k1 = intr_on k"
    "in_external_intr k1 = in_external_intr k"
    and nx: "nxt = (case ready_list k of [] \<Rightarrow> idle_thread k | t # ts \<Rightarrow> t)"
    using n by (auto simp: next_thread_to_run_def same_sync_def split: list.splits)
  have nn: "status_of k nxt \<noteq> None"
    using l nx by (auto simp: lists_ok_def lists_defs split: list.splits)
  have idle: "idle_thread k1 = idle_thread k" "initial_thread k1 = initial_thread k" using k1(3) by (auto simp: same_sync_def)
  have l1: "lists_ok {} ((status_of k)(nxt \<mapsto> THREAD_RUNNING)) (idle_thread k) (ready_list k1) (sleeping_list k)
      (k_semas k) (k_frames k)"
    using n l lists_ok_run_next [of "{}" "status_of k" "idle_thread k"] lists_ok_idle [OF l, of THREAD_RUNNING] nx
    by (auto simp: next_thread_to_run_def split: list.splits)
  let ?cur = "running k"
  let ?th = "(the (k_threads k nxt))\<lparr>t_status := THREAD_RUNNING\<rparr>"
  define k2 where "k2 = k1\<lparr>running := nxt, k_threads := (k_threads k)(nxt \<mapsto> ?th), thread_ticks := 0\<rparr>"
  have k2: "status_of k2 = (status_of k)(nxt \<mapsto> THREAD_RUNNING)" "running k2 = nxt" "ready_list k2 = ready_list k1"
    "sleeping_list k2 = sleeping_list k" "k_frames k2 = k_frames k" "same_sync k k2" "\<not> intr_on k2"
    "\<not> in_external_intr k2" "k_threads k2 = (k_threads k)(nxt \<mapsto> ?th)"
    using k1 p by (auto simp: k2_def same_sync_def pre_sched_def status_of_def)
  have w2: "sched_wf k2"
    using l1 k1 k2 p by (auto simp: sched_wf_def same_sync_def pre_sched_def)
  have nnull: "nxt \<noteq> NULL" using lists_ok_nonnull [OF l nn] .
  have "schedule k = (if ?cur \<noteq> nxt then thread_schedule_tail ?cur (k1\<lparr>running := nxt\<rparr>)
      else thread_schedule_tail NULL (k1\<lparr>running := nxt\<rparr>))"
  proof -
    have "is_thread k1 nxt" using nn nnull k1(2) by (auto simp: is_thread_def status_None)
    then have "schedule k = (if ?cur \<noteq> nxt then thread_schedule_tail ?cur (k1\<lparr>running := nxt\<rparr>)
        else thread_schedule_tail NULL k1)"
      using schedule_eq [OF n] k1 p by (simp add: pre_sched_def)
    moreover have "k1\<lparr>running := nxt\<rparr> = k1" if "?cur = nxt" using k1(4) that by (cases k1) simp
    ultimately show ?thesis by (cases "?cur = nxt") (simp_all only: if_True if_False simp_thms)
  qed
  moreover have "thread_schedule_tail q (k1\<lparr>running := nxt\<rparr>) =
      (if q \<noteq> NULL \<and> status_of k2 q = Some THREAD_DYING \<and> q \<noteq> initial_thread k
       then (if q \<noteq> nxt then Some (k2\<lparr>k_threads := (k_threads k2)(q := None)\<rparr>) else None) else Some k2)" for q
    using nn p k1 idle by (subst thread_schedule_tail_eq [of _ k2]) (simp_all add: pre_sched_def k2_def)
  moreover have "?cur \<noteq> NULL" using lists_ok_nonnull [OF l, of ?cur] p by (simp add: pre_sched_def)
  ultimately have sch: "schedule k = (if ?cur \<noteq> nxt \<and> status_of k ?cur = Some THREAD_DYING \<and> ?cur \<noteq> initial_thread k
      then Some (k2\<lparr>k_threads := (k_threads k2)(?cur := None)\<rparr>) else Some k2)"
    by (simp add: k2(1))
  show ?thesis
  proof (cases "?cur \<noteq> nxt \<and> status_of k ?cur = Some THREAD_DYING \<and> ?cur \<noteq> initial_thread k")
    case True
    let ?k3 = "k2\<lparr>k_threads := (k_threads k2)(?cur := None)\<rparr>"
    have "klists_ok {} k2" using w2 by (simp add: sched_wf_def)
    then have "lists_ok {} ((status_of k2)(?cur := None)) (idle_thread k2) (ready_list k2) (sleeping_list k2)
        (k_semas k2) (k_frames k2)"
      using True p by (intro lists_ok_free) (auto simp: k2 pre_sched_def)
    moreover have st3: "status_of ?k3 = (status_of k2)(?cur := None)" by simp
    ultimately have "klists_ok {} ?k3" unfolding st3 by simp
    moreover have "status_of ?k3 t = Some THREAD_RUNNING \<longleftrightarrow> t = running ?k3" for t
      using w2 True unfolding st3 sched_wf_def by (simp add: k2(2))
    ultimately have "sched_wf ?k3" using w2 unfolding sched_wf_def by simp
    then show ?thesis using sch True k2 nx by (auto simp: same_sync_def)
  qed (use sch w2 k2 nx in auto)
qed

lemma sched_wf_facts:
  assumes "sched_wf k"
  shows "status_of k (running k) = Some THREAD_RUNNING" "running k \<noteq> NULL" "thread_current k = Some (running k)"
    "\<not> in_external_intr k" "is_thread k (running k)"
proof -
  show s: "status_of k (running k) = Some THREAD_RUNNING" and "\<not> in_external_intr k"
    using assms by (auto simp: sched_wf_def)
  show n: "running k \<noteq> NULL"
    using assms s lists_ok_nonnull [of "{}" "status_of k" "idle_thread k"] unfolding sched_wf_def by (metis option.distinct(1))
  show "is_thread k (running k)" using s n by (auto simp: is_thread_def status_of_def)
  then show "thread_current k = Some (running k)" using s by (simp add: thread_current_def)
qed

lemma sched_wf_intr [simp]: "sched_wf (k\<lparr>intr_on := b\<rparr>) = sched_wf k"
  by (simp add: sched_wf_def)

lemma prio_simps [simp]:
  "prio (k\<lparr>intr_on := b\<rparr>) = prio k" "prio (k\<lparr>ready_list := rl\<rparr>) = prio k" "prio (k\<lparr>k_semas := sem\<rparr>) = prio k"
  by (auto simp: prio_def fun_eq_iff)

text \<open>Changing the status of the running thread and calling \<^verbatim>\<open>schedule\<close>.\<close>

lemma set_status_running:
  assumes "sched_wf k0" "k_threads k = k_threads k0"
  shows "\<exists>k'. set_status (running k0) x k = Some k' \<and>
     status_of k' = (status_of k0)(running k0 \<mapsto> x) \<and> running k' = running k \<and> ready_list k' = ready_list k \<and>
     sleeping_list k' = sleeping_list k \<and> k_frames k' = k_frames k \<and> same_sync k k' \<and> intr_on k' = intr_on k \<and>
     in_external_intr k' = in_external_intr k"
  using sched_wf_facts(1) [OF assms(1)] assms(2)
  by (auto simp: set_status_def upd_thread_def status_of_def same_sync_def fun_eq_iff split: option.splits)

lemma thread_yield_wf:
  assumes w: "sched_wf k"
  shows "\<exists>k'. thread_yield k = Some k' \<and> sched_wf k' \<and> same_sync k k' \<and>
     k_frames k' = (k_frames k)(running k := Set_Level (intr_on k) # k_frames k (running k)) \<and> \<not> intr_on k'"
proof -
  let ?c = "running k"
  note f = sched_wf_facts [OF w]
  define rl where "rl = (if ?c \<noteq> idle_thread k then insert_ordered (thread_priority_comparison (intr_disable k)) ?c (ready_list k)
      else ready_list k)"
  let ?k1 = "(intr_disable k)\<lparr>ready_list := rl\<rparr>"
  obtain k2 where k2: "set_status ?c THREAD_READY ?k1 = Some k2" "status_of k2 = (status_of k)(?c \<mapsto> THREAD_READY)"
    "running k2 = ?c" "ready_list k2 = rl" "sleeping_list k2 = sleeping_list k" "k_frames k2 = k_frames k"
    "same_sync k k2" "\<not> intr_on k2" "\<not> in_external_intr k2"
    using set_status_running [OF w, of ?k1 THREAD_READY] f(4) by (auto simp: intr_disable_def same_sync_def)
  let ?k3 = "push_frame (Set_Level (intr_on k)) k2"
  have "klists_ok {} k" using w by (simp add: sched_wf_def)
  then have l: "lists_ok {} ((status_of k)(?c \<mapsto> THREAD_READY)) (idle_thread k) rl (sleeping_list k) (k_semas k)
      ((k_frames k)(?c := Set_Level (intr_on k) # k_frames k ?c))"
    using lists_ok_yield [OF lists_ok_frames, of "{}" "status_of k"] lists_ok_idle [OF lists_ok_frames, of "{}" "status_of k"] f(1)
    by (auto simp: rl_def)
  have p: "pre_sched ?k3"
    using l k2 w by (auto simp: pre_sched_def push_frame_def same_sync_def sched_wf_def)
  obtain k' where k': "schedule ?k3 = Some k'" "sched_wf k'" "same_sync ?k3 k'" "k_frames k' = k_frames ?k3" "\<not> intr_on k'"
    using schedule_wf [OF p] by blast
  have "(if ?c \<noteq> idle_thread (intr_disable k) then (intr_disable k)\<lparr>ready_list :=
      insert_ordered (thread_priority_comparison (intr_disable k)) ?c (ready_list (intr_disable k))\<rparr>
      else intr_disable k) = ?k1"
    by (simp add: rl_def intr_disable_def)
  then have "thread_yield k = schedule ?k3"
    using f(3,4) k2(1) by (simp add: thread_yield_def intr_context_def intr_get_level_def Let_def del: if_split)
  then show ?thesis
    using k' k2 by (auto simp: push_frame_def same_sync_def)
qed

text \<open>Unblocking a thread that no list holds, from thread code or from an interrupt handler.\<close>

definition running_ok :: "kernel \<Rightarrow> bool" where
  "running_ok k \<longleftrightarrow> (\<forall>t. status_of k t = Some THREAD_RUNNING \<longleftrightarrow> t = running k) \<and> (in_external_intr k \<longrightarrow> \<not> intr_on k)"

lemma running_ok_current:
  assumes "running_ok k" "status_of k NULL = None"
  shows "thread_current k = Some (running k)"
proof -
  have s: "status_of k (running k) = Some THREAD_RUNNING" using assms by (simp add: running_ok_def)
  then have "running k \<noteq> NULL" using assms(2) by (metis option.distinct(1))
  then show ?thesis using s by (auto simp: thread_current_def is_thread_def status_of_def)
qed

lemma thread_unblock_wf:
  assumes r: "running_ok k" and l: "klists_ok (insert t E) k"
    and t: "status_of k t = Some THREAD_BLOCKED" "t \<noteq> idle_thread k" "t \<notin> E"
  shows "\<exists>k'. thread_unblock t k = Some k' \<and> klists_ok E k' \<and> running_ok k' \<and> same_sync k k' \<and>
     k_frames k' = k_frames k \<and> running k' = running k \<and> intr_on k' = intr_on k \<and>
     in_external_intr k' = in_external_intr k \<and> sleeping_list k' = sleeping_list k \<and> k_ticks k' = k_ticks k \<and>
     k_threads k' = (k_threads k)(t \<mapsto> (the (k_threads k t))\<lparr>t_status := THREAD_READY\<rparr>)"
proof -
  define rl where "rl = insert_ordered (thread_priority_comparison (intr_disable k)) t (ready_list k)"
  let ?th = "(the (k_threads k t))\<lparr>t_status := THREAD_READY\<rparr>"
  define k1 where "k1 = (intr_disable k)\<lparr>ready_list := rl, k_threads := (k_threads k)(t \<mapsto> ?th)\<rparr>"
  have st: "status_of k1 = (status_of k)(t \<mapsto> THREAD_READY)" by (simp add: k1_def intr_disable_def status_of_def fun_eq_iff)
  have n0: "status_of k NULL = None" "t \<noteq> NULL"
    using l t lists_ok_nonnull [OF l, of t] by (auto simp: lists_ok_def threads_ok_def)
  have f1: "running k1 = running k" "in_external_intr k1 = in_external_intr k" "\<not> intr_on k1"
    by (simp_all add: k1_def intr_disable_def)
  have "status_of k (running k) = Some THREAD_RUNNING" using r by (simp add: running_ok_def)
  then have tr: "t \<noteq> running k" using t(1) by auto
  have "running_ok k1" using r t(1) f1 tr unfolding running_ok_def st by auto
  then have c1: "thread_current k1 = Some (running k)"
    using running_ok_current [of k1] n0 unfolding st f1(1) by simp
  define k2 where "k2 = (if in_external_intr k \<and> prio k1 (hd rl) > prio k1 (running k) then k1\<lparr>yield_on_return := True\<rparr> else k1)"
  have rl: "rl \<noteq> []" by (metis rl_def set_insert_ordered insert_not_empty set_empty)
  have "thread_unblock t k = intr_set_level (intr_on k) k2"
    using t(1) n0 c1 rl
    by (auto simp: thread_unblock_def is_thread_def status_of_def set_status_def upd_thread_def intr_context_def
        intr_get_level_def intr_yield_on_return_def k2_def k1_def rl_def Let_def intr_disable_def)
  moreover have "intr_set_level (intr_on k) k2 = Some (k2\<lparr>intr_on := intr_on k\<rparr>)"
    using r by (auto simp: intr_set_level_def intr_enable_def intr_context_def k2_def k1_def running_ok_def intr_disable_def)
  moreover have "klists_ok E (k2\<lparr>intr_on := intr_on k\<rparr>)"
    using lists_ok_unblock [OF l t] st by (simp add: k2_def k1_def rl_def intr_disable_def)
  moreover have "running_ok (k2\<lparr>intr_on := intr_on k\<rparr>)"
  proof -
    have st2: "status_of (k2\<lparr>intr_on := intr_on k\<rparr>) = (status_of k)(t \<mapsto> THREAD_READY)" by (simp add: k2_def st)
    have f2: "running (k2\<lparr>intr_on := intr_on k\<rparr>) = running k" "intr_on (k2\<lparr>intr_on := intr_on k\<rparr>) = intr_on k"
      "in_external_intr (k2\<lparr>intr_on := intr_on k\<rparr>) = in_external_intr k" by (simp_all add: k2_def f1)
    show ?thesis using r tr unfolding running_ok_def st2 f2 by auto
  qed
  ultimately show ?thesis by (auto simp: k2_def k1_def same_sync_def intr_disable_def)
qed

text \<open>The running thread gives up the processor with status \<open>x\<close>; \<open>k1\<close> is the state with its lists updated.\<close>

lemma leave_wf:
  assumes w: "sched_wf k" and k1: "k_threads k1 = k_threads k" "running k1 = running k" "\<not> intr_on k1"
    "\<not> in_external_intr k1" "idle_thread k1 = idle_thread k" and x: "x \<noteq> THREAD_RUNNING" "x = THREAD_DYING \<Longrightarrow> k_frames k1 (running k) = []"
    and l: "lists_ok {} ((status_of k)(running k \<mapsto> x)) (idle_thread k) (ready_list k1) (sleeping_list k1) (k_semas k1) (k_frames k1)"
  shows "\<exists>k2 k'. set_status (running k) x k1 = Some k2 \<and> schedule k2 = Some k' \<and> sched_wf k' \<and> same_sync k1 k' \<and>
     k_frames k' = k_frames k1 \<and> \<not> intr_on k'"
proof -
  obtain k2 where k2: "set_status (running k) x k1 = Some k2" "status_of k2 = (status_of k)(running k \<mapsto> x)"
    "running k2 = running k1" "ready_list k2 = ready_list k1" "sleeping_list k2 = sleeping_list k1" "k_frames k2 = k_frames k1"
    "same_sync k1 k2" "intr_on k2 = intr_on k1" "in_external_intr k2 = in_external_intr k1"
    using set_status_running [OF w k1(1), of x] by auto
  have i: "idle_thread k2 = idle_thread k" "k_semas k2 = k_semas k1" using k2(7) k1(5) by (auto simp: same_sync_def)
  have "klists_ok {} k2" using l unfolding k2(2,4,5,6) i by simp
  moreover have "status_of k2 t \<noteq> Some THREAD_RUNNING" for t
    using w x(1) unfolding k2(2) sched_wf_def by simp
  ultimately have "pre_sched k2"
    using k1 k2 x by (auto simp: pre_sched_def)
  from schedule_wf [OF this] obtain k' where k': "schedule k2 = Some k'" "sched_wf k'" "same_sync k2 k'"
    "k_frames k' = k_frames k2" "\<not> intr_on k'" by blast
  show ?thesis
    using k2(1,6) k' same_sync_trans [OF k2(7) k'(3)] by (intro exI [of _ k2] exI [of _ k']) simp
qed

lemma thread_block_eq:
  assumes "sched_wf k" "k_threads k1 = k_threads k" "running k1 = running k" "\<not> intr_on k1" "\<not> in_external_intr k1"
  shows "thread_block k1 = Option.bind (set_status (running k) THREAD_BLOCKED k1) schedule"
proof -
  have "thread_current k1 = Some (running k)"
    using sched_wf_facts [OF assms(1)] assms(2,3) by (auto simp: thread_current_def is_thread_def status_of_def)
  then show ?thesis using assms(4,5) by (simp add: thread_block_def intr_context_def)
qed

lemma push_frame_simps [simp]:
  "k_threads (push_frame f k) = k_threads k" "running (push_frame f k) = running k" "intr_on (push_frame f k) = intr_on k"
  "in_external_intr (push_frame f k) = in_external_intr k" "idle_thread (push_frame f k) = idle_thread k"
  "ready_list (push_frame f k) = ready_list k" "sleeping_list (push_frame f k) = sleeping_list k"
  "k_semas (push_frame f k) = k_semas k" "k_holder (push_frame f k) = k_holder k" "k_conds (push_frame f k) = k_conds k"
  "k_frames (push_frame f k) = (k_frames k)(running k := f # k_frames k (running k))"
  "status_of (push_frame f k) = status_of k" "initial_thread (push_frame f k) = initial_thread k"
  "thread_mlfqs (push_frame f k) = thread_mlfqs k" "all_list (push_frame f k) = all_list k"
  by (auto simp: push_frame_def status_of_def)

lemma set_sema_simps [simp]:
  "k_threads (set_sema s sm k) = k_threads k" "running (set_sema s sm k) = running k" "intr_on (set_sema s sm k) = intr_on k"
  "in_external_intr (set_sema s sm k) = in_external_intr k" "idle_thread (set_sema s sm k) = idle_thread k"
  "ready_list (set_sema s sm k) = ready_list k" "sleeping_list (set_sema s sm k) = sleeping_list k"
  "k_semas (set_sema s sm k) = (k_semas k)(s \<mapsto> sm)" "k_holder (set_sema s sm k) = k_holder k"
  "k_conds (set_sema s sm k) = k_conds k" "k_frames (set_sema s sm k) = k_frames k"
  "status_of (set_sema s sm k) = status_of k" "initial_thread (set_sema s sm k) = initial_thread k"
  "thread_mlfqs (set_sema s sm k) = thread_mlfqs k"
  by (auto simp: set_sema_def status_of_def)

lemma intr_set_level_ok: "\<not> in_external_intr k \<Longrightarrow> intr_set_level b k = Some (k\<lparr>intr_on := b\<rparr>)"
  by (simp add: intr_set_level_def intr_enable_def intr_disable_def intr_context_def)

lemma intr_disable_simps [simp]:
  "k_threads (intr_disable k) = k_threads k" "running (intr_disable k) = running k" "intr_on (intr_disable k) = False"
  "in_external_intr (intr_disable k) = in_external_intr k" "idle_thread (intr_disable k) = idle_thread k"
  "ready_list (intr_disable k) = ready_list k" "sleeping_list (intr_disable k) = sleeping_list k"
  "k_semas (intr_disable k) = k_semas k" "k_holder (intr_disable k) = k_holder k" "k_conds (intr_disable k) = k_conds k"
  "k_frames (intr_disable k) = k_frames k" "status_of (intr_disable k) = status_of k"
  "initial_thread (intr_disable k) = initial_thread k" "thread_mlfqs (intr_disable k) = thread_mlfqs k"
  "all_list (intr_disable k) = all_list k" "sched_wf (intr_disable k) = sched_wf k"
  by (auto simp: intr_disable_def)

lemma sema_block_wf:
  assumes w: "sched_wf k" "\<not> intr_on k" "running k \<noteq> idle_thread k" and s: "k_semas k s = Some sm" "s_value sm = 0"
  shows "\<exists>k' ws. sema_down_loop s b ret k = Some k' \<and> sched_wf k' \<and> \<not> intr_on k' \<and>
     k_semas k' = (k_semas k)(s \<mapsto> sm\<lparr>s_waiters := ws\<rparr>) \<and> k_holder k' = k_holder k \<and> k_conds k' = k_conds k \<and>
     idle_thread k' = idle_thread k \<and> k_frames k' = (k_frames k)(running k := Sema_Down_Loop s b ret # k_frames k (running k))"
proof -
  note f = sched_wf_facts [OF w(1)]
  define ws where "ws = insert_ordered (thread_priority_comparison k) (running k) (s_waiters sm)"
  let ?k1 = "push_frame (Sema_Down_Loop s b ret) (set_sema s (sm\<lparr>s_waiters := ws\<rparr>) k)"
  have l: "klists_ok {} k" using w(1) by (simp add: sched_wf_def)
  have "lists_ok {} ((status_of k)(running k \<mapsto> THREAD_BLOCKED)) (idle_thread k) (ready_list ?k1) (sleeping_list ?k1)
      (k_semas ?k1) (k_frames ?k1)"
    using lists_ok_wait [OF l f(1) w(3) _ s(1)] by (simp add: ws_def)
  then obtain k2 k' where k': "set_status (running k) THREAD_BLOCKED ?k1 = Some k2" "schedule k2 = Some k'" "sched_wf k'"
    "same_sync ?k1 k'" "k_frames k' = k_frames ?k1" "\<not> intr_on k'"
    using leave_wf [OF w(1), of ?k1 THREAD_BLOCKED] w(2) f(4) by auto
  have "sema_down_loop s b ret k = thread_block ?k1"
    using s f(3) by (simp add: sema_down_loop_def Let_def ws_def)
  also have "\<dots> = Some k'"
    using thread_block_eq [OF w(1), of ?k1] w(2) f(4) k'(1,2) by simp
  finally show ?thesis using k'(3-6) by (auto simp: same_sync_def)
qed

lemma sema_take_wf:
  assumes w: "sched_wf k" and s: "k_semas k s = Some sm" "s_value sm \<noteq> 0"
  shows "\<exists>k'. sema_down_loop s b ret k = Some k' \<and> sched_wf k' \<and> intr_on k' = b \<and>
     k_semas k' = (k_semas k)(s \<mapsto> sm\<lparr>s_value := s_value sm - 1\<rparr>) \<and> k_holder k' = k_holder k \<and> k_conds k' = k_conds k \<and>
     idle_thread k' = idle_thread k \<and> k_frames k' = (k_frames k)(running k :=
        (case ret of Ret_Plain \<Rightarrow> [] | Ret_Lock l \<Rightarrow> [Lock_Acquired l]) @ k_frames k (running k))"
proof -
  note f = sched_wf_facts [OF w]
  let ?sm = "sm\<lparr>s_value := s_value sm - 1\<rparr>"
  let ?k1 = "(set_sema s ?sm k)\<lparr>intr_on := b\<rparr>"
  let ?k2 = "case ret of Ret_Plain \<Rightarrow> ?k1 | Ret_Lock l \<Rightarrow> push_frame (Lock_Acquired l) ?k1"
  have "sema_down_loop s b ret k = Some ?k2"
    using s f(4) by (cases ret) (simp_all add: sema_down_loop_def Let_def intr_set_level_ok)
  moreover have "sched_wf ?k2"
  proof -
    have "klists_ok {} k" using w by (simp add: sched_wf_def)
    then have "lists_ok {} (status_of k) (idle_thread k) (ready_list k) (sleeping_list k)
        ((k_semas k)(s \<mapsto> ?sm)) ((k_frames k)(running k := fs))" for fs
      using f(1) s(1) by (intro lists_ok_frames lists_ok_sema_value) auto
    from this [of "k_frames k (running k)"] this show ?thesis
      using w by (auto simp: sched_wf_def split: down_ret.splits)
  qed
  ultimately show ?thesis by (auto split: down_ret.splits)
qed

lemma sema_up_wf:
  assumes w: "sched_wf k" and s: "k_semas k s = Some sm"
  shows "\<exists>k' ws fs. sema_up s k = Some k' \<and> sched_wf k' \<and>
     k_semas k' = (k_semas k)(s \<mapsto> \<lparr>s_value = usz (s_value sm + 1), s_waiters = ws\<rparr>) \<and> k_holder k' = k_holder k \<and>
     k_conds k' = k_conds k \<and> idle_thread k' = idle_thread k \<and>
     k_frames k' = (k_frames k)(running k := fs @ k_frames k (running k)) \<and> (fs = [] \<or> (\<exists>b. fs = [Set_Level b]))"
proof (cases "s_waiters sm = []")
  case True
  let ?sm = "sm\<lparr>s_value := usz (s_value sm + 1)\<rparr>"
  have "sema_up s k = Some ((set_sema s ?sm k)\<lparr>intr_on := intr_on k\<rparr>)"
    using s True sched_wf_facts(4) [OF w]
    by (auto simp: sema_up_def Let_def intr_set_level_def intr_enable_def intr_disable_def intr_context_def intr_get_level_def set_sema_def)
  moreover have "sched_wf ((set_sema s ?sm k)\<lparr>intr_on := intr_on k\<rparr>)"
    using w lists_ok_sema_value [of "{}" "status_of k" _ _ _ "k_semas k" _ s sm ?sm] s by (simp add: sched_wf_def)
  ultimately show ?thesis using True by (auto intro!: exI [of _ "[]"])
next
  case False
  note f = sched_wf_facts [OF w]
  define ws where "ws = ssort (thread_priority_comparison (intr_disable k)) (s_waiters sm)"
  let ?t = "hd ws" and ?k0 = "intr_disable k"
  let ?k1 = "set_sema s (sm\<lparr>s_waiters := tl ws\<rparr>) ?k0"
  have l: "klists_ok {} k" using w by (simp add: sched_wf_def)
  have d: "distinct (s_waiters sm)" using l s by (auto simp: lists_ok_def wait_ok_def)
  have wsn: "ws \<noteq> []" "distinct ws" "set ws = set (s_waiters sm)" using False d by (auto simp: ws_def)
  have tk: "lists_ok {?t} (status_of k) (idle_thread k) (ready_list k) (sleeping_list k)
      ((k_semas k)(s \<mapsto> sm\<lparr>s_waiters := tl ws\<rparr>)) (k_frames k)"
    "status_of k ?t = Some THREAD_BLOCKED" "?t \<noteq> idle_thread k"
    using lists_ok_take_waiter [OF l s, of ?t "tl ws"] wsn by (cases ws; auto)+
  obtain k2 where k2: "thread_unblock ?t ?k1 = Some k2" "klists_ok {} k2" "running_ok k2" "same_sync ?k1 k2"
    "k_frames k2 = k_frames k" "running k2 = running k" "\<not> intr_on k2" "\<not> in_external_intr k2"
    using thread_unblock_wf [of ?k1 ?t "{}"] w tk by (auto simp: sched_wf_def running_ok_def intr_disable_def)
  have k2s: "k_semas k2 s = Some (sm\<lparr>s_waiters := tl ws\<rparr>)" "status_of k2 NULL = None"
    using k2(2,4) by (auto simp: same_sync_def lists_ok_def threads_ok_def)
  have c2: "thread_current k2 = Some (running k)" using running_ok_current [OF k2(3) k2s(2)] k2(6) by simp
  let ?sm = "sm\<lparr>s_waiters := tl ws, s_value := usz (s_value sm + 1)\<rparr>"
  let ?k3 = "(set_sema s ?sm k2)\<lparr>intr_on := intr_on k\<rparr>"
  have w3: "sched_wf ?k3"
    using k2(2,3,8) lists_ok_sema_value [of "{}" "status_of k2" _ _ _ "k_semas k2" _ s _ ?sm] k2s(1)
    by (simp add: sched_wf_def running_ok_def)
  have up: "sema_up s k = (if prio k2 ?t > prio k2 (running k) then thread_yield ?k3 else Some ?k3)"
  proof -
    have "k_semas ?k0 s = Some sm" "in_external_intr (set_sema s ?sm k2) = False" using s k2(8) by simp_all
    then show ?thesis
      unfolding sema_up_def Let_def intr_get_level_def intr_context_def
      using False k2(1,8) k2s(1) c2 by (simp add: ws_def [symmetric] intr_set_level_ok)
  qed
  have sems: "k_semas ?k3 = (k_semas k)(s \<mapsto> \<lparr>s_value = usz (s_value sm + 1), s_waiters = tl ws\<rparr>)"
    "k_holder ?k3 = k_holder k" "k_conds ?k3 = k_conds k" "idle_thread ?k3 = idle_thread k" "k_frames ?k3 = k_frames k"
    "running ?k3 = running k"
    using k2(4,5,6) by (auto simp: same_sync_def intr_disable_def)
  show ?thesis
  proof (cases "prio k2 ?t > prio k2 (running k)")
    case True
    obtain k' where "thread_yield ?k3 = Some k'" "sched_wf k'" "same_sync ?k3 k'"
      "k_frames k' = (k_frames ?k3)(running ?k3 := Set_Level (intr_on ?k3) # k_frames ?k3 (running ?k3))"
      using thread_yield_wf [OF w3] by blast
    then show ?thesis using up True sems
      by (auto simp: same_sync_def intro!: exI [of _ "tl ws"] exI [of _ "[Set_Level (intr_on k)]"])
  next
    case False
    then show ?thesis using up w3 sems by (intro exI [of _ ?k3] exI [of _ "tl ws"] exI [of _ "[]"]) simp
  qed
qed

lemma thread_sleep_wf:
  assumes w: "sched_wf k" "running k \<noteq> idle_thread k"
  shows "\<exists>k'. thread_sleep n k = Some k' \<and> sched_wf k' \<and> same_sync k k' \<and>
     k_frames k' = (k_frames k)(running k := Set_Level (intr_on k) # k_frames k (running k))"
proof -
  let ?c = "running k"
  note f = sched_wf_facts [OF w(1)]
  obtain th where th: "k_threads k ?c = Some th" using f(1) by (auto simp: status_of_def)
  define ka where "ka = (intr_disable k)\<lparr>k_threads := (k_threads k)(?c \<mapsto> th\<lparr>t_wakeup_tick := n\<rparr>)\<rparr>"
  have sta: "status_of ka = status_of k" using th by (auto simp: ka_def status_of_def fun_eq_iff)
  have wa: "sched_wf ka" using w(1) sta by (simp add: sched_wf_def ka_def)
  define kb where "kb = ka\<lparr>sleeping_list := insert_ordered (list_sleep_less_func ka) ?c (sleeping_list ka),
      next_wakeup_tick := (if n < next_wakeup_tick ka then n else next_wakeup_tick ka)\<rparr>"
  let ?fr = "(k_frames k)(?c := Set_Level (intr_on k) # k_frames k ?c)"
  have l: "klists_ok {} ka" using wa by (simp add: sched_wf_def)
  have lb: "lists_ok {} ((status_of ka)(?c \<mapsto> THREAD_BLOCKED)) (idle_thread ka) (ready_list kb) (sleeping_list kb)
      (k_semas kb) ?fr"
    using lists_ok_sleep [OF l, of ?c] f(1) w(2) sta by (simp add: kb_def ka_def)
  obtain k2 where k2: "set_status ?c THREAD_BLOCKED kb = Some k2" "status_of k2 = (status_of ka)(?c \<mapsto> THREAD_BLOCKED)"
    "running k2 = ?c" "ready_list k2 = ready_list kb" "sleeping_list k2 = sleeping_list kb" "k_frames k2 = k_frames k"
    "same_sync kb k2" "\<not> intr_on k2" "\<not> in_external_intr k2"
    using set_status_running [OF wa, of kb THREAD_BLOCKED] f(4) by (auto simp: kb_def ka_def)
  have i: "idle_thread k2 = idle_thread ka" "k_semas k2 = k_semas kb" using k2(7) by (auto simp: same_sync_def kb_def)
  let ?k3 = "push_frame (Set_Level (intr_on k)) k2"
  have "klists_ok {} ?k3" using lb by (simp add: i k2(2-6))
  moreover have "status_of ?k3 t \<noteq> Some THREAD_RUNNING" for t
    using wa by (simp add: sched_wf_def k2(2)) (simp add: ka_def)
  ultimately have p: "pre_sched ?k3"
    using k2 by (simp add: pre_sched_def)
  from schedule_wf [OF p] obtain k' where k': "schedule ?k3 = Some k'" "sched_wf k'" "same_sync ?k3 k'"
    "k_frames k' = k_frames ?k3" by blast
  have "kb = (let k = ka\<lparr>sleeping_list := insert_ordered (list_sleep_less_func ka) ?c (sleeping_list ka)\<rparr>
      in if n < next_wakeup_tick k then k\<lparr>next_wakeup_tick := n\<rparr> else k)"
    by (simp add: kb_def Let_def)
  then have "thread_sleep n k = schedule ?k3"
    using f(3) w(2) th k2(1)
    by (simp add: thread_sleep_def upd_thread_def intr_get_level_def ka_def Let_def cong: if_cong)
  moreover have "same_sync k k'" using k'(3) k2(7) by (auto simp: same_sync_def kb_def ka_def intr_disable_def)
  ultimately show ?thesis using k'(1,2,4) k2(3,6) by simp
qed

lemma idle_loop_wf:
  assumes w: "sched_wf k" "running k = idle_thread k"
  shows "\<exists>k'. idle_loop k = Some k' \<and> sched_wf k' \<and> same_sync k k' \<and>
     k_frames k' = (k_frames k)(running k := Idle_Halt # k_frames k (running k))"
proof -
  note f = sched_wf_facts [OF w(1)]
  let ?k1 = "push_frame Idle_Halt (intr_disable k)"
  have l: "klists_ok {} k" using w(1) by (simp add: sched_wf_def)
  have "lists_ok {} ((status_of k)(running k \<mapsto> THREAD_BLOCKED)) (idle_thread k) (ready_list ?k1) (sleeping_list ?k1)
      (k_semas ?k1) (k_frames ?k1)"
    using lists_ok_idle [OF lists_ok_frames [OF l f(1)], of THREAD_BLOCKED] w(2) by simp
  then obtain k2 k' where k': "set_status (running k) THREAD_BLOCKED ?k1 = Some k2" "schedule k2 = Some k'" "sched_wf k'"
    "same_sync ?k1 k'" "k_frames k' = k_frames ?k1"
    using leave_wf [OF w(1), of ?k1 THREAD_BLOCKED] f(4) by auto
  have "idle_loop k = Some k'"
    using thread_block_eq [OF w(1), of ?k1] f(4) k'(1,2) by (simp add: idle_loop_def)
  then show ?thesis using k'(3-5) by (auto simp: same_sync_def)
qed

lemma thread_exit_wf:
  assumes w: "sched_wf k" "running k \<noteq> idle_thread k" "k_frames k (running k) = []" "running k \<in> set (all_list k)"
  shows "\<exists>k'. thread_exit k = Some k' \<and> sched_wf k' \<and> same_sync k k' \<and> k_frames k' = k_frames k"
proof -
  note f = sched_wf_facts [OF w(1)]
  let ?k1 = "(intr_disable k)\<lparr>all_list := remove1 (running k) (all_list k)\<rparr>"
  have l: "klists_ok {} k" using w(1) by (simp add: sched_wf_def)
  have "lists_ok {} ((status_of k)(running k \<mapsto> THREAD_DYING)) (idle_thread k) (ready_list ?k1) (sleeping_list ?k1)
      (k_semas ?k1) (k_frames ?k1)"
    using lists_ok_die [OF l f(1) w(2)] by simp
  then obtain k2 k' where k': "set_status (running k) THREAD_DYING ?k1 = Some k2" "schedule k2 = Some k'" "sched_wf k'"
    "same_sync ?k1 k'" "k_frames k' = k_frames ?k1"
    using leave_wf [OF w(1), of ?k1 THREAD_DYING] f(4) w(3) by auto
  have "thread_current (intr_disable k) = Some (running k)" using sched_wf_facts(3) [of "intr_disable k"] w(1) by simp
  then have "thread_exit k = Some k'"
    using f(4) w(4) k'(1,2) by (simp add: thread_exit_def intr_context_def)
  then show ?thesis using k'(3-5) by (auto simp: same_sync_def)
qed

subsection \<open>Functions that move no thread\<close>

text \<open>
  Priority changes, donation and the feedback queue's updates leave all states, frames and
  semaphores alone; they may only reorder the ready list.
\<close>

definition quiet :: "kernel \<Rightarrow> kernel \<Rightarrow> bool" where
  "quiet k k' \<longleftrightarrow> same_sync k k' \<and> status_of k' = status_of k \<and> k_frames k' = k_frames k \<and> running k' = running k \<and>
     sleeping_list k' = sleeping_list k \<and> intr_on k' = intr_on k \<and> in_external_intr k' = in_external_intr k \<and>
     k_ticks k' = k_ticks k \<and> all_list k' = all_list k \<and> wakeup_of k' = wakeup_of k \<and> next_wakeup_tick k' = next_wakeup_tick k \<and>
     set (ready_list k') = set (ready_list k) \<and> (distinct (ready_list k) \<longrightarrow> distinct (ready_list k'))"

lemma quiet_refl [simp]: "quiet k k"
  by (simp add: quiet_def)

lemma quiet_trans: "quiet k k' \<Longrightarrow> quiet k' k'' \<Longrightarrow> quiet k k''"
  by (simp add: quiet_def same_sync_def)

lemma quiet_lists: "klists_ok E k \<Longrightarrow> quiet k k' \<Longrightarrow> klists_ok E k'"
  using lists_ok_resort [of E "status_of k" "idle_thread k" "ready_list k" "sleeping_list k" "k_semas k" "k_frames k" "ready_list k'"]
  by (auto simp: quiet_def same_sync_def lists_ok_def ready_ok_def)

lemma quiet_wf: "sched_wf k \<Longrightarrow> quiet k k' \<Longrightarrow> sched_wf k'"
  using quiet_lists [of "{}" k k'] by (auto simp: sched_wf_def quiet_def)

lemma quiet_upd:
  assumes "upd_thread t f k = Some k'" "\<And>th. t_status (f th) = t_status th" "\<And>th. t_wakeup_tick (f th) = t_wakeup_tick th"
  shows "quiet k k'"
  using assms
  by (auto simp: quiet_def upd_thread_def same_sync_def status_of_def wakeup_of_def fun_eq_iff split: option.splits if_splits)

lemma quiet_update_priority: "update_priority t k = Some k' \<Longrightarrow> quiet k k'"
  unfolding update_priority_def Let_def
  by (auto elim!: bind_eq_SomeE split: if_splits intro: quiet_trans dest!: quiet_upd)
    (meson quiet_trans)+

lemma quiet_donate_loop: "donate_loop c l n k = Some k' \<Longrightarrow> quiet k k'"
proof (induction n arbitrary: l k k')
  case (Suc n)
  from Suc.prems show ?case
    by (auto elim!: bind_eq_SomeE split: if_splits dest!: quiet_upd Suc.IH) (meson quiet_trans)+
qed simp

lemma quiet_donate_priority: "donate_priority l k = Some k' \<Longrightarrow> quiet k k'"
  unfolding donate_priority_def
  by (auto elim!: bind_eq_SomeE split: if_splits dest!: quiet_upd quiet_donate_loop) (meson quiet_trans)+

lemma quiet_remove_donors: "remove_donors l ds k = Some r \<Longrightarrow> quiet k (snd r)"
proof (induction ds arbitrary: k r)
  case (Cons d ds)
  from Cons.prems show ?case
    by (auto elim!: bind_eq_SomeE split: if_splits dest!: quiet_upd)
      (metis quiet_trans Cons.IH, metis Cons.IH snd_conv)
qed auto

lemma quiet_remove_priority: "remove_priority l k = Some k' \<Longrightarrow> quiet k k'"
  unfolding remove_priority_def
  by (auto elim!: bind_eq_SomeE split: if_splits dest!: quiet_upd quiet_remove_donors quiet_update_priority)
    (meson quiet_trans)+


text \<open>Inside an interrupt handler interrupts are off, so \<^verbatim>\<open>intr_disable\<close> and \<^verbatim>\<open>intr_set_level\<close> change nothing.\<close>

lemma quiet_intr: "quiet (intr_disable k) k' \<Longrightarrow> intr_set_level (intr_on k) k' = Some k'' \<Longrightarrow> quiet k k''"
  by (auto simp: quiet_def intr_set_level_def intr_enable_def intr_disable_def same_sync_def wakeup_of_def fun_eq_iff
      elim!: bind_eq_SomeE split: if_splits)

lemma quiet_ready: "set rl = set (ready_list k) \<Longrightarrow> (distinct (ready_list k) \<Longrightarrow> distinct rl) \<Longrightarrow> quiet k (k\<lparr>ready_list := rl\<rparr>)"
  by (simp add: quiet_def same_sync_def wakeup_of_def fun_eq_iff)

lemma set_remove1_insert: "t \<in> set xs \<Longrightarrow> insert t (set (remove1 t xs)) = set xs"
  by (induction xs) auto

lemma quiet_rearrange: "thread_ready_rearrange t k = Some k' \<Longrightarrow> quiet k k'"
  unfolding thread_ready_rearrange_def Let_def intr_get_level_def
  by (auto split: if_splits elim!: quiet_intr [rotated] intro!: quiet_ready simp: set_remove1_insert dest: distinct_remove1)

lemma quiet_update_priority_mlfqs: "thread_update_priority_mlfqs t k = Some k' \<Longrightarrow> quiet k k'"
  unfolding thread_update_priority_mlfqs_def Let_def
  by (auto elim!: bind_eq_SomeE split: if_splits dest!: quiet_upd quiet_rearrange) (meson quiet_trans)

lemma quiet_foreach:
  assumes "\<And>k t th. t_status (f k t th) = t_status th" "\<And>k t th. t_wakeup_tick (f k t th) = t_wakeup_tick th"
  shows "foreach_thread f ts k = Some k' \<Longrightarrow> quiet k k'"
proof (induction ts arbitrary: k)
  case (Cons t ts)
  from Cons.prems show ?case
    using assms by (auto elim!: bind_eq_SomeE split: if_splits dest!: quiet_upd Cons.IH) (meson quiet_trans)+
qed simp

lemma quiet_load_avg: "quiet k (k\<lparr>load_avg := x\<rparr>)"
  by (simp add: quiet_def same_sync_def wakeup_of_def fun_eq_iff)

lemma quiet_mlfqs_update: "mlfqs_update_load_avg_and_recent_cpu_all k = Some k' \<Longrightarrow> quiet k k'"
  unfolding mlfqs_update_load_avg_and_recent_cpu_all_def Let_def intr_get_level_def
proof (elim bind_eq_SomeE)
  fix cur k1
  let ?k = "(intr_disable k)\<lparr>load_avg := mlfqs_load_avg (load_avg (intr_disable k))
      (int (length (ready_list (intr_disable k))) + (if cur \<noteq> idle_thread (intr_disable k) then 1 else 0))\<rparr>"
  assume 1: "foreach_thread (\<lambda>_ _ th. th\<lparr>t_recent_cpu := mlfqs_recent_cpu (mlfqs_coeff (load_avg ?k)) (t_recent_cpu th) (t_nice th)\<rparr>)
      (all_list ?k) ?k = Some k1"
    and 2: "intr_set_level (intr_on k) k1 = Some k'"
  have "quiet ?k k1" by (rule quiet_foreach [OF _ _ 1]) auto
  then show "quiet k k'" by (rule quiet_intr [OF quiet_trans [OF quiet_load_avg] 2])
qed

lemma quiet_mlfqs_recompute: "mlfqs_recompute_priority_all k = Some k' \<Longrightarrow> quiet k k'"
  unfolding mlfqs_recompute_priority_all_def Let_def intr_get_level_def
proof (elim bind_eq_SomeE)
  fix k1
  assume 1: "foreach_thread (\<lambda>k t th. th\<lparr>t_priority := mlfqs_priority_of k t\<rparr>) (all_list k) k = Some k1"
    and 2: "intr_set_level (intr_on k1) (if ready_list (intr_disable k1) \<noteq> []
      then intr_disable k1\<lparr>ready_list := ssort (thread_priority_comparison (intr_disable k1)) (ready_list (intr_disable k1))\<rparr>
      else intr_disable k1) = Some k'"
  have "quiet k k1" by (rule quiet_foreach [OF _ _ 1]) auto
  moreover have "quiet k1 k'"
    by (rule quiet_intr [OF _ 2]) (auto intro: quiet_ready)
  ultimately show "quiet k k'" by (rule quiet_trans)
qed

subsection \<open>New threads and the timer interrupt\<close>

lemma quiet_counters [simp]:
  "quiet k (k\<lparr>idle_ticks := x\<rparr>)" "quiet k (k\<lparr>user_ticks := x\<rparr>)" "quiet k (k\<lparr>kernel_ticks := x\<rparr>)"
  "quiet k (k\<lparr>thread_ticks := n\<rparr>)" "quiet k (k\<lparr>yield_on_return := b\<rparr>)"
  by (simp_all add: quiet_def same_sync_def wakeup_of_def fun_eq_iff)

lemma quiet_yield_on_return: "intr_yield_on_return k = Some k' \<Longrightarrow> quiet k k'"
  by (auto simp: intr_yield_on_return_def split: if_splits)

lemma quiet_if: "(if b then f else Some k) = Some k' \<Longrightarrow> (f = Some k' \<Longrightarrow> quiet k k') \<Longrightarrow> quiet k k'"
  by (auto split: if_splits)

lemma quiet_mlfqs_tick: "thread_mlfqs_tick k = Some k' \<Longrightarrow> quiet k k'"
  unfolding thread_mlfqs_tick_def
proof (elim bind_eq_SomeE)
  fix cur k1 k2
  assume 1: "(if cur \<noteq> idle_thread k then upd_thread cur (\<lambda>th. th\<lparr>t_recent_cpu := FP_ADD_MIX (t_recent_cpu th) 1\<rparr>) k else Some k) = Some k1"
    and 2: "(if k_ticks k1 smod 4 = 0 then thread_update_priority_mlfqs cur k1 else Some k1) = Some k2"
    and 3: "(if ready_list k2 \<noteq> [] \<and> prio k2 cur < prio k2 (hd (ready_list k2)) then intr_yield_on_return k2 else Some k2) = Some k'"
  have "quiet k k1" using 1 by (auto split: if_splits dest: quiet_upd)
  moreover have "quiet k1 k2" using 2 by (auto split: if_splits dest: quiet_update_priority_mlfqs)
  moreover have "quiet k2 k'" using 3 by (auto split: if_splits dest: quiet_yield_on_return)
  ultimately show "quiet k k'" by (meson quiet_trans)
qed

lemma quiet_tick: "thread_tick k = Some k' \<Longrightarrow> quiet k k'"
  unfolding thread_tick_def Let_def
proof (elim bind_eq_SomeE)
  fix t th k3
  let ?k1 = "if t = idle_thread k then k\<lparr>idle_ticks := idle_ticks k + 1\<rparr>
      else if t_pagedir th \<noteq> NULL then k\<lparr>user_ticks := user_ticks k + 1\<rparr> else k\<lparr>kernel_ticks := kernel_ticks k + 1\<rparr>"
  let ?k2 = "?k1\<lparr>thread_ticks := usz (thread_ticks ?k1 + 1)\<rparr>"
  assume 1: "(if TIME_SLICE \<le> thread_ticks ?k2 then intr_yield_on_return ?k2 else Some ?k2) = Some k3"
    and 2: "(if thread_mlfqs k3 then thread_mlfqs_tick k3 else Some k3) = Some k'"
  have "quiet k ?k1" by simp
  moreover have "quiet ?k1 ?k2" by (rule quiet_counters)
  moreover have "quiet ?k2 k3" using 1 by (rule quiet_if) (rule quiet_yield_on_return)
  moreover have "quiet k3 k'" using 2 by (auto split: if_splits dest: quiet_mlfqs_tick)
  ultimately show "quiet k k'" by (meson quiet_trans)
qed

lemma wake_sleepers_wf:
  assumes "klists_ok {} k" "running_ok k" "sleeping_list k = ts" "wake_sleepers ts k = Some k'"
  shows "klists_ok {} k' \<and> running_ok k' \<and> same_sync k k' \<and> k_frames k' = k_frames k \<and> running k' = running k \<and>
     intr_on k' = intr_on k \<and> in_external_intr k' = in_external_intr k \<and> k_ticks k' = k_ticks k"
  using assms
proof (induction ts arbitrary: k)
  case (Cons t ts)
  show ?case
  proof (cases "k_threads k t = None \<or> k_ticks k < t_wakeup_tick (the (k_threads k t))")
    case True
    then have "k' = k" using Cons.prems(4) by (cases "k_threads k t") auto
    then show ?thesis using Cons.prems by simp
  next
    case False
    let ?k1 = "k\<lparr>sleeping_list := ts\<rparr>"
    have l: "lists_ok {} (status_of k) (idle_thread k) (ready_list k) (t # ts) (k_semas k) (k_frames k)"
      using Cons.prems(1,3) by simp
    note tk = lists_ok_take_sleeper [OF l]
    have r1: "running_ok ?k1" using Cons.prems(2) by (simp add: running_ok_def)
    have l1: "klists_ok (insert t {}) ?k1" using tk by simp
    have ne: "t \<notin> {}" by simp
    have t1: "status_of ?k1 t = Some THREAD_BLOCKED" "t \<noteq> idle_thread ?k1" using tk by simp_all
    obtain k2 where k2: "thread_unblock t ?k1 = Some k2" "klists_ok {} k2" "running_ok k2" "same_sync ?k1 k2"
      "k_frames k2 = k_frames ?k1" "running k2 = running ?k1" "intr_on k2 = intr_on ?k1"
      "in_external_intr k2 = in_external_intr ?k1" "sleeping_list k2 = sleeping_list ?k1" "k_ticks k2 = k_ticks ?k1"
      using thread_unblock_wf [OF r1 l1 t1 ne] by blast
    have "wake_sleepers ts k2 = Some k'"
      using Cons.prems(4) False k2(1) by (auto split: if_splits)
    from Cons.IH [OF k2(2,3) _ this] show ?thesis
      using k2(4-10) by (auto simp: same_sync_def)
  qed
qed auto

lemma init_thread_result:
  assumes "init_thread t n p k = Some k'"
  shows "status_of k' = (status_of k)(t \<mapsto> THREAD_BLOCKED) \<and> k_frames k' = (k_frames k)(t := []) \<and> same_sync k k' \<and>
    ready_list k' = ready_list k \<and> sleeping_list k' = sleeping_list k \<and> running k' = running k \<and> intr_on k' = intr_on k \<and>
    in_external_intr k' = in_external_intr k \<and> t \<noteq> NULL"
  using assms
  by (auto simp: init_thread_def Let_def upd_thread_def same_sync_def status_of_def fun_eq_iff
      elim!: bind_eq_SomeE split: if_splits option.splits)

lemma alloc_frame_quiet: "alloc_frame t n k = Some k' \<Longrightarrow> quiet k k'"
  by (auto simp: alloc_frame_def split: if_splits dest: quiet_upd)


lemma thread_create_wf:
  assumes w: "sched_wf k" and p: "k_threads k page = None" and c: "thread_create n pr page k = Some (k', tid)"
  shows "sched_wf k' \<and> same_sync k k' \<and> (\<exists>fs. list_all (\<lambda>f. \<exists>b. f = Set_Level b) fs \<and>
     (k_frames k' = k_frames k \<and> page = NULL \<or>
      page \<noteq> running k \<and> k_frames k' = (k_frames k)(page := [Kernel_Thread], running k := fs @ k_frames k (running k))))"
proof (cases "page = NULL")
  case True
  then show ?thesis using c w by (auto simp: thread_create_def intro: exI [of _ "[]"])
next
  case False
  from c False obtain k1 k2 k3 k4 k5 k6 cur k7 where s:
    "init_thread page n pr k = Some k1"
    "upd_thread page (\<lambda>th. th\<lparr>t_tid := snd (allocate_tid k1)\<rparr>) (fst (allocate_tid k1)) = Some k2"
    "alloc_frame page 12 k2 = Some k3" "alloc_frame page 4 k3 = Some k4" "alloc_frame page 28 k4 = Some k5"
    "thread_unblock page (k5\<lparr>k_frames := (k_frames k5)(page := [Kernel_Thread])\<rparr>) = Some k6"
    "(if \<not> thread_mlfqs k6 \<and> prio k6 cur < pr then thread_yield k6 else Some k6) = Some k'"
    unfolding thread_create_def Let_def by (auto elim!: bind_eq_SomeE simp: allocate_tid_def)
  note i = init_thread_result [OF s(1)]
  have q: "quiet (fst (allocate_tid k1)) k5"
    using quiet_upd [OF s(2)] alloc_frame_quiet [OF s(3)] alloc_frame_quiet [OF s(4)] alloc_frame_quiet [OF s(5)]
    by (simp) (meson quiet_trans)
  let ?k5 = "k5\<lparr>k_frames := (k_frames k5)(page := [Kernel_Thread])\<rparr>"
  have st: "status_of k page = None" using p by (simp add: status_None)
  have l: "klists_ok {} k" using w by (simp add: sched_wf_def)
  have rn: "page \<noteq> running k" using sched_wf_facts(1) [OF w] st by auto
  have k5: "status_of ?k5 = (status_of k)(page \<mapsto> THREAD_BLOCKED)" "k_frames ?k5 = (k_frames k)(page := [Kernel_Thread])"
    "same_sync k ?k5" "set (ready_list ?k5) = set (ready_list k)" "sleeping_list ?k5 = sleeping_list k" "running ?k5 = running k"
    "intr_on ?k5 = intr_on k" "in_external_intr ?k5 = in_external_intr k" "distinct (ready_list k) \<longrightarrow> distinct (ready_list ?k5)"
    using q i by (auto simp: quiet_def allocate_tid_def same_sync_def)
  have "lists_ok {page} ((status_of k)(page \<mapsto> THREAD_BLOCKED)) (idle_thread k) (ready_list k) (sleeping_list k)
      (k_semas k) ((k_frames k)(page := [Kernel_Thread]))"
    using lists_ok_new_thread [OF l st False] by simp
  then have l5: "klists_ok {page} ?k5"
    using k5 lists_ok_resort [of "{page}" _ _ "ready_list k" _ _ _ "ready_list ?k5"]
    by (simp add: same_sync_def lists_ok_def ready_ok_def)
  have ro: "running_ok ?k5"
    using w rn k5(1,6,8) sched_wf_facts(4) [OF w] unfolding running_ok_def sched_wf_def by auto
  have ni: "page \<noteq> idle_thread ?k5" using l st k5(3) by (auto simp: lists_ok_def threads_ok_def same_sync_def)
  have ne: "page \<notin> {}" by simp
  have t5: "status_of ?k5 page = Some THREAD_BLOCKED" using k5(1) by simp
  obtain k6' where k6: "thread_unblock page ?k5 = Some k6'" "klists_ok {} k6'" "running_ok k6'" "same_sync ?k5 k6'"
    "k_frames k6' = k_frames ?k5" "running k6' = running ?k5" "in_external_intr k6' = in_external_intr ?k5"
    using thread_unblock_wf [OF ro l5 t5 ni ne] by blast
  have e: "k6' = k6" using k6(1) s(6) by simp
  have w6: "sched_wf k6"
    using k6 e sched_wf_facts(4) [OF w] k5(8) by (auto simp: sched_wf_def running_ok_def)
  have y: "k' = k6 \<or> thread_yield k6 = Some k'" using s(7) by (auto split: if_splits)
  have s6: "same_sync k k6" "k_frames k6 = (k_frames k)(page := [Kernel_Thread])" "running k6 = running k"
    using k6(4,5,6) e k5 by (auto simp: same_sync_def)
  show ?thesis
  proof (cases "k' = k6")
    case True
    then show ?thesis using w6 s6 rn by (auto intro!: exI [of _ "[]"])
  next
    case False
    with y thread_yield_wf [OF w6] have "sched_wf k'" "same_sync k6 k'"
      "k_frames k' = (k_frames k6)(running k6 := Set_Level (intr_on k6) # k_frames k6 (running k6))" by auto
    then show ?thesis using s6 rn same_sync_trans [OF s6(1)] by (auto intro!: exI [of _ "[Set_Level (intr_on k6)]"])
  qed
qed

lemma timer_interrupt_wf:
  assumes l: "klists_ok {} k" and r: "running_ok k" and t: "timer_interrupt k = Some k'"
  shows "klists_ok {} k' \<and> running_ok k' \<and> same_sync k k' \<and> k_frames k' = k_frames k \<and> running k' = running k \<and>
     intr_on k' = intr_on k \<and> in_external_intr k' = in_external_intr k"
proof -
  let ?k0 = "k\<lparr>k_ticks := s64 (k_ticks k + 1)\<rparr>"
  let ?same = "\<lambda>a b. klists_ok {} b \<and> running_ok b \<and> same_sync a b \<and> k_frames b = k_frames a \<and> running b = running a \<and>
     intr_on b = intr_on a \<and> in_external_intr b = in_external_intr a"
  have tr: "?same a c" if "?same a b" "?same b c" for a b c using that by (auto simp: same_sync_def)
  have qs: "?same a b" if "klists_ok {} a" "running_ok a" "quiet a b" for a b
    using that quiet_lists [of "{}" a b] by (auto simp: quiet_def running_ok_def)
  from t obtain k1 k2 where s: "thread_tick ?k0 = Some k1"
    "(if next_wakeup_tick k1 \<le> k_ticks k1 then do {
             k \<leftarrow> wake_sleepers (sleeping_list k1) k1;
             if sleeping_list k \<noteq> [] then do {
               th \<leftarrow> k_threads k (hd (sleeping_list k));
               Some (k\<lparr>next_wakeup_tick := t_wakeup_tick th\<rparr>) }
             else Some (k\<lparr>next_wakeup_tick := INT64_MAX\<rparr>) } else Some k1) = Some k2"
    "(if thread_mlfqs k2 \<and> k_ticks k2 smod TIMER_FREQ = 0 then do {
       k \<leftarrow> mlfqs_update_load_avg_and_recent_cpu_all k2; mlfqs_recompute_priority_all k } else Some k2) = Some k'"
    unfolding timer_interrupt_def Let_def by (elim bind_eq_SomeE) blast
  have 0: "?same k ?k0" using l r by (simp add: same_sync_def running_ok_def)
  have 1: "?same ?k0 k1" using 0 quiet_tick [OF s(1)] by (intro qs) auto
  have 2: "?same k1 k2"
  proof (cases "next_wakeup_tick k1 \<le> k_ticks k1")
    case True
    with s(2) obtain k3 x where "wake_sleepers (sleeping_list k1) k1 = Some k3" "k2 = k3\<lparr>next_wakeup_tick := x\<rparr>"
      by (auto elim!: bind_eq_SomeE split: if_splits)
    then show ?thesis
      using wake_sleepers_wf [of k1 "sleeping_list k1" k3] 1 by (auto simp: same_sync_def running_ok_def)
  qed (use s(2) 1 in auto)
  have "quiet k2 k'"
    using s(3) by (rule quiet_if) (auto elim!: bind_eq_SomeE intro: quiet_trans [OF quiet_mlfqs_update quiet_mlfqs_recompute])
  then have 3: "?same k2 k'" by (rule qs [rotated 2]) (use 2 in blast)+
  from tr [OF tr [OF tr [OF 0 1] 2] 3] show ?thesis .
qed

lemma intr_handler_timer_wf:
  assumes w: "sched_wf k" and t: "intr_handler_timer k = Some k'"
  shows "sched_wf k' \<and> same_sync k k' \<and> (\<exists>fs. list_all (\<lambda>f. \<exists>b. f = Set_Level b) fs \<and>
     k_frames k' = (k_frames k)(running k := fs @ Iret # k_frames k (running k)))"
proof -
  let ?k1 = "(push_frame Iret (k\<lparr>intr_on := False\<rparr>))\<lparr>in_external_intr := True, yield_on_return := False\<rparr>"
  note f = sched_wf_facts [OF w]
  have l: "klists_ok {} k" using w by (simp add: sched_wf_def)
  have l1: "klists_ok {} ?k1" "running_ok ?k1"
    using lists_ok_frames [OF l f(1)] w by (auto simp: running_ok_def sched_wf_def)
  obtain k2 where k2: "timer_interrupt ?k1 = Some k2" "(let k = k2\<lparr>in_external_intr := False\<rparr> in
      if yield_on_return k then thread_yield k else Some k) = Some k'"
    using t unfolding intr_handler_timer_def Let_def by (auto elim!: bind_eq_SomeE split: if_splits)
  note ti = timer_interrupt_wf [OF l1 k2(1)]
  let ?k3 = "k2\<lparr>in_external_intr := False\<rparr>"
  have w3: "sched_wf ?k3" using ti by (auto simp: sched_wf_def running_ok_def)
  have s3: "same_sync k ?k3" "k_frames ?k3 = (k_frames k)(running k := Iret # k_frames k (running k))" "running ?k3 = running k"
    using ti by (auto simp: same_sync_def)
  show ?thesis
  proof (cases "yield_on_return ?k3")
    case True
    with k2(2) have "thread_yield ?k3 = Some k'" by simp
    with thread_yield_wf [OF w3] have "sched_wf k'" "same_sync ?k3 k'"
      "k_frames k' = (k_frames ?k3)(running ?k3 := Set_Level (intr_on ?k3) # k_frames ?k3 (running ?k3))" by auto
    then show ?thesis
      using s3 same_sync_trans [OF s3(1)] by (auto intro!: exI [of _ "[Set_Level (intr_on ?k3)]"])
  next
    case False
    then show ?thesis using k2(2) w3 s3 by (auto intro!: exI [of _ "[]"])
  qed
qed

end
