(* ===== verification/Kernel_Steps.thy ===== *)
theory Kernel_Steps
  imports Scheduler_Invariant
begin

text \<open>
  The kernel as a transition system. A step is a call of a kernel function by the running thread, the
  execution of the topmost frame of the running thread, a round of the idle loop, or a timer interrupt
  while interrupts are on. In every reachable state the scheduler's invariant \<open>sched_wf\<close> holds, and every
  lock is accounted for exactly once (\<open>locks_ok\<close>): in the value of its semaphore, in its \<^verbatim>\<open>holder\<close> field,
  or as a frame of the one thread that is between \<^verbatim>\<open>sema_down\<close> and the assignment to \<^verbatim>\<open>holder\<close> in
  \<^verbatim>\<open>lock_acquire\<close>, or between that assignment and \<^verbatim>\<open>sema_up\<close> in \<^verbatim>\<open>lock_release\<close>.
\<close>

subsection \<open>Steps\<close>

datatype kcall =
    C_Yield
  | C_Exit
  | C_Create string int ptr
  | C_Set_Priority int
  | C_Sleep int
  | C_Sema_Down ptr
  | C_Sema_Try_Down ptr
  | C_Sema_Up ptr
  | C_Lock_Acquire ptr
  | C_Lock_Try_Acquire ptr
  | C_Lock_Release ptr
  | C_Cond_Wait ptr ptr ptr
  | C_Cond_Signal ptr ptr
  | C_Cond_Broadcast ptr ptr

fun exec_call :: "kcall \<Rightarrow> kernel \<Rightarrow> kernel option" where
  "exec_call C_Yield k = thread_yield k"
| "exec_call C_Exit k = thread_exit k"
| "exec_call (C_Create n p page) k = map_option fst (thread_create n p page k)"
| "exec_call (C_Set_Priority p) k = thread_set_priority p k"
| "exec_call (C_Sleep n) k = timer_sleep n k"
| "exec_call (C_Sema_Down s) k = sema_down s Ret_Plain k"
| "exec_call (C_Sema_Try_Down s) k = map_option fst (sema_try_down s k)"
| "exec_call (C_Sema_Up s) k = sema_up s k"
| "exec_call (C_Lock_Acquire l) k = lock_acquire l k"
| "exec_call (C_Lock_Try_Acquire l) k = map_option fst (lock_try_acquire l k)"
| "exec_call (C_Lock_Release l) k = lock_release l k"
| "exec_call (C_Cond_Wait c l w) k = cond_wait c l w k"
| "exec_call (C_Cond_Signal c l) k = cond_signal c l k"
| "exec_call (C_Cond_Broadcast c l) k = cond_broadcast c l k"

fun exec_frame :: "frame \<Rightarrow> kernel \<Rightarrow> kernel option" where
  "exec_frame (Set_Level b) k = intr_set_level b k"
| "exec_frame Iret k = Some (k\<lparr>intr_on := True\<rparr>)"
| "exec_frame Kernel_Thread k = kernel_thread k"
| "exec_frame Idle_Halt k = Some (k\<lparr>intr_on := True\<rparr>)"
| "exec_frame (Sema_Down s r) k = sema_down s r k"
| "exec_frame (Sema_Down_Loop s b r) k = sema_down_loop s b r k"
| "exec_frame (Lock_Acquire l) k = lock_acquire l k"
| "exec_frame (Lock_Acquired l) k = lock_acquired l k"
| "exec_frame (Lock_Release l) k = lock_release l k"
| "exec_frame (Lock_Up l) k = sema_up (lock_semaphore l) k"
| "exec_frame (Cond_Broadcast c l) k = cond_broadcast c l k"

text \<open>
  The addresses a call may use: semaphore functions are not called on the semaphore inside a lock, a new
  thread gets a page that is not in use, and the semaphore of \<^verbatim>\<open>cond_wait\<close> lies on the caller's stack.
\<close>

definition plain_sema :: "(ptr \<rightharpoonup> ptr) \<Rightarrow> ptr \<Rightarrow> bool" where
  "plain_sema holder s \<longleftrightarrow> s \<notin> lock_semaphore ` dom holder"

fun call_ok :: "kcall \<Rightarrow> kernel \<Rightarrow> bool" where
  "call_ok (C_Create n p page) k \<longleftrightarrow> k_threads k page = None"
| "call_ok (C_Sema_Down s) k \<longleftrightarrow> plain_sema (k_holder k) s"
| "call_ok (C_Sema_Try_Down s) k \<longleftrightarrow> plain_sema (k_holder k) s"
| "call_ok (C_Sema_Up s) k \<longleftrightarrow> plain_sema (k_holder k) s"
| "call_ok (C_Cond_Wait c l w) k \<longleftrightarrow> plain_sema (k_holder k) w \<and>
     (case k_semas k w of None \<Rightarrow> True | Some sm \<Rightarrow> s_waiters sm = [])"
| "call_ok _ k \<longleftrightarrow> True"

inductive kstep :: "kernel \<Rightarrow> kernel \<Rightarrow> bool" where
  call: "k_frames k (running k) = [] \<Longrightarrow> running k \<noteq> idle_thread k \<Longrightarrow> intr_on k \<Longrightarrow> call_ok c k \<Longrightarrow>
    exec_call c k = Some k' \<Longrightarrow> kstep k k'"
| frame: "k_frames k (running k) = f # fs \<Longrightarrow> exec_frame f (pop_frame k) = Some k' \<Longrightarrow> kstep k k'"
| idle: "k_frames k (running k) = [] \<Longrightarrow> running k = idle_thread k \<Longrightarrow> idle_loop k = Some k' \<Longrightarrow> kstep k k'"
| tick: "intr_on k \<Longrightarrow> intr_handler_timer k = Some k' \<Longrightarrow> kstep k k'"

subsection \<open>The ledger of the locks\<close>

definition lock_frame :: "ptr \<Rightarrow> frame \<Rightarrow> bool" where
  "lock_frame l f \<longleftrightarrow> f = Lock_Acquired l \<or> f = Lock_Up l"

definition lock_cnt :: "ptr \<Rightarrow> frame list \<Rightarrow> nat" where
  "lock_cnt l fs = length (filter (lock_frame l) fs)"

definition pend :: "(ptr \<Rightarrow> frame list) \<Rightarrow> ptr \<Rightarrow> nat" where
  "pend fr l = (\<Sum>t | fr t \<noteq> []. lock_cnt l (fr t))"

definition own :: "ptr \<Rightarrow> nat" where
  "own h = (if h = NULL then 0 else 1)"

text \<open>\<open>D\<close> holds the frame that is being executed, which is no longer on its thread's stack.\<close>

definition locks_ok :: "frame list \<Rightarrow> kernel \<Rightarrow> bool" where
  "locks_ok D k \<longleftrightarrow> finite {t. k_frames k t \<noteq> []} \<and>
     (\<forall>l h. k_holder k l = Some h \<longrightarrow> (\<exists>sm. k_semas k (lock_semaphore l) = Some sm \<and>
        s_value sm + own h + pend (k_frames k) l + lock_cnt l D = 1))"

text \<open>Every frame refers to a semaphore of the right kind; the idle thread never waits.\<close>

fun ret_ok :: "(ptr \<rightharpoonup> ptr) \<Rightarrow> ptr \<Rightarrow> down_ret \<Rightarrow> bool" where
  "ret_ok holder s Ret_Plain \<longleftrightarrow> plain_sema holder s"
| "ret_ok holder s (Ret_Lock l) \<longleftrightarrow> s = lock_semaphore l \<and> l \<in> dom holder"

fun frame_ok :: "(ptr \<rightharpoonup> ptr) \<Rightarrow> frame \<Rightarrow> bool" where
  "frame_ok holder (Sema_Down s r) \<longleftrightarrow> ret_ok holder s r"
| "frame_ok holder (Sema_Down_Loop s b r) \<longleftrightarrow> ret_ok holder s r"
| "frame_ok holder (Lock_Acquired l) \<longleftrightarrow> l \<in> dom holder"
| "frame_ok holder (Lock_Up l) \<longleftrightarrow> l \<in> dom holder"
| "frame_ok holder f \<longleftrightarrow> True"

fun neutral :: "frame \<Rightarrow> bool" where
  "neutral (Set_Level b) \<longleftrightarrow> True"
| "neutral Iret \<longleftrightarrow> True"
| "neutral Kernel_Thread \<longleftrightarrow> True"
| "neutral Idle_Halt \<longleftrightarrow> True"
| "neutral f \<longleftrightarrow> False"

definition frames_ok :: "kernel \<Rightarrow> bool" where
  "frames_ok k \<longleftrightarrow> (\<forall>t. list_all (frame_ok (k_holder k)) (k_frames k t)) \<and>
     list_all neutral (k_frames k (idle_thread k)) \<and>
     (\<forall>c ws. k_conds k c = Some ws \<longrightarrow> list_all (plain_sema (k_holder k)) ws)"

definition kinv :: "frame list \<Rightarrow> kernel \<Rightarrow> bool" where
  "kinv D k \<longleftrightarrow> sched_wf k \<and> locks_ok D k \<and> frames_ok k"

lemma lock_cnt_simps [simp]:
  "lock_cnt l [] = 0" "lock_cnt l (f # fs) = (if lock_frame l f then 1 else 0) + lock_cnt l fs"
  "lock_cnt l (fs @ gs) = lock_cnt l fs + lock_cnt l gs"
  by (simp_all add: lock_cnt_def)

lemma lock_frame_simps [simp]:
  "lock_frame l (Lock_Acquired l') \<longleftrightarrow> l' = l" "lock_frame l (Lock_Up l') \<longleftrightarrow> l' = l"
  "\<not> lock_frame l (Sema_Down s r)" "\<not> lock_frame l (Sema_Down_Loop s b r)" "\<not> lock_frame l (Lock_Acquire l')"
  "\<not> lock_frame l (Lock_Release l')" "\<not> lock_frame l (Cond_Broadcast c l')"
  by (auto simp: lock_frame_def)

lemma neutral_frame: "neutral f \<Longrightarrow> \<not> lock_frame l f" "neutral f \<Longrightarrow> frame_ok h f"
  by (cases f; simp add: lock_frame_def)+

lemma neutral_frames: "list_all neutral fs \<Longrightarrow> lock_cnt l fs = 0" "list_all neutral fs \<Longrightarrow> list_all (frame_ok h) fs"
  by (induction fs) (auto simp: neutral_frame)

lemma pend_superset: "finite A \<Longrightarrow> {t. fr t \<noteq> []} \<subseteq> A \<Longrightarrow> pend fr l = (\<Sum>t\<in>A. lock_cnt l (fr t))"
  unfolding pend_def by (rule sum.mono_neutral_left) auto

lemma pend_upd:
  assumes "finite {t. fr t \<noteq> []}"
  shows "pend (fr(t := x)) l + lock_cnt l (fr t) = pend fr l + lock_cnt l x"
proof -
  let ?A = "insert t {t. fr t \<noteq> []}"
  have "pend (fr(t := x)) l = (\<Sum>u\<in>?A. lock_cnt l ((fr(t := x)) u))"
    using assms by (intro pend_superset) auto
  also have "\<dots> = lock_cnt l x + (\<Sum>u\<in>?A - {t}. lock_cnt l (fr u))"
    using assms by (subst sum.remove [of _ t]) auto
  finally have 1: "pend (fr(t := x)) l = lock_cnt l x + (\<Sum>u\<in>?A - {t}. lock_cnt l (fr u))" .
  have "pend fr l = (\<Sum>u\<in>?A. lock_cnt l (fr u))"
    using assms by (intro pend_superset) auto
  also have "\<dots> = lock_cnt l (fr t) + (\<Sum>u\<in>?A - {t}. lock_cnt l (fr u))"
    using assms by (subst sum.remove [of _ t]) auto
  finally show ?thesis using 1 by simp
qed

lemma pend_ge: "finite {t. fr t \<noteq> []} \<Longrightarrow> lock_cnt l (fr t) \<le> pend fr l"
  using pend_upd [of fr t "[]" l] by simp

text \<open>One step of a ledger: the frames of one thread and the entries of the locks change together.\<close>

lemma locks_ok_upd:
  assumes "locks_ok D k" "k_frames k' = (k_frames k)(t := x)" "dom (k_holder k') = dom (k_holder k)"
    and "\<And>l h sm. k_holder k l = Some h \<Longrightarrow> k_semas k (lock_semaphore l) = Some sm \<Longrightarrow>
      s_value sm + own h + lock_cnt l (k_frames k t) + lock_cnt l D \<le> 1 \<Longrightarrow>
      \<exists>h' sm'. k_holder k' l = Some h' \<and> k_semas k' (lock_semaphore l) = Some sm' \<and>
        s_value sm' + own h' + lock_cnt l x + lock_cnt l D' = s_value sm + own h + lock_cnt l (k_frames k t) + lock_cnt l D"
  shows "locks_ok D' k'"
proof -
  have f: "finite {t. k_frames k t \<noteq> []}" using assms(1) by (simp add: locks_ok_def)
  have "{u. k_frames k' u \<noteq> []} \<subseteq> insert t {t. k_frames k t \<noteq> []}" using assms(2) by auto
  then have f': "finite {u. k_frames k' u \<noteq> []}" using f finite_subset by fastforce
  show ?thesis unfolding locks_ok_def
  proof (intro conjI f' allI impI)
    fix l h' assume h': "k_holder k' l = Some h'"
    then obtain h where h: "k_holder k l = Some h" using assms(3) by blast
    then obtain sm where sm: "k_semas k (lock_semaphore l) = Some sm"
      "s_value sm + own h + pend (k_frames k) l + lock_cnt l D = 1"
      using assms(1) by (auto simp: locks_ok_def)
    have "s_value sm + own h + lock_cnt l (k_frames k t) + lock_cnt l D \<le> 1"
      using sm(2) pend_ge [OF f, of l t] by linarith
    from assms(4) [OF h sm(1) this] obtain sm' where "k_semas k' (lock_semaphore l) = Some sm'"
      "s_value sm' + own h' + lock_cnt l x + lock_cnt l D' = s_value sm + own h + lock_cnt l (k_frames k t) + lock_cnt l D"
      using h' by auto
    then show "\<exists>sm. k_semas k' (lock_semaphore l) = Some sm \<and> s_value sm + own h' + pend (k_frames k') l + lock_cnt l D' = 1"
      using sm(2) pend_upd [OF f, of t x l] assms(2) by auto
  qed
qed

lemma frame_ok_dom:
  assumes "dom h' = dom h" shows "plain_sema h' = plain_sema h" "frame_ok h' = frame_ok h"
proof -
  show p: "plain_sema h' = plain_sema h" using assms by (simp add: plain_sema_def fun_eq_iff)
  have "ret_ok h' s r = ret_ok h s r" for s r using assms p by (cases r) auto
  moreover have "l \<in> dom h' \<longleftrightarrow> l \<in> dom h" for l using assms by simp
  ultimately have "frame_ok h' f = frame_ok h f" for f by (cases f) (simp_all del: domIff)
  then show "frame_ok h' = frame_ok h" by (simp add: fun_eq_iff)
qed

lemma kinv_upd:
  assumes "kinv D k" "sched_wf k'" "k_frames k' = (k_frames k)(t := x)" "dom (k_holder k') = dom (k_holder k)"
    "idle_thread k' = idle_thread k" "\<And>c ws. k_conds k' c = Some ws \<Longrightarrow> list_all (plain_sema (k_holder k)) ws"
    "list_all (frame_ok (k_holder k)) x" "t = idle_thread k \<Longrightarrow> list_all neutral x"
    "\<And>l h sm. k_holder k l = Some h \<Longrightarrow> k_semas k (lock_semaphore l) = Some sm \<Longrightarrow>
      s_value sm + own h + lock_cnt l (k_frames k t) + lock_cnt l D \<le> 1 \<Longrightarrow>
      \<exists>h' sm'. k_holder k' l = Some h' \<and> k_semas k' (lock_semaphore l) = Some sm' \<and>
        s_value sm' + own h' + lock_cnt l x + lock_cnt l D' = s_value sm + own h + lock_cnt l (k_frames k t) + lock_cnt l D"
  shows "kinv D' k'"
proof -
  have "locks_ok D' k'" using locks_ok_upd [OF _ assms(3,4,9)] assms(1) by (simp add: kinv_def)
  moreover have "frames_ok k'"
    using assms(1,3,5,6,7,8) frame_ok_dom [OF assms(4)] by (auto simp: frames_ok_def kinv_def)
  ultimately show ?thesis using assms(2) by (simp add: kinv_def)
qed

lemma kinv_facts:
  assumes "kinv D k"
  shows "sched_wf k" "list_all (frame_ok (k_holder k)) (k_frames k t)"
    "list_all neutral (k_frames k (idle_thread k))" "k_conds k c = Some ws \<Longrightarrow> list_all (plain_sema (k_holder k)) ws"
    "k_holder k l = Some h \<Longrightarrow> \<exists>sm. k_semas k (lock_semaphore l) = Some sm \<and>
      s_value sm + own h + lock_cnt l D \<le> 1"
proof -
  show "sched_wf k" "list_all (frame_ok (k_holder k)) (k_frames k t)" "list_all neutral (k_frames k (idle_thread k))"
    "k_conds k c = Some ws \<Longrightarrow> list_all (plain_sema (k_holder k)) ws"
    using assms by (auto simp: kinv_def frames_ok_def)
  assume h: "k_holder k l = Some h"
  have "locks_ok D k" using assms by (simp add: kinv_def)
  with h obtain sm where sm: "k_semas k (lock_semaphore l) = Some sm"
      "s_value sm + own h + pend (k_frames k) l + lock_cnt l D = 1" unfolding locks_ok_def by blast
  have "s_value sm + own h + lock_cnt l D \<le> 1" using sm(2) by linarith
  then show "\<exists>sm. k_semas k (lock_semaphore l) = Some sm \<and> s_value sm + own h + lock_cnt l D \<le> 1"
    using sm(1) by blast
qed

text \<open>Steps that leave semaphores, locks and condition variables alone.\<close>

lemma kinv_sync:
  assumes "kinv D k" "sched_wf k'" "same_sync k k'" "k_frames k' = (k_frames k)(t := x)"
    "list_all (frame_ok (k_holder k)) x" "t = idle_thread k \<Longrightarrow> list_all neutral x"
    "\<And>l. lock_cnt l x + lock_cnt l D' = lock_cnt l (k_frames k t) + lock_cnt l D"
  shows "kinv D' k'"
proof (rule kinv_upd [OF assms(1,2,4) _ _ _ assms(5,6)])
  show "dom (k_holder k') = dom (k_holder k)" "idle_thread k' = idle_thread k" using assms(3) by (simp_all add: same_sync_def)
  show "list_all (plain_sema (k_holder k)) ws" if "k_conds k' c = Some ws" for c ws
    using that kinv_facts(4) [OF assms(1)] assms(3) by (simp add: same_sync_def)
  fix l h sm
  assume "k_holder k l = Some h" "k_semas k (lock_semaphore l) = Some sm"
  then show "\<exists>h' sm'. k_holder k' l = Some h' \<and> k_semas k' (lock_semaphore l) = Some sm' \<and>
        s_value sm' + own h' + lock_cnt l x + lock_cnt l D' = s_value sm + own h + lock_cnt l (k_frames k t) + lock_cnt l D"
    using assms(3) assms(7) [of l] by (auto simp: same_sync_def)
qed

lemma kinv_neutral:
  assumes "kinv D k" "sched_wf k'" "same_sync k k'" "k_frames k' = (k_frames k)(t := fs @ k_frames k t)"
    "list_all neutral fs" "\<And>l. lock_cnt l D = 0"
  shows "kinv [] k'"
  using kinv_facts(2,3) [OF assms(1)] neutral_frames [OF assms(5)] assms(5,6)
  by (intro kinv_sync [OF assms(1-4)]) auto

lemma kinv_quiet: "kinv D k \<Longrightarrow> quiet k k' \<Longrightarrow> kinv D k'"
  using quiet_wf [of k k'] kinv_facts [of D k]
  by (intro kinv_sync [of D k k' "running k" "k_frames k (running k)" D]) (simp_all add: quiet_def)

lemma kinv_intr [simp]: "kinv D (k\<lparr>intr_on := b\<rparr>) = kinv D k"
  by (simp add: kinv_def locks_ok_def frames_ok_def)

lemma kinv_pop:
  assumes "kinv [] k" "k_frames k (running k) = f # fs"
  shows "kinv [f] (pop_frame k)" "frame_ok (k_holder k) f" "neutral f \<or> running k \<noteq> idle_thread k"
proof -
  have l: "klists_ok {} k" using assms(1) by (simp add: kinv_def sched_wf_def)
  have "sched_wf (pop_frame k)"
    using lists_ok_frames [OF l, of "running k"] kinv_facts(1) [OF assms(1)] sched_wf_facts(1) [of k]
    by (simp add: sched_wf_def pop_frame_def)
  then show "kinv [f] (pop_frame k)"
    using kinv_facts(2) [OF assms(1), of "running k"] kinv_facts(3) [OF assms(1)] assms(2)
    by (intro kinv_sync [OF assms(1), of _ "running k" fs]) (auto simp: pop_frame_def same_sync_def)
  show "frame_ok (k_holder k) f" using kinv_facts(2) [OF assms(1), of "running k"] assms(2) by simp
  show "neutral f \<or> running k \<noteq> idle_thread k" using kinv_facts(3) [OF assms(1)] assms(2) by auto
qed

subsection \<open>Every function keeps the invariant\<close>

lemma lock_semaphore_inj [simp]: "lock_semaphore l = lock_semaphore l' \<longleftrightarrow> l = l'"
  by (simp add: lock_semaphore_def)

lemma plain_sema_neq: "plain_sema holder s \<Longrightarrow> holder l = Some h \<Longrightarrow> lock_semaphore l \<noteq> s"
  by (auto simp: plain_sema_def)

lemma kinv_debt: "kinv D k \<Longrightarrow> (\<And>l. lock_cnt l D' = lock_cnt l D) \<Longrightarrow> kinv D' k"
  by (simp add: kinv_def locks_ok_def)

lemma sema_down_loop_block_off: "sema_down_loop s b ret k = Some k' \<Longrightarrow> k_semas k s = Some sm \<Longrightarrow> s_value sm = 0 \<Longrightarrow> \<not> intr_on k"
  by (auto simp: sema_down_loop_def thread_block_def set_sema_def push_frame_def Let_def elim!: bind_eq_SomeE split: if_splits)

lemma sema_down_loop_inv:
  assumes i: "kinv D k" "\<And>l. lock_cnt l D = 0" and r: "ret_ok (k_holder k) s ret" "running k \<noteq> idle_thread k"
    and c: "sema_down_loop s b ret k = Some k'"
  shows "kinv [] k'"
proof -
  note w = kinv_facts(1) [OF i(1)]
  obtain sm where sm: "k_semas k s = Some sm" using c by (auto simp: sema_down_loop_def elim: bind_eq_SomeE)
  have fr: "list_all (frame_ok (k_holder k)) (k_frames k (running k))" by (rule kinv_facts(2) [OF i(1)])
  show ?thesis
  proof (cases "s_value sm = 0")
    case True
    obtain ws where k': "sched_wf k'" "k_semas k' = (k_semas k)(s \<mapsto> sm\<lparr>s_waiters := ws\<rparr>)" "k_holder k' = k_holder k"
      "k_conds k' = k_conds k" "idle_thread k' = idle_thread k"
      "k_frames k' = (k_frames k)(running k := Sema_Down_Loop s b ret # k_frames k (running k))"
      using sema_block_wf [OF w sema_down_loop_block_off [OF c sm True] r(2) sm True, of b ret] c by auto
    show ?thesis
      using k' r fr i(2) sm kinv_facts(4) [OF i(1)] by (intro kinv_upd [OF i(1) k'(1,6)]) auto
  next
    case False
    obtain k'': "sched_wf k'" "k_semas k' = (k_semas k)(s \<mapsto> sm\<lparr>s_value := s_value sm - 1\<rparr>)" "k_holder k' = k_holder k"
      "k_conds k' = k_conds k" "idle_thread k' = idle_thread k"
      "k_frames k' = (k_frames k)(running k := (case ret of Ret_Plain \<Rightarrow> [] | Ret_Lock l \<Rightarrow> [Lock_Acquired l]) @ k_frames k (running k))"
      using sema_take_wf [OF w sm False, of b ret] c by auto
    show ?thesis
    proof (rule kinv_upd [OF i(1) k''(1,6)])
      show "list_all (frame_ok (k_holder k)) ((case ret of Ret_Plain \<Rightarrow> [] | Ret_Lock l \<Rightarrow> [Lock_Acquired l]) @ k_frames k (running k))"
        using r fr by (cases ret) auto
      fix l h sm' assume h: "k_holder k l = Some h" "k_semas k (lock_semaphore l) = Some sm'"
      show "\<exists>h' sm''. k_holder k' l = Some h' \<and> k_semas k' (lock_semaphore l) = Some sm'' \<and>
        s_value sm'' + own h' + lock_cnt l ((case ret of Ret_Plain \<Rightarrow> [] | Ret_Lock l \<Rightarrow> [Lock_Acquired l]) @ k_frames k (running k)) + lock_cnt l [] =
        s_value sm' + own h + lock_cnt l (k_frames k (running k)) + lock_cnt l D"
        using h r(1) False sm i(2) plain_sema_neq [of "k_holder k" s l h] by (cases ret) (auto simp: k'')
    qed (use k'' r(2) kinv_facts(4) [OF i(1)] in auto)
  qed
qed

lemma sema_down_inv:
  assumes "kinv D k" "\<And>l. lock_cnt l D = 0" "ret_ok (k_holder k) s ret" "running k \<noteq> idle_thread k"
    "sema_down s ret k = Some k'"
  shows "kinv [] k'"
  using sema_down_loop_inv [of D "intr_disable k" s ret "intr_get_level k" k'] assms
  by (auto simp: sema_down_def intr_disable_def elim!: bind_eq_SomeE split: if_splits)

text \<open>\<^verbatim>\<open>sema_up\<close>, on a plain semaphore or as the end of \<^verbatim>\<open>lock_release\<close>.\<close>

lemma sema_up_inv:
  assumes i: "kinv D k" and s: "plain_sema (k_holder k) s \<and> (\<forall>l. lock_cnt l D = 0) \<or>
      (\<exists>l. D = [Lock_Up l] \<and> s = lock_semaphore l \<and> l \<in> dom (k_holder k))" and c: "sema_up s k = Some k'"
  shows "kinv [] k'"
proof -
  note w = kinv_facts(1) [OF i]
  obtain sm where sm: "k_semas k s = Some sm" using c by (auto simp: sema_up_def Let_def elim!: bind_eq_SomeE)
  obtain ws fs where k': "sched_wf k'" "k_semas k' = (k_semas k)(s \<mapsto> \<lparr>s_value = usz (s_value sm + 1), s_waiters = ws\<rparr>)"
    "k_holder k' = k_holder k" "k_conds k' = k_conds k" "idle_thread k' = idle_thread k"
    "k_frames k' = (k_frames k)(running k := fs @ k_frames k (running k))" and fs: "list_all neutral fs"
  proof -
    from sema_up_wf [OF w sm] obtain k1 ws fs where 1: "sema_up s k = Some k1" "sched_wf k1"
      "k_semas k1 = (k_semas k)(s \<mapsto> \<lparr>s_value = usz (s_value sm + 1), s_waiters = ws\<rparr>)"
      "k_holder k1 = k_holder k" "k_conds k1 = k_conds k" "idle_thread k1 = idle_thread k"
      "k_frames k1 = (k_frames k)(running k := fs @ k_frames k (running k))" "fs = [] \<or> (\<exists>b. fs = [Set_Level b])" by blast
    have "k1 = k'" using 1(1) c by simp
    moreover have "list_all neutral fs" using 1(8) by auto
    ultimately show ?thesis using that 1 by blast
  qed
  show ?thesis
  proof (rule kinv_upd [OF i k'(1,6)])
    show "list_all (frame_ok (k_holder k)) (fs @ k_frames k (running k))"
      using neutral_frames(2) [OF fs] kinv_facts(2) [OF i] by simp
    show "list_all neutral (fs @ k_frames k (running k))" if "running k = idle_thread k"
      using fs kinv_facts(3) [OF i] that by simp
    fix l h sm' assume h: "k_holder k l = Some h" "k_semas k (lock_semaphore l) = Some sm'"
      "s_value sm' + own h + lock_cnt l (k_frames k (running k)) + lock_cnt l D \<le> 1"
    show "\<exists>h' sm''. k_holder k' l = Some h' \<and> k_semas k' (lock_semaphore l) = Some sm'' \<and>
        s_value sm'' + own h' + lock_cnt l (fs @ k_frames k (running k)) + lock_cnt l [] =
        s_value sm' + own h + lock_cnt l (k_frames k (running k)) + lock_cnt l D"
      using h s sm neutral_frames(1) [OF fs, of l] plain_sema_neq [of "k_holder k" s l h] by (auto simp: k' usz_def)
  qed (use k' kinv_facts(4) [OF i] in auto)
qed

text \<open>Pushing a frame that is neither a claim on a lock nor out of place.\<close>

lemma kinv_push:
  assumes "kinv D k" "frame_ok (k_holder k) f" "neutral f \<or> running k \<noteq> idle_thread k"
    "\<And>l. (if lock_frame l f then 1 else 0) + lock_cnt l D' = lock_cnt l D"
  shows "kinv D' (push_frame f k)"
proof -
  have l: "klists_ok {} k" using assms(1) by (simp add: kinv_def sched_wf_def)
  have w: "sched_wf (push_frame f k)"
    using lists_ok_frames [OF l, of "running k"] kinv_facts(1) [OF assms(1)] sched_wf_facts(1) [of k]
    by (simp add: sched_wf_def push_frame_def)
  show ?thesis
  proof (rule kinv_sync [OF assms(1) w])
    show "k_frames (push_frame f k) = (k_frames k)(running k := f # k_frames k (running k))" by (simp add: push_frame_def)
    show "lock_cnt l (f # k_frames k (running k)) + lock_cnt l D' = lock_cnt l (k_frames k (running k)) + lock_cnt l D" for l
      using assms(4) [of l] by simp
  qed (use assms(2,3) kinv_facts(2,3) [OF assms(1)] in \<open>auto simp: push_frame_def same_sync_def\<close>)
qed

text \<open>Writing the \<^verbatim>\<open>holder\<close> field moves the claim between the field and the executing thread.\<close>

lemma kinv_holder:
  assumes i: "kinv D k" and l: "l \<in> dom (k_holder k)"
    and d: "\<And>l'. l' \<noteq> l \<Longrightarrow> lock_cnt l' D' = lock_cnt l' D"
    "own t + lock_cnt l D' = own (the (k_holder k l)) + lock_cnt l D"
  shows "kinv D' (set_holder l t k)"
proof -
  note w = kinv_facts(1) [OF i]
  have "sched_wf (set_holder l t k)" using w by (simp add: sched_wf_def set_holder_def)
  then show ?thesis
  proof (rule kinv_upd [OF i, of _ "running k" "k_frames k (running k)"])
    show "dom (k_holder (set_holder l t k)) = dom (k_holder k)" using l by (auto simp: set_holder_def)
    fix l' h sm assume h: "k_holder k l' = Some h" "k_semas k (lock_semaphore l') = Some sm"
    show "\<exists>h' sm'. k_holder (set_holder l t k) l' = Some h' \<and> k_semas (set_holder l t k) (lock_semaphore l') = Some sm' \<and>
        s_value sm' + own h' + lock_cnt l' (k_frames k (running k)) + lock_cnt l' D' =
        s_value sm + own h + lock_cnt l' (k_frames k (running k)) + lock_cnt l' D"
      using h d(2) d(1) [of l'] by (cases "l' = l") (auto simp: set_holder_def)
  qed (use kinv_facts(2-4) [OF i] in \<open>auto simp: set_holder_def\<close>)
qed

lemma current_running: "thread_current k = Some c \<Longrightarrow> c = running k"
  by (auto simp: thread_current_def elim!: bind_eq_SomeE split: if_splits)

lemma held_iff: "lock_held_by_current_thread l k = Some b \<Longrightarrow> \<exists>h. k_holder k l = Some h \<and> b = (h = running k)"
  by (auto simp: lock_held_by_current_thread_def elim!: bind_eq_SomeE dest: current_running)

lemma quiet_same: "quiet k k' \<Longrightarrow> k_holder k' = k_holder k \<and> running k' = running k \<and> idle_thread k' = idle_thread k"
  by (simp add: quiet_def same_sync_def)

lemma lock_acquire_inv:
  assumes i: "kinv D k" "\<And>l. lock_cnt l D = 0" "running k \<noteq> idle_thread k" and c: "lock_acquire l k = Some k'"
  shows "kinv [] k'"
proof -
  from c obtain k1 h where h: "k_holder k l = Some h" and q: "quiet k k1"
    and k': "k' = push_frame (Sema_Down (lock_semaphore l) (Ret_Lock l)) k1"
    unfolding lock_acquire_def
    by (auto elim!: bind_eq_SomeE split: if_splits) (blast intro: quiet_donate_priority quiet_refl)+
  show ?thesis unfolding k'
    using h quiet_same [OF q] i by (intro kinv_push [OF kinv_quiet [OF i(1) q]]) auto
qed

lemma lock_acquired_inv:
  assumes i: "kinv [Lock_Acquired l] k" "l \<in> dom (k_holder k)" and c: "lock_acquired l k = Some k'"
  shows "kinv [] k'"
proof -
  note w = kinv_facts(1) [OF i(1)]
  obtain h where h: "k_holder k l = Some h" using i(2) by auto
  have "own h = 0" using kinv_facts(5) [OF i(1) h] by auto
  then have "kinv [] (set_holder l (running k) k)"
    using h sched_wf_facts(2) [OF w] by (intro kinv_holder [OF i]) (auto simp: own_def)
  moreover have "quiet (set_holder l (running k) k) k'"
    using c sched_wf_facts(3) [OF w] by (auto simp: lock_acquired_def dest: quiet_upd)
  ultimately show ?thesis by (rule kinv_quiet)
qed

lemma lock_release_inv:
  assumes i: "kinv D k" "\<And>l. lock_cnt l D = 0" "running k \<noteq> idle_thread k" and c: "lock_release l k = Some k'"
  shows "kinv [] k'"
proof -
  note w = kinv_facts(1) [OF i(1)]
  from c obtain k1 where h: "k_holder k l = Some (running k)" and q: "quiet k k1"
    and k': "k' = push_frame (Lock_Up l) (set_holder l NULL k1)"
    unfolding lock_release_def
    by (auto elim!: bind_eq_SomeE split: if_splits dest!: held_iff) (blast intro: quiet_remove_priority)
  have "kinv [Lock_Up l] (set_holder l NULL k1)"
    using h quiet_same [OF q] i(2) sched_wf_facts(2) [OF w]
    by (intro kinv_holder [OF kinv_quiet [OF i(1) q]]) (auto simp: own_def)
  then show ?thesis unfolding k'
    using h quiet_same [OF q] i(3) by (intro kinv_push) (auto simp: set_holder_def)
qed

lemma sema_try_down_eff:
  assumes w: "sched_wf k" and c: "sema_try_down s k = Some (k', b)"
  shows "\<exists>sm. k_semas k s = Some sm \<and> b = (s_value sm > 0) \<and> sched_wf k' \<and>
    k' = (if b then set_sema s (sm\<lparr>s_value := s_value sm - 1\<rparr>) k else k)"
proof -
  obtain sm where sm: "k_semas k s = Some sm" using c by (auto simp: sema_try_down_def Let_def elim!: bind_eq_SomeE)
  have l: "klists_ok {} k" using w by (simp add: sched_wf_def)
  have w': "sched_wf (set_sema s (sm\<lparr>s_value := s_value sm - 1\<rparr>) k)"
    using lists_ok_sema_value [OF l sm, of "sm\<lparr>s_value := s_value sm - 1\<rparr>"] w by (simp add: sched_wf_def set_sema_def)
  have "k' = (if s_value sm > 0 then set_sema s (sm\<lparr>s_value := s_value sm - 1\<rparr>) k else k)" "b = (s_value sm > 0)"
    using c sm sched_wf_facts(4) [OF w]
    by (auto simp: sema_try_down_def intr_set_level_def intr_enable_def intr_disable_def intr_context_def intr_get_level_def
        set_sema_def Let_def split: if_splits elim!: bind_eq_SomeE)
  then show ?thesis using sm w w' by auto
qed

lemma kinv_take:
  assumes i: "kinv D k" and s: "k_semas k s = Some sm" "s_value sm > 0"
    and w: "sched_wf (set_sema s (sm\<lparr>s_value := s_value sm - 1\<rparr>) k)"
    and d: "plain_sema (k_holder k) s \<and> D' = D \<or> (\<exists>l. s = lock_semaphore l \<and> D' = Lock_Acquired l # D)"
  shows "kinv D' (set_sema s (sm\<lparr>s_value := s_value sm - 1\<rparr>) k)" (is "kinv D' ?k")
proof (rule kinv_upd [OF i w, of "running k" "k_frames k (running k)"])
  fix l h sm' assume h: "k_holder k l = Some h" "k_semas k (lock_semaphore l) = Some sm'"
  show "\<exists>h' sm''. k_holder ?k l = Some h' \<and> k_semas ?k (lock_semaphore l) = Some sm'' \<and>
        s_value sm'' + own h' + lock_cnt l (k_frames k (running k)) + lock_cnt l D' =
        s_value sm' + own h + lock_cnt l (k_frames k (running k)) + lock_cnt l D"
    using d s h plain_sema_neq [of "k_holder k" s l h] by (auto simp: set_sema_def)
qed (use kinv_facts(2-4) [OF i] in \<open>auto simp: set_sema_def\<close>)

lemma sema_try_down_inv:
  assumes i: "kinv [] k" "plain_sema (k_holder k) s" and c: "sema_try_down s k = Some (k', b)"
  shows "kinv [] k'"
proof -
  obtain sm where k': "k_semas k s = Some sm" "b = (s_value sm > 0)" "sched_wf k'"
    "k' = (if b then set_sema s (sm\<lparr>s_value := s_value sm - 1\<rparr>) k else k)"
    using sema_try_down_eff [OF kinv_facts(1) [OF i(1)] c] by blast
  show ?thesis
  proof (cases b)
    case True
    then have e: "k' = set_sema s (sm\<lparr>s_value := s_value sm - 1\<rparr>) k" "s_value sm > 0" using k'(2,4) by simp_all
    then show ?thesis using kinv_take [OF i(1) k'(1) e(2), of "[]"] k'(3) i(2) by simp
  qed (use k' i in simp)
qed

lemma lock_try_acquire_inv:
  assumes i: "kinv [] k" and c: "lock_try_acquire l k = Some (k', b)"
  shows "kinv [] k'"
proof -
  from c obtain k1 b1 h where h: "k_holder k l = Some h" and t: "sema_try_down (lock_semaphore l) k = Some (k1, b1)"
    and k1: "(if b1 then do { cur \<leftarrow> thread_current k1; Some (set_holder l cur k1, True) } else Some (k1, False)) = Some (k', b)"
    unfolding lock_try_acquire_def by (auto elim!: bind_eq_SomeE split: if_splits dest!: held_iff)
  obtain sm where k': "k_semas k (lock_semaphore l) = Some sm" "b1 = (s_value sm > 0)" "sched_wf k1"
    "k1 = (if b1 then set_sema (lock_semaphore l) (sm\<lparr>s_value := s_value sm - 1\<rparr>) k else k)"
    using sema_try_down_eff [OF kinv_facts(1) [OF i] t] by blast
  show ?thesis
  proof (cases b1)
    case True
    then have e: "k1 = set_sema (lock_semaphore l) (sm\<lparr>s_value := s_value sm - 1\<rparr>) k" "s_value sm > 0"
      using k'(2,4) by simp_all
    then have i1: "kinv [Lock_Acquired l] k1"
      using kinv_take [OF i k'(1) e(2), of "[Lock_Acquired l]"] k'(3) by simp
    have h1: "k_holder k1 l = Some h" using k'(4) h True by (simp add: set_sema_def)
    have "own h = 0" using kinv_facts(5) [OF i1 h1] by auto
    moreover have "k' = set_holder l (running k1) k1" using k1 True sched_wf_facts(3) [OF k'(3)] by simp
    ultimately show ?thesis
      using h1 sched_wf_facts(2) [OF k'(3)] by (auto simp: own_def intro!: kinv_holder [OF i1])
  next
    case False
    then show ?thesis using k1 k' i by simp
  qed
qed

lemma kinv_conds:
  assumes "kinv D k" "\<And>c ws. cs c = Some ws \<Longrightarrow> list_all (plain_sema (k_holder k)) ws"
  shows "kinv D (k\<lparr>k_conds := cs\<rparr>)"
  using assms by (auto simp: kinv_def locks_ok_def frames_ok_def sched_wf_def)

lemma kinv_sema_init:
  assumes i: "kinv D k" and s: "plain_sema (k_holder k) s" "\<And>sm. k_semas k s = Some sm \<Longrightarrow> s_waiters sm = []"
  shows "kinv D (sema_init s v k)"
proof -
  have l: "klists_ok {} k" using i by (simp add: kinv_def sched_wf_def)
  have w: "sched_wf (sema_init s v k)"
    using lists_ok_sema_init [OF l, of s v] s(2) kinv_facts(1) [OF i] by (simp add: sched_wf_def sema_init_def)
  show ?thesis
  proof (rule kinv_upd [OF i w, of "running k" "k_frames k (running k)"])
    fix l h sm' assume h: "k_holder k l = Some h" "k_semas k (lock_semaphore l) = Some sm'"
    show "\<exists>h' sm''. k_holder (sema_init s v k) l = Some h' \<and> k_semas (sema_init s v k) (lock_semaphore l) = Some sm'' \<and>
        s_value sm'' + own h' + lock_cnt l (k_frames k (running k)) + lock_cnt l D =
        s_value sm' + own h + lock_cnt l (k_frames k (running k)) + lock_cnt l D"
      using h plain_sema_neq [OF s(1) h(1)] by (simp add: sema_init_def)
  qed (use kinv_facts(2-4) [OF i] in \<open>auto simp: sema_init_def\<close>)
qed

lemma cond_wait_inv:
  assumes i: "kinv [] k" "running k \<noteq> idle_thread k" and w: "call_ok (C_Cond_Wait c l w) k" and c: "cond_wait c l w k = Some k'"
  shows "kinv [] k'"
proof -
  from c obtain ws where ws: "k_conds k c = Some ws" and k': "k' = push_frame (Lock_Release l) (push_frame (Sema_Down w Ret_Plain)
      (push_frame (Lock_Acquire l) ((sema_init w 0 k)\<lparr>k_conds := (k_conds k)(c \<mapsto> ws @ [w])\<rparr>)))"
    unfolding cond_wait_def by (auto simp: sema_init_def Let_def elim!: bind_eq_SomeE split: if_splits)
  have "kinv [] (sema_init w 0 k)"
    using w by (intro kinv_sema_init [OF i(1)]) (auto split: option.splits)
  then have "kinv [] ((sema_init w 0 k)\<lparr>k_conds := (k_conds k)(c \<mapsto> ws @ [w])\<rparr>)"
    using w ws kinv_facts(4) [OF i(1)] by (intro kinv_conds) (auto simp: sema_init_def split: if_splits)
  then show ?thesis unfolding k'
    using w i(2) by (intro kinv_push) (auto simp: push_frame_def sema_init_def)
qed

lemma cond_signal_inv:
  assumes i: "kinv D k" "\<And>l. lock_cnt l D = 0" and c: "cond_signal c l k = Some k'"
  shows "kinv [] k'"
proof -
  from c obtain ws where ws: "k_conds k c = Some ws" and k': "if ws = [] then k' = k else
      sema_up (hd (ssort (thread_semaphore_comparison k) ws))
        (k\<lparr>k_conds := (k_conds k)(c \<mapsto> tl (ssort (thread_semaphore_comparison k) ws))\<rparr>) = Some k'"
    unfolding cond_signal_def by (auto simp: Let_def elim!: bind_eq_SomeE split: if_splits)
  let ?ws = "ssort (thread_semaphore_comparison k) ws"
  have p: "list_all (plain_sema (k_holder k)) ?ws" using kinv_facts(4) [OF i(1) ws] by (simp add: list_all_iff)
  show ?thesis
  proof (cases "ws = []")
    case False
    then have n: "?ws \<noteq> []" by (metis set_empty set_ssort)
    have "kinv D (k\<lparr>k_conds := (k_conds k)(c \<mapsto> tl ?ws)\<rparr>)"
      using kinv_facts(4) [OF i(1)] p by (intro kinv_conds [OF i(1)]) (auto simp: list_all_iff split: if_splits dest: list.set_sel(2) [OF n])
    then show ?thesis
      by (rule sema_up_inv) (use False k' p hd_in_set [OF n] i(2) in \<open>auto simp: list_all_iff\<close>)
  qed (use k' kinv_debt [OF i(1), of "[]"] i(2) in simp)
qed

lemma cond_broadcast_inv:
  assumes i: "kinv D k" "\<And>l. lock_cnt l D = 0" "running k \<noteq> idle_thread k" and c: "cond_broadcast c l k = Some k'"
  shows "kinv [] k'"
proof -
  have "kinv [] (push_frame (Cond_Broadcast c l) k)" using i by (intro kinv_push [OF i(1)]) auto
  then show ?thesis
    using c cond_signal_inv [of "[]"] kinv_debt [OF i(1), of "[]"] i(2)
    unfolding cond_broadcast_def by (auto elim!: bind_eq_SomeE split: if_splits)
qed

lemma thread_set_priority_inv:
  assumes i: "kinv [] k" and c: "thread_set_priority p k = Some k'"
  shows "kinv [] k'"
proof (cases "thread_mlfqs k")
  case False
  then obtain cur k1 k2 where s: "thread_current k = Some cur" "upd_thread cur (\<lambda>th. th\<lparr>t_base_priority := p\<rparr>) k = Some k1"
    "update_priority cur k1 = Some k2"
    "(if ready_list k2 \<noteq> [] \<and> prio k2 (hd (ready_list k2)) > prio k2 cur then thread_yield k2 else Some k2) = Some k'"
    using c unfolding thread_set_priority_def by (auto elim!: bind_eq_SomeE)
  have "quiet k k1" using quiet_upd [OF s(2)] by simp
  then have i2: "kinv [] k2" using kinv_quiet [OF i] quiet_update_priority [OF s(3)] quiet_trans by blast
  show ?thesis
  proof (cases "ready_list k2 \<noteq> [] \<and> prio k2 (hd (ready_list k2)) > prio k2 cur")
    case True
    then have "thread_yield k2 = Some k'" using s(4) by simp
    then have "sched_wf k'" "same_sync k2 k'"
      "k_frames k' = (k_frames k2)(running k2 := [Set_Level (intr_on k2)] @ k_frames k2 (running k2))"
      using thread_yield_wf [OF kinv_facts(1) [OF i2]] by auto
    then show ?thesis by (rule kinv_neutral [OF i2]) auto
  next
    case False
    then have "k' = k2" using s(4) by auto
    then show ?thesis using i2 by simp
  qed
qed (use c i in \<open>simp add: thread_set_priority_def\<close>)

lemma set_level_neutral: "list_all (\<lambda>f. \<exists>b. f = Set_Level b) fs \<Longrightarrow> list_all neutral fs"
  by (induction fs) auto

lemma thread_create_inv:
  assumes i: "kinv [] k" and p: "k_threads k page = None" and c: "thread_create n pr page k = Some (k', tid)"
  shows "kinv [] k'"
proof -
  from thread_create_wf [OF kinv_facts(1) [OF i] p c] obtain fs where w: "sched_wf k'" "same_sync k k'"
    and fs: "list_all (\<lambda>f. \<exists>b. f = Set_Level b) fs"
    and fr: "k_frames k' = k_frames k \<and> page = NULL \<or>
      page \<noteq> running k \<and> k_frames k' = (k_frames k)(page := [Kernel_Thread], running k := fs @ k_frames k (running k))"
    by blast
  note wf = kinv_facts(1) [OF i]
  show ?thesis
  proof (cases "k_frames k' = k_frames k")
    case True
    then show ?thesis by (intro kinv_neutral [OF i w, of "running k" "[]"]) auto
  next
    case False
    let ?k1 = "k\<lparr>k_frames := (k_frames k)(page := [Kernel_Thread])\<rparr>"
    have pg: "page \<noteq> running k" and f': "k_frames k' = (k_frames k)(page := [Kernel_Thread], running k := fs @ k_frames k (running k))"
      using fr False by auto
    have l: "threads_ok (status_of k) (idle_thread k) (k_frames k)" using wf by (simp add: sched_wf_def lists_ok_def)
    have pn: "status_of k page = None" using p by (simp add: status_of_def)
    then have p0: "k_frames k page = []" "page \<noteq> idle_thread k" using l by (auto simp: threads_ok_def)
    have "locks_ok [] ?k1" "frames_ok ?k1"
    proof -
      show "locks_ok [] ?k1"
        by (rule locks_ok_upd [of "[]" k _ page "[Kernel_Thread]"]) (use i p0 in \<open>auto simp: kinv_def lock_frame_def\<close>)
      show "frames_ok ?k1" using i p0 by (auto simp: kinv_def frames_ok_def)
    qed
    then have "locks_ok [] k'" "frames_ok k'"
    proof -
      assume lk: "locks_ok [] ?k1" and fk: "frames_ok ?k1"
      have n: "list_all neutral fs" using set_level_neutral [OF fs] .
      show "locks_ok [] k'"
        by (rule locks_ok_upd [OF lk, of _ "running k" "fs @ k_frames k (running k)"])
          (use f' pg w(2) neutral_frames(1) [OF n] in \<open>auto simp: same_sync_def fun_eq_iff\<close>)
      show "frames_ok k'"
        using fk f' pg w(2) n neutral_frames(2) [OF n] kinv_facts(2) [OF i, of "running k"]
        by (auto simp: frames_ok_def same_sync_def)
    qed
    then show ?thesis using w by (simp add: kinv_def)
  qed
qed

lemma exec_call_inv:
  assumes i: "kinv [] k" "k_frames k (running k) = []" "running k \<noteq> idle_thread k" "call_ok c k" and c: "exec_call c k = Some k'"
  shows "kinv [] k'"
proof (cases c)
  case C_Yield
  then show ?thesis
    using thread_yield_wf [OF kinv_facts(1) [OF i(1)]] c i(2)
    by (intro kinv_neutral [OF i(1), of k' "running k" "[Set_Level (intr_on k)]"]) auto
next
  case C_Exit
  have "running k \<in> set (all_list k)"
    using c C_Exit by (auto simp: thread_exit_def Let_def elim!: bind_eq_SomeE split: if_splits dest!: current_running)
  then show ?thesis
    using thread_exit_wf [OF kinv_facts(1) [OF i(1)] i(3,2)] c C_Exit
    by (intro kinv_neutral [OF i(1), of k' "running k" "[]"]) auto
next
  case (C_Sleep n)
  show ?thesis
  proof (cases "n \<le> 0")
    case False
    then have "thread_sleep (s64 (timer_ticks k + n)) k = Some k'"
      using c C_Sleep by (auto simp: timer_sleep_def split: if_splits)
    then show ?thesis
      using thread_sleep_wf [OF kinv_facts(1) [OF i(1)] i(3), of "s64 (timer_ticks k + n)"]
      by (intro kinv_neutral [OF i(1), of k' "running k" "[Set_Level (intr_on k)]"]) auto
  qed (use c C_Sleep i in \<open>simp add: timer_sleep_def\<close>)
qed (use i c in \<open>auto intro: thread_create_inv thread_set_priority_inv sema_down_inv [OF i(1), of _ Ret_Plain] sema_try_down_inv
      sema_up_inv [OF i(1)] lock_acquire_inv [OF i(1)] lock_try_acquire_inv lock_release_inv [OF i(1)] cond_wait_inv
      cond_signal_inv [OF i(1)] cond_broadcast_inv [OF i(1)]\<close>)

lemma exec_frame_inv:
  assumes i: "kinv [f] k" "frame_ok (k_holder k) f" "neutral f \<or> running k \<noteq> idle_thread k" and c: "exec_frame f k = Some k'"
  shows "kinv [] k'"
proof (cases "neutral f")
  case True
  have "kinv [] k" by (rule kinv_debt [OF i(1)]) (simp add: neutral_frame(1) [OF True])
  moreover have "\<exists>b. k' = k\<lparr>intr_on := b\<rparr>"
    using True c by (cases f) (auto simp: intr_set_level_def intr_enable_def intr_disable_def kernel_thread_def elim!: bind_eq_SomeE split: if_splits)
  ultimately show ?thesis by auto
next
  case False
  have "kinv [] k'" if "f = Lock_Up l" for l
    by (rule sema_up_inv [OF i(1), of "lock_semaphore l"]) (use that i c in auto)
  with False show ?thesis
    using i c by (cases f) (auto intro: sema_down_inv [OF i(1)] sema_down_loop_inv [OF i(1)] lock_acquire_inv [OF i(1)]
        lock_acquired_inv lock_release_inv [OF i(1)] cond_broadcast_inv [OF i(1)])
qed

lemma kstep_inv: "kstep k k' \<Longrightarrow> kinv [] k \<Longrightarrow> kinv [] k'"
proof (induction rule: kstep.induct)
  case (call k c k')
  then show ?case using exec_call_inv by blast
next
  case (frame k f fs k')
  note p = kinv_pop [OF frame.prems frame.hyps(1)]
  show ?case using exec_frame_inv [OF p(1) _ _ frame.hyps(2)] p(2,3) by (simp add: pop_frame_def)
next
  case (idle k k')
  then show ?case
    using idle_loop_wf [OF kinv_facts(1) [OF idle.prems]]
    by (intro kinv_neutral [OF idle.prems, of k' "running k" "[Idle_Halt]"]) auto
next
  case (tick k k')
  from intr_handler_timer_wf [OF kinv_facts(1) [OF tick.prems] tick.hyps(2)] obtain fs where
    "sched_wf k'" "same_sync k k'" and fs: "list_all (\<lambda>f. \<exists>b. f = Set_Level b) fs"
    "k_frames k' = (k_frames k)(running k := (fs @ [Iret]) @ k_frames k (running k))" by auto
  then show ?case using set_level_neutral [OF fs(1)] by (intro kinv_neutral [OF tick.prems _ _ fs(2)]) auto
qed

lemma ksteps_inv: "kstep\<^sup>*\<^sup>* k k' \<Longrightarrow> kinv [] k \<Longrightarrow> kinv [] k'"
  by (induction rule: rtranclp_induct) (auto intro: kstep_inv)

subsection \<open>Booting\<close>

definition thread_init :: "ptr \<Rightarrow> ptr \<Rightarrow> kernel \<Rightarrow> kernel option" where
  "thread_init tid_lock self k = do {
     ASSERT (\<not> intr_get_level k);
     let k = lock_init tid_lock (k\<lparr>load_avg := 0\<rparr>);
     let k = k\<lparr>ready_list := [], all_list := [], sleeping_list := [], initial_thread := self, running := self\<rparr>;
     k \<leftarrow> init_thread self ''main'' PRI_DEFAULT k;
     k \<leftarrow> set_status self THREAD_RUNNING k;
     let (k, tid) = allocate_tid k;
     upd_thread self (\<lambda>th. th\<lparr>t_tid := tid\<rparr>) k }"

text \<open>\<open>idle_started\<close> is the address of the semaphore on the caller's stack, \<open>page\<close> the page of the idle thread.\<close>

definition thread_start :: "ptr \<Rightarrow> ptr \<Rightarrow> kernel \<Rightarrow> kernel option" where
  "thread_start idle_started page k = do {
     let k = sema_init idle_started 0 k;
     r \<leftarrow> thread_create ''idle'' PRI_MIN page k;
     k \<leftarrow> intr_enable (fst r);
     sema_down idle_started Ret_Plain k }"

text \<open>The idle thread up to its loop.\<close>

definition idle_begin :: "ptr \<Rightarrow> kernel \<Rightarrow> kernel option" where
  "idle_begin idle_started k = do {
     cur \<leftarrow> thread_current k;
     k \<leftarrow> upd_thread cur (\<lambda>th. th\<lparr>t_nice := 0, t_recent_cpu := 0, t_priority := PRI_MIN\<rparr>) (k\<lparr>idle_thread := cur\<rparr>);
     sema_up idle_started k }"

text \<open>The memory of the kernel before \<^verbatim>\<open>thread_init\<close>: static variables are zero, no object exists yet.\<close>

definition kernel_bss :: "bool \<Rightarrow> kernel" where
  "kernel_bss mlfqs = \<lparr>k_threads = Map.empty, k_frames = (\<lambda>_. []), running = NULL, ready_list = [], all_list = [],
     sleeping_list = [], idle_thread = NULL, initial_thread = NULL, intr_on = False, in_external_intr = False,
     yield_on_return = False, thread_ticks = 0, idle_ticks = 0, kernel_ticks = 0, user_ticks = 0, load_avg = 0,
     thread_mlfqs = mlfqs, next_tid = 1, k_ticks = 0, next_wakeup_tick = 0, k_semas = Map.empty, k_holder = Map.empty,
     k_conds = Map.empty, donor_word = (\<lambda>_. 0)\<rparr>"

text \<open>
  Booting: \<^verbatim>\<open>thread_init\<close>, \<^verbatim>\<open>timer_init\<close>, one further lock and condition variable, \<^verbatim>\<open>thread_start\<close>, whose
  \<^verbatim>\<open>sema_down\<close> switches to the idle thread; that one starts in \<^verbatim>\<open>kernel_thread\<close>.
\<close>

definition boot :: "bool \<Rightarrow> kernel option" where
  "boot mlfqs = do {
     k \<leftarrow> thread_init 100 4096 (kernel_bss mlfqs);
     let k = cond_init 300 (lock_init 200 (timer_init k));
     k \<leftarrow> thread_start 400 8192 k;
     k \<leftarrow> kernel_thread (pop_frame k);
     idle_begin 400 k }"

lemmas boot_eval =
  boot_def thread_init_def thread_start_def idle_begin_def kernel_bss_def timer_init_def lock_init_def cond_init_def
  sema_init_def set_holder_def init_thread_def allocate_tid_def upd_thread_def thread_create_def alloc_frame_def
  thread_unblock_def thread_yield_def thread_current_def is_thread_def status_of_def set_status_def kernel_thread_def
  intr_enable_def intr_disable_def intr_set_level_def intr_get_level_def intr_context_def push_frame_def pop_frame_def
  sema_down_def sema_down_loop_def sema_up_def set_sema_def thread_block_def schedule_def next_thread_to_run_def
  thread_schedule_tail_def thread_priority_comparison_def prio_def lock_semaphore_def PRI_MIN_def PRI_MAX_def
  PRI_DEFAULT_def INT64_MAX_def usz_def Let_def mlfqs_priority_of_def

definition booted :: kernel where
  "booted = the (boot False)"

lemma boot_result:
  "boot False = Some \<lparr>k_threads =
     [8192 \<mapsto> \<lparr>t_tid = 2, t_status = THREAD_READY, t_name = ''idle'', t_stack = 12244, t_priority = 0, t_base_priority = 0,
        t_donors = [], t_waiting_on = 0, t_pagedir = 0, t_nice = 0, t_recent_cpu = 0, t_wakeup_tick = 0\<rparr>,
      4096 \<mapsto> \<lparr>t_tid = 1, t_status = THREAD_RUNNING, t_name = ''main'', t_stack = 8192, t_priority = 31, t_base_priority = 31,
        t_donors = [], t_waiting_on = 0, t_pagedir = 0, t_nice = 0, t_recent_cpu = 0, t_wakeup_tick = 0\<rparr>],
     k_frames = (\<lambda>_. [])(4096 := [Sema_Down_Loop 400 True Ret_Plain], 8192 := [Set_Level True]),
     running = 4096, ready_list = [], all_list = [4096, 8192], sleeping_list = [], idle_thread = 8192, initial_thread = 4096,
     intr_on = False, in_external_intr = False, yield_on_return = False, thread_ticks = 0, idle_ticks = 0, kernel_ticks = 0,
     user_ticks = 0, load_avg = 0, thread_mlfqs = False, next_tid = 3, k_ticks = 0, next_wakeup_tick = 9223372036854775807,
     k_semas = [104 \<mapsto> \<lparr>s_value = 1, s_waiters = []\<rparr>, 204 \<mapsto> \<lparr>s_value = 1, s_waiters = []\<rparr>,
       400 \<mapsto> \<lparr>s_value = 1, s_waiters = []\<rparr>],
     k_holder = [100 \<mapsto> 0, 200 \<mapsto> 0], k_conds = [300 \<mapsto> []], donor_word = \<lambda>_. 0\<rparr>"
  by (simp add: boot_eval)

lemma boot_kinv: "kinv [] booted"
proof -
  have st: "status_of booted = [8192 \<mapsto> THREAD_READY, 4096 \<mapsto> THREAD_RUNNING]"
    by (auto simp: booted_def boot_result status_of_def fun_eq_iff)
  have "sched_wf booted"
    unfolding sched_wf_def lists_ok_def st
    by (auto simp: booted_def boot_result lists_defs waits_on_def split: if_splits option.splits)
  moreover have "locks_ok [] booted"
  proof -
    have f: "{t. k_frames booted t \<noteq> []} = {4096, 8192}" by (auto simp: booted_def boot_result)
    then show ?thesis
      by (auto simp: locks_ok_def pend_def booted_def boot_result lock_frame_def own_def lock_semaphore_def split: if_splits)
  qed
  moreover have "frames_ok booted"
    by (auto simp: frames_ok_def booted_def boot_result plain_sema_def lock_semaphore_def split: if_splits)
  ultimately show ?thesis by (simp add: kinv_def)
qed

text \<open>Steps as a function, to follow a run.\<close>

datatype kevent = E_Call kcall | E_Frame | E_Idle | E_Tick

fun do_event :: "kevent \<Rightarrow> kernel \<Rightarrow> kernel option" where
  "do_event (E_Call c) k = (if k_frames k (running k) = [] \<and> running k \<noteq> idle_thread k \<and> intr_on k \<and> call_ok c k
     then exec_call c k else None)"
| "do_event E_Frame k = (case k_frames k (running k) of [] \<Rightarrow> None | f # fs \<Rightarrow> exec_frame f (pop_frame k))"
| "do_event E_Idle k = (if k_frames k (running k) = [] \<and> running k = idle_thread k then idle_loop k else None)"
| "do_event E_Tick k = (if intr_on k then intr_handler_timer k else None)"

fun krun :: "kevent list \<Rightarrow> kernel \<Rightarrow> kernel option" where
  "krun [] k = Some k"
| "krun (e # es) k = do { k \<leftarrow> do_event e k; krun es k }"

lemma do_event_step: "do_event e k = Some k' \<Longrightarrow> kstep k k'"
  by (cases e) (auto split: if_splits list.splits intro: kstep.intros)

lemma krun_steps: "krun es k = Some k' \<Longrightarrow> kstep\<^sup>*\<^sup>* k k'"
  by (induction es arbitrary: k) (auto elim!: bind_eq_SomeE intro: do_event_step converse_rtranclp_into_rtranclp)

lemma kstep_do_event: "kstep k k' \<Longrightarrow> \<exists>e. do_event e k = Some k'"
proof (induction rule: kstep.induct)
  case (call k c k') then show ?case by (intro exI [of _ "E_Call c"]) simp
next
  case (frame k f fs k') then show ?case by (intro exI [of _ E_Frame]) simp
next
  case (idle k k') then show ?case by (intro exI [of _ E_Idle]) simp
next
  case (tick k k') then show ?case by (intro exI [of _ E_Tick]) simp
qed

subsection \<open>Mutual exclusion\<close>

text \<open>
  A thread is inside the critical section of a lock from the moment its \<^verbatim>\<open>sema_down\<close> in \<^verbatim>\<open>lock_acquire\<close>
  succeeds until its \<^verbatim>\<open>sema_up\<close> in \<^verbatim>\<open>lock_release\<close>.
\<close>

definition critical :: "kernel \<Rightarrow> ptr \<Rightarrow> ptr \<Rightarrow> bool" where
  "critical k l t \<longleftrightarrow> k_holder k l = Some t \<and> t \<noteq> NULL \<or> list_ex (lock_frame l) (k_frames k t)"

lemma lock_cnt_pos: "list_ex (lock_frame l) fs \<Longrightarrow> lock_cnt l fs \<ge> 1"
  by (induction fs) auto

lemma pend_two: "finite {t. fr t \<noteq> []} \<Longrightarrow> t \<noteq> u \<Longrightarrow> lock_cnt l (fr t) + lock_cnt l (fr u) \<le> pend fr l"
proof -
  assume f: "finite {t. fr t \<noteq> []}" and n: "t \<noteq> u"
  have "{v. (fr(t := [])) v \<noteq> []} \<subseteq> {t. fr t \<noteq> []}" by auto
  then have "finite {v. (fr(t := [])) v \<noteq> []}" using f finite_subset by blast
  then show ?thesis using pend_upd [OF f, of t "[]" l] pend_ge [of "fr(t := [])" l u] n by simp
qed

lemma kinv_exclusive:
  assumes i: "kinv [] k" and l: "k_holder k l = Some h" and c: "critical k l t" "critical k l u"
  shows "t = u \<and> (\<exists>sm. k_semas k (lock_semaphore l) = Some sm \<and> s_value sm = 0)"
proof -
  obtain sm where sm: "k_semas k (lock_semaphore l) = Some sm" "s_value sm + own h + pend (k_frames k) l = 1"
    and f: "finite {t. k_frames k t \<noteq> []}"
    using i l unfolding kinv_def locks_ok_def by force
  have o: "h \<noteq> NULL \<Longrightarrow> own h = 1" by (simp add: own_def)
  have p: "list_ex (lock_frame l) (k_frames k v) \<Longrightarrow> pend (k_frames k) l \<ge> 1" for v
    using pend_ge [OF f, of l v] lock_cnt_pos [of l "k_frames k v"] by simp
  have 2: "list_ex (lock_frame l) (k_frames k t) \<Longrightarrow> list_ex (lock_frame l) (k_frames k u) \<Longrightarrow> t = u"
    using pend_two [OF f, of t u l] lock_cnt_pos [of l "k_frames k t"] lock_cnt_pos [of l "k_frames k u"] sm(2) by force
  have "t = u" using c sm(2) l o p 2 unfolding critical_def by fastforce
  moreover have "s_value sm = 0" using c(1) sm(2) l o p unfolding critical_def by fastforce
  ultimately show ?thesis using sm(1) by blast
qed

text \<open>
  C1. Mutual exclusion. From a state that satisfies the invariant (such as the one the boot sequence ends
  in), after any sequence of calls, frame executions and timer interrupts, at most one thread is inside
  the critical section of a lock, and while one is, the lock's semaphore has the value 0.
\<close>

theorem lock_mutual_exclusion:
  assumes "kinv [] k" "kstep\<^sup>*\<^sup>* k k'" "k_holder k' l = Some h" "critical k' l t" "critical k' l u"
  shows "t = u \<and> (\<exists>sm. k_semas k' (lock_semaphore l) = Some sm \<and> s_value sm = 0)"
  using kinv_exclusive [OF ksteps_inv [OF assms(2,1)] assms(3-5)] .

lemmas step_eval = boot_eval booted_def boot_result lock_acquire_def lock_acquired_def lock_held_by_current_thread_def
  donate_priority_def

definition run_lock :: "kevent list" where
  "run_lock = [E_Frame, E_Call (C_Lock_Acquire 200), E_Frame, E_Frame]"

lemma run_lock_result: "\<exists>k. krun run_lock booted = Some k \<and> k_holder k 200 = Some 4096"
  by (simp add: run_lock_def step_eval del: boot_def)

theorem lock_mutual_exclusion_witness:
  "\<exists>k. kstep\<^sup>*\<^sup>* booted k \<and> critical k 200 4096 \<and> (\<forall>u. critical k 200 u \<longrightarrow> u = 4096)"
proof -
  obtain k where k: "krun run_lock booted = Some k" "k_holder k 200 = Some 4096" using run_lock_result by blast
  have s: "kstep\<^sup>*\<^sup>* booted k" by (rule krun_steps [OF k(1)])
  have c: "critical k 200 4096" using k(2) by (simp add: critical_def)
  have "u = 4096" if "critical k 200 u" for u
    using lock_mutual_exclusion [OF boot_kinv s k(2) that c] by simp
  then show ?thesis using s c by blast
qed

text \<open>
  C2. The scheduler's data structures in every reachable state: exactly the running thread has the status
  \<^verbatim>\<open>THREAD_RUNNING\<close>; the ready list holds, once each, exactly the ready threads other than the idle thread;
  the threads on the sleeping list and on the waiter lists of semaphores are blocked; and a blocked thread is the idle thread, sleeps until a tick, or waits on a semaphore, with the
  continuation that its wake-up needs.
\<close>

theorem scheduler_consistent:
  assumes "kinv [] k" "kstep\<^sup>*\<^sup>* k k'"
  shows "(status_of k' t = Some THREAD_RUNNING \<longleftrightarrow> t = running k') \<and>
    distinct (ready_list k') \<and> (t \<in> set (ready_list k') \<longleftrightarrow> status_of k' t = Some THREAD_READY \<and> t \<noteq> idle_thread k') \<and>
    (t \<in> set (sleeping_list k') \<longrightarrow> status_of k' t = Some THREAD_BLOCKED) \<and>
    (\<forall>s. waits_on (k_semas k') s t \<longrightarrow> status_of k' t = Some THREAD_BLOCKED) \<and>
    (status_of k' t = Some THREAD_BLOCKED \<and> t \<noteq> idle_thread k' \<longrightarrow>
      (t \<in> set (sleeping_list k') \<and> sleep_frame (k_frames k' t)) \<or>
      (\<exists>s. waits_on (k_semas k') s t \<and> wait_frame s (k_frames k' t)))"
proof -
  have w: "sched_wf k'" using kinv_facts(1) [OF ksteps_inv [OF assms(2,1)]] .
  then have l: "klists_ok {} k'" by (simp add: sched_wf_def)
  have "status_of k' t = Some THREAD_BLOCKED \<and> wait_frame s (k_frames k' t)" if "waits_on (k_semas k') s t" for s
    using l that by (auto simp: lists_ok_def wait_ok_def waits_on_def split: option.splits)
  then show ?thesis
    using w l by (auto simp: sched_wf_def lists_ok_def ready_ok_def sleep_ok_def none_lost_def)
qed

theorem scheduler_consistent_witness:
  "\<exists>k. kstep\<^sup>*\<^sup>* booted k \<and> k_holder k 200 = Some 4096 \<and> distinct (ready_list k) \<and>
    (status_of k 4096 = Some THREAD_RUNNING \<longleftrightarrow> 4096 = running k)"
proof -
  obtain k where k: "krun run_lock booted = Some k" "k_holder k 200 = Some 4096" using run_lock_result by blast
  have s: "kstep\<^sup>*\<^sup>* booted k" by (rule krun_steps [OF k(1)])
  show ?thesis using s k(2) scheduler_consistent [OF boot_kinv s, of 4096] by blast
qed

end
