(* ===== verification/Block_Device.thy ===== *)
theory Block_Device
  imports Pintos_Prelude
begin

text \<open>
  Block devices: \<^verbatim>\<open>devices/block.c\<close>. A device is a \<^verbatim>\<open>struct block\<close>; what its driver's \<^verbatim>\<open>read\<close> and \<^verbatim>\<open>write\<close>
  functions reach through \<^verbatim>\<open>aux\<close> is the field \<open>b_disk\<close>, the contents of each sector. The drivers
  themselves talk to hardware and are not modelled: a read returns what the last write to the sector
  stored. The registry of all devices and the assignment of roles are the record \<open>blocks\<close>.
\<close>

definition BLOCK_SECTOR_SIZE :: nat where
  "BLOCK_SECTOR_SIZE = 512"

datatype block_type = BLOCK_KERNEL | BLOCK_FILESYS | BLOCK_SCRATCH | BLOCK_SWAP | BLOCK_RAW | BLOCK_FOREIGN

text \<open>The types below \<^verbatim>\<open>BLOCK_ROLE_CNT\<close> are roles.\<close>

fun is_role :: "block_type \<Rightarrow> bool" where
  "is_role BLOCK_RAW \<longleftrightarrow> False"
| "is_role BLOCK_FOREIGN \<longleftrightarrow> False"
| "is_role _ \<longleftrightarrow> True"

type_synonym sector = "byte list"

record block =
  b_name :: string
  b_type :: block_type
  b_size :: nat
  b_disk :: "nat \<Rightarrow> sector"
  read_cnt :: nat
  write_cnt :: nat

record blocks =
  all_blocks :: "ptr list"
  block_at :: "ptr \<rightharpoonup> block"
  block_by_role :: "block_type \<Rightarrow> ptr"

subsection \<open>Sectors\<close>

definition check_sector :: "block \<Rightarrow> nat \<Rightarrow> unit option" where
  "check_sector b sector = (if sector \<ge> b_size b then None else Some ())"

definition block_read :: "block \<Rightarrow> nat \<Rightarrow> (block \<times> sector) option" where
  "block_read b sector = do {
     check_sector b sector;
     Some (b\<lparr>read_cnt := (read_cnt b + 1) mod 2 ^ 64\<rparr>, b_disk b sector) }"

definition block_write :: "block \<Rightarrow> nat \<Rightarrow> sector \<Rightarrow> block option" where
  "block_write b sector buffer = do {
     check_sector b sector;
     ASSERT (b_type b \<noteq> BLOCK_FOREIGN);
     Some (b\<lparr>b_disk := (b_disk b)(sector := buffer), write_cnt := (write_cnt b + 1) mod 2 ^ 64\<rparr>) }"

definition block_size :: "block \<Rightarrow> nat" where
  "block_size b = b_size b"

subsection \<open>The registry\<close>

fun block_type_name :: "block_type \<Rightarrow> string" where
  "block_type_name BLOCK_KERNEL = ''kernel''"
| "block_type_name BLOCK_FILESYS = ''filesys''"
| "block_type_name BLOCK_SCRATCH = ''scratch''"
| "block_type_name BLOCK_SWAP = ''swap''"
| "block_type_name BLOCK_RAW = ''raw''"
| "block_type_name BLOCK_FOREIGN = ''foreign''"

definition block_get_role :: "block_type \<Rightarrow> blocks \<Rightarrow> ptr option" where
  "block_get_role role bs = do { ASSERT (is_role role); Some (block_by_role bs role) }"

definition block_set_role :: "block_type \<Rightarrow> ptr \<Rightarrow> blocks \<Rightarrow> blocks option" where
  "block_set_role role p bs = do { ASSERT (is_role role); Some (bs\<lparr>block_by_role := (block_by_role bs)(role := p)\<rparr>) }"

definition block_first :: "blocks \<Rightarrow> ptr" where
  "block_first bs = (case all_blocks bs of [] \<Rightarrow> NULL | p # ps \<Rightarrow> p)"

fun next_in :: "ptr \<Rightarrow> ptr list \<Rightarrow> ptr" where
  "next_in p [] = NULL"
| "next_in p (q # qs) = (if q = p then (case qs of [] \<Rightarrow> NULL | r # rs \<Rightarrow> r) else next_in p qs)"

definition block_next :: "ptr \<Rightarrow> blocks \<Rightarrow> ptr" where
  "block_next p bs = next_in p (all_blocks bs)"

fun block_by_name_loop :: "string \<Rightarrow> (ptr \<rightharpoonup> block) \<Rightarrow> ptr list \<Rightarrow> ptr option" where
  "block_by_name_loop name m [] = Some NULL"
| "block_by_name_loop name m (p # ps) = do {
     b \<leftarrow> m p;
     if name = b_name b then Some p else block_by_name_loop name m ps }"

definition block_get_by_name :: "string \<Rightarrow> blocks \<Rightarrow> ptr option" where
  "block_get_by_name name bs = block_by_name_loop name (block_at bs) (all_blocks bs)"

text \<open>\<open>p\<close> is what \<^verbatim>\<open>malloc\<close> returns and \<open>disk\<close> the contents of the new device; the messages are output only.\<close>

definition block_register :: "ptr \<Rightarrow> string \<Rightarrow> block_type \<Rightarrow> nat \<Rightarrow> (nat \<Rightarrow> sector) \<Rightarrow> blocks \<Rightarrow> (blocks \<times> ptr) option" where
  "block_register p name type sz disk bs = do {
     ASSERT (p \<noteq> NULL);
     let b = \<lparr>b_name = take 15 name, b_type = type, b_size = sz, b_disk = disk, read_cnt = 0, write_cnt = 0\<rparr>;
     Some (bs\<lparr>all_blocks := all_blocks bs @ [p], block_at := (block_at bs)(p \<mapsto> b)\<rparr>, p) }"

subsection \<open>Facts\<close>

text \<open>A device whose sectors are full.\<close>

definition disk_wf :: "block \<Rightarrow> bool" where
  "disk_wf b \<longleftrightarrow> (\<forall>s < b_size b. length (b_disk b s) = BLOCK_SECTOR_SIZE) \<and> b_type b \<noteq> BLOCK_FOREIGN"

lemma block_read_eq: "s < b_size b \<Longrightarrow> block_read b s = Some (b\<lparr>read_cnt := (read_cnt b + 1) mod 2 ^ 64\<rparr>, b_disk b s)"
  by (simp add: block_read_def check_sector_def)

lemma block_write_eq: "s < b_size b \<Longrightarrow> b_type b \<noteq> BLOCK_FOREIGN \<Longrightarrow>
    block_write b s buf = Some (b\<lparr>b_disk := (b_disk b)(s := buf), write_cnt := (write_cnt b + 1) mod 2 ^ 64\<rparr>)"
  by (simp add: block_write_def check_sector_def)

lemma block_by_name_loop_found:
  assumes "\<forall>p\<in>set ps. m p \<noteq> None"
  shows "\<exists>q. block_by_name_loop name m ps = Some q \<and> (if \<exists>p\<in>set ps. b_name (the (m p)) = name
     then q \<in> set ps \<and> b_name (the (m q)) = name else q = NULL)"
  using assms
proof (induction ps)
  case (Cons p ps)
  then obtain b q where "m p = Some b" "block_by_name_loop name m ps = Some q"
    "if \<exists>p\<in>set ps. b_name (the (m p)) = name then q \<in> set ps \<and> b_name (the (m q)) = name else q = NULL" by auto
  then show ?case by (auto split: if_splits)
qed simp

text \<open>Walking the registry with \<^verbatim>\<open>block_first\<close> and \<^verbatim>\<open>block_next\<close> visits the devices in order.\<close>

lemma next_in_nth: "distinct ps \<Longrightarrow> i < length ps \<Longrightarrow> next_in (ps ! i) ps = (if Suc i < length ps then ps ! Suc i else NULL)"
proof (induction ps arbitrary: i)
  case (Cons p ps)
  show ?case
  proof (cases i)
    case 0 then show ?thesis by (simp split: list.splits)
  next
    case (Suc j)
    then have "ps ! j \<noteq> p" using Cons.prems nth_mem [of j ps] by auto
    then show ?thesis using Suc Cons.IH [of j] Cons.prems by simp
  qed
qed simp

end
