(* ===== verification/Bitmap.thy ===== *)
theory Bitmap
  imports Pintos_Prelude
begin

unbundle bit_operations_syntax

text \<open>
  The bitmaps of \<^verbatim>\<open>lib/kernel/bitmap.c\<close>, on which the page allocator, the free map of the file
  system and the swap table rest. A bitmap is its number of bits and an array of 32-bit elements.
  The operations are the code's word operations; the abstraction \<open>bm_list\<close> reads a bitmap as a
  list of booleans, and every operation is shown to be the expected list operation. The locale
  \<open>extent_allocator\<close> is the interface the three clients use.
\<close>

subsection \<open>Elements\<close>

record bitmap =
  bit_cnt :: nat
  bits :: "u32 list"

definition ELEM_BITS :: nat where
  "ELEM_BITS = 32"

definition BITMAP_ERROR :: nat where
  "BITMAP_ERROR = 2 ^ 32 - 1"

definition elem_idx :: "nat \<Rightarrow> nat" where
  "elem_idx bit_idx = bit_idx div ELEM_BITS"

definition bit_mask :: "nat \<Rightarrow> u32" where
  "bit_mask bit_idx = push_bit (bit_idx mod ELEM_BITS) 1"

definition elem_cnt :: "nat \<Rightarrow> nat" where
  "elem_cnt cnt = usz (cnt + ELEM_BITS - 1) div ELEM_BITS"

definition byte_cnt :: "nat \<Rightarrow> nat" where
  "byte_cnt cnt = usz (4 * elem_cnt cnt)"

definition last_mask :: "bitmap \<Rightarrow> u32" where
  "last_mask b = (let last_bits = bit_cnt b mod ELEM_BITS in
     if last_bits \<noteq> 0 then push_bit last_bits 1 - 1 else - 1)"

subsection \<open>Single bits\<close>

definition bitmap_size :: "bitmap \<Rightarrow> nat" where
  "bitmap_size b = bit_cnt b"

definition bitmap_mark :: "bitmap \<Rightarrow> nat \<Rightarrow> bitmap option" where
  "bitmap_mark b bit_idx = (let idx = elem_idx bit_idx; mask = bit_mask bit_idx in
     if idx < length (bits b) then Some (b\<lparr>bits := (bits b)[idx := bits b ! idx OR mask]\<rparr>) else None)"

definition bitmap_reset :: "bitmap \<Rightarrow> nat \<Rightarrow> bitmap option" where
  "bitmap_reset b bit_idx = (let idx = elem_idx bit_idx; mask = bit_mask bit_idx in
     if idx < length (bits b) then Some (b\<lparr>bits := (bits b)[idx := bits b ! idx AND NOT mask]\<rparr>) else None)"

definition bitmap_flip :: "bitmap \<Rightarrow> nat \<Rightarrow> bitmap option" where
  "bitmap_flip b bit_idx = (let idx = elem_idx bit_idx; mask = bit_mask bit_idx in
     if idx < length (bits b) then Some (b\<lparr>bits := (bits b)[idx := bits b ! idx XOR mask]\<rparr>) else None)"

definition bitmap_set :: "bitmap \<Rightarrow> nat \<Rightarrow> bool \<Rightarrow> bitmap option" where
  "bitmap_set b idx value = do {
     ASSERT (idx < bit_cnt b);
     if value then bitmap_mark b idx else bitmap_reset b idx }"

definition bitmap_test :: "bitmap \<Rightarrow> nat \<Rightarrow> bool option" where
  "bitmap_test b idx = do {
     ASSERT (idx < bit_cnt b);
     if elem_idx idx < length (bits b) then Some (bits b ! elem_idx idx AND bit_mask idx \<noteq> 0) else None }"

subsection \<open>Ranges of bits\<close>

text \<open>
  The \<^verbatim>\<open>for\<close> loops over a range are recursions on the number of iterations left, with the loop
  variable \<open>i\<close>; the index \<^verbatim>\<open>start + i\<close> and the bound \<^verbatim>\<open>start + cnt\<close> are 32-bit sums.
\<close>

fun bitmap_set_multiple_loop :: "bitmap \<Rightarrow> nat \<Rightarrow> bool \<Rightarrow> nat \<Rightarrow> nat \<Rightarrow> bitmap option" where
  "bitmap_set_multiple_loop b start value i 0 = Some b"
| "bitmap_set_multiple_loop b start value i (Suc n) = do {
     b \<leftarrow> bitmap_set b (usz (start + i)) value;
     bitmap_set_multiple_loop b start value (i + 1) n }"

definition bitmap_set_multiple :: "bitmap \<Rightarrow> nat \<Rightarrow> nat \<Rightarrow> bool \<Rightarrow> bitmap option" where
  "bitmap_set_multiple b start cnt value = do {
     ASSERT (start \<le> bit_cnt b);
     ASSERT (usz (start + cnt) \<le> bit_cnt b);
     bitmap_set_multiple_loop b start value 0 cnt }"

definition bitmap_set_all :: "bitmap \<Rightarrow> bool \<Rightarrow> bitmap option" where
  "bitmap_set_all b value = bitmap_set_multiple b 0 (bitmap_size b) value"

fun bitmap_count_loop :: "bitmap \<Rightarrow> nat \<Rightarrow> bool \<Rightarrow> nat \<Rightarrow> nat \<Rightarrow> nat \<Rightarrow> nat option" where
  "bitmap_count_loop b start value i value_cnt 0 = Some value_cnt"
| "bitmap_count_loop b start value i value_cnt (Suc n) = do {
     t \<leftarrow> bitmap_test b (usz (start + i));
     bitmap_count_loop b start value (i + 1) (if t = value then value_cnt + 1 else value_cnt) n }"

definition bitmap_count :: "bitmap \<Rightarrow> nat \<Rightarrow> nat \<Rightarrow> bool \<Rightarrow> nat option" where
  "bitmap_count b start cnt value = do {
     ASSERT (start \<le> bit_cnt b);
     ASSERT (usz (start + cnt) \<le> bit_cnt b);
     bitmap_count_loop b start value 0 0 cnt }"

fun bitmap_contains_loop :: "bitmap \<Rightarrow> nat \<Rightarrow> bool \<Rightarrow> nat \<Rightarrow> nat \<Rightarrow> bool option" where
  "bitmap_contains_loop b start value i 0 = Some False"
| "bitmap_contains_loop b start value i (Suc n) = do {
     t \<leftarrow> bitmap_test b (usz (start + i));
     if t = value then Some True else bitmap_contains_loop b start value (i + 1) n }"

definition bitmap_contains :: "bitmap \<Rightarrow> nat \<Rightarrow> nat \<Rightarrow> bool \<Rightarrow> bool option" where
  "bitmap_contains b start cnt value = do {
     ASSERT (start \<le> bit_cnt b);
     ASSERT (usz (start + cnt) \<le> bit_cnt b);
     bitmap_contains_loop b start value 0 cnt }"

definition bitmap_any :: "bitmap \<Rightarrow> nat \<Rightarrow> nat \<Rightarrow> bool option" where
  "bitmap_any b start cnt = bitmap_contains b start cnt True"

definition bitmap_none :: "bitmap \<Rightarrow> nat \<Rightarrow> nat \<Rightarrow> bool option" where
  "bitmap_none b start cnt = map_option Not (bitmap_contains b start cnt True)"

definition bitmap_all :: "bitmap \<Rightarrow> nat \<Rightarrow> nat \<Rightarrow> bool option" where
  "bitmap_all b start cnt = map_option Not (bitmap_contains b start cnt False)"

fun bitmap_scan_loop :: "bitmap \<Rightarrow> nat \<Rightarrow> bool \<Rightarrow> nat \<Rightarrow> nat \<Rightarrow> nat option" where
  "bitmap_scan_loop b cnt value i 0 = Some BITMAP_ERROR"
| "bitmap_scan_loop b cnt value i (Suc n) = do {
     c \<leftarrow> bitmap_contains b i cnt (\<not> value);
     if \<not> c then Some i else bitmap_scan_loop b cnt value (i + 1) n }"

definition bitmap_scan :: "bitmap \<Rightarrow> nat \<Rightarrow> nat \<Rightarrow> bool \<Rightarrow> nat option" where
  "bitmap_scan b start cnt value = do {
     ASSERT (start \<le> bit_cnt b);
     if cnt \<le> bit_cnt b then
       (let lst = bit_cnt b - cnt in bitmap_scan_loop b cnt value start (lst + 1 - start))
     else Some BITMAP_ERROR }"

definition bitmap_scan_and_flip :: "bitmap \<Rightarrow> nat \<Rightarrow> nat \<Rightarrow> bool \<Rightarrow> (bitmap \<times> nat) option" where
  "bitmap_scan_and_flip b start cnt value = do {
     idx \<leftarrow> bitmap_scan b start cnt value;
     if idx \<noteq> BITMAP_ERROR then do {
       b \<leftarrow> bitmap_set_multiple b idx cnt (\<not> value);
       Some (b, idx) }
     else Some (b, idx) }"

subsection \<open>Creation\<close>

text \<open>
  \<open>m1\<close> tells whether the first \<^verbatim>\<open>malloc\<close> succeeds; \<open>m2\<close> is the block the second one returns,
  with its old contents. \<^term>\<open>Some None\<close> is the null pointer the function returns.
\<close>

definition bitmap_create :: "nat \<Rightarrow> bool \<Rightarrow> u32 list option \<Rightarrow> bitmap option option" where
  "bitmap_create cnt m1 m2 =
     (if m1 then
        (case m2 of
           Some blk \<Rightarrow> map_option Some (bitmap_set_all \<lparr>bit_cnt = cnt, bits = blk\<rparr> False)
         | None \<Rightarrow> if cnt = 0 then map_option Some (bitmap_set_all \<lparr>bit_cnt = cnt, bits = []\<rparr> False)
                   else Some None)
      else Some None)"

definition bitmap_buf_size :: "nat \<Rightarrow> nat" where
  "bitmap_buf_size cnt = usz (8 + byte_cnt cnt)"

text \<open>\<open>blk\<close> is the buffer after the 8 bytes of the \<^verbatim>\<open>struct bitmap\<close>, as an array of elements.\<close>

definition bitmap_create_in_buf :: "nat \<Rightarrow> u32 list \<Rightarrow> nat \<Rightarrow> bitmap option" where
  "bitmap_create_in_buf cnt blk block_size = do {
     ASSERT (block_size \<ge> bitmap_buf_size cnt);
     bitmap_set_all \<lparr>bit_cnt = cnt, bits = blk\<rparr> False }"

subsection \<open>The abstraction: a list of booleans\<close>

definition bm_bit :: "bitmap \<Rightarrow> nat \<Rightarrow> bool" where
  "bm_bit b i = bit (bits b ! (i div 32)) (i mod 32)"

definition bm_list :: "bitmap \<Rightarrow> bool list" where
  "bm_list b = map (bm_bit b) [0..<bit_cnt b]"

text \<open>The element array has room for all bits, and 32-bit indices reach all of them.\<close>

definition bm_wf :: "bitmap \<Rightarrow> bool" where
  "bm_wf b \<longleftrightarrow> bit_cnt b + 31 < 2 ^ 32 \<and> elem_cnt (bit_cnt b) \<le> length (bits b)"

lemma elem_cnt_eq: "n + 31 < 2 ^ 32 \<Longrightarrow> elem_cnt n = DIV_ROUND_UP n 32"
  by (simp add: elem_cnt_def ELEM_BITS_def DIV_ROUND_UP_def)

lemma bm_wf_idx: "bm_wf b \<Longrightarrow> i < bit_cnt b \<Longrightarrow> elem_idx i < length (bits b)"
  using div_less_DIV_ROUND_UP [of 32 i "bit_cnt b"]
  by (auto simp: bm_wf_def elem_idx_def ELEM_BITS_def elem_cnt_eq)

lemma length_bm_list [simp]: "length (bm_list b) = bit_cnt b"
  by (simp add: bm_list_def)

lemma nth_bm_list [simp]: "i < bit_cnt b \<Longrightarrow> bm_list b ! i = bm_bit b i"
  by (simp add: bm_list_def)

lemma bit_bit_mask: "bit (bit_mask i) j \<longleftrightarrow> j = i mod 32"
  by (auto simp: bit_mask_def ELEM_BITS_def bit_exp_iff)

lemma and_bit_mask: "(w :: u32) AND bit_mask i \<noteq> 0 \<longleftrightarrow> bit w (i mod 32)"
  by (simp add: bit_mask_def ELEM_BITS_def and_exp_eq_0_iff_not_bit)

lemma bitmap_test_abs [step_simps]:
  "bm_wf b \<Longrightarrow> bitmap_test b i = (if i < bit_cnt b then Some (bm_bit b i) else None)"
  using bm_wf_idx [of b i] and_bit_mask [of "bits b ! elem_idx i" i]
  by (auto simp: bitmap_test_def bm_bit_def elem_idx_def ELEM_BITS_def)

lemma div_mod_32_eq: "(j::nat) div 32 = i div 32 \<Longrightarrow> j mod 32 = i mod 32 \<Longrightarrow> j = i"
  by (metis div_mult_mod_eq)

text \<open>The three single-bit updates, as updates of the bit function.\<close>

lemma bm_bit_update:
  assumes "i div 32 < length (bits b)" "\<And>j. j < 32 \<Longrightarrow> bit w j = (if j = i mod 32 then v else bit (bits b ! (i div 32)) j)"
  shows "bm_bit (b\<lparr>bits := (bits b)[i div 32 := w]\<rparr>) = (bm_bit b)(i := v)"
proof
  fix j
  show "bm_bit (b\<lparr>bits := (bits b)[i div 32 := w]\<rparr>) j = ((bm_bit b)(i := v)) j"
  proof (cases "j div 32 = i div 32")
    case True
    then have "j mod 32 = i mod 32 \<longleftrightarrow> j = i" using div_mod_32_eq [of j i] by auto
    then show ?thesis using True assms by (simp add: bm_bit_def)
  qed (auto simp: bm_bit_def)
qed

lemma bitmap_mark_abs:
  assumes "bm_wf b" "i < bit_cnt b"
  shows "\<exists>b'. bitmap_mark b i = Some b' \<and> bm_wf b' \<and> bit_cnt b' = bit_cnt b \<and> bm_bit b' = (bm_bit b)(i := True)"
proof -
  have l: "i div 32 < length (bits b)" using bm_wf_idx [OF assms] by (simp add: elem_idx_def ELEM_BITS_def)
  have "bm_bit (b\<lparr>bits := (bits b)[i div 32 := bits b ! (i div 32) OR bit_mask i]\<rparr>) = (bm_bit b)(i := True)"
    by (rule bm_bit_update [OF l]) (auto simp: bm_bit_def bit_or_iff bit_bit_mask)
  then show ?thesis
    using l assms by (simp add: bitmap_mark_def Let_def elem_idx_def ELEM_BITS_def bm_wf_def)
qed

lemma bitmap_reset_abs:
  assumes "bm_wf b" "i < bit_cnt b"
  shows "\<exists>b'. bitmap_reset b i = Some b' \<and> bm_wf b' \<and> bit_cnt b' = bit_cnt b \<and> bm_bit b' = (bm_bit b)(i := False)"
proof -
  have l: "i div 32 < length (bits b)" using bm_wf_idx [OF assms] by (simp add: elem_idx_def ELEM_BITS_def)
  have "bm_bit (b\<lparr>bits := (bits b)[i div 32 := bits b ! (i div 32) AND NOT (bit_mask i)]\<rparr>) = (bm_bit b)(i := False)"
    by (rule bm_bit_update [OF l]) (auto simp: bm_bit_def bit_and_iff bit_not_iff bit_bit_mask)
  then show ?thesis
    using l assms by (simp add: bitmap_reset_def Let_def elem_idx_def ELEM_BITS_def bm_wf_def)
qed

lemma bitmap_flip_abs:
  assumes "bm_wf b" "i < bit_cnt b"
  shows "\<exists>b'. bitmap_flip b i = Some b' \<and> bm_wf b' \<and> bit_cnt b' = bit_cnt b \<and> bm_bit b' = (bm_bit b)(i := \<not> bm_bit b i)"
proof -
  have l: "i div 32 < length (bits b)" using bm_wf_idx [OF assms] by (simp add: elem_idx_def ELEM_BITS_def)
  have "bm_bit (b\<lparr>bits := (bits b)[i div 32 := bits b ! (i div 32) XOR bit_mask i]\<rparr>) = (bm_bit b)(i := \<not> bm_bit b i)"
    by (rule bm_bit_update [OF l]) (auto simp: bm_bit_def bit_xor_iff bit_bit_mask)
  then show ?thesis
    using l assms by (simp add: bitmap_flip_def Let_def elem_idx_def ELEM_BITS_def bm_wf_def)
qed

lemma bitmap_set_abs:
  assumes "bm_wf b" "i < bit_cnt b"
  shows "\<exists>b'. bitmap_set b i v = Some b' \<and> bm_wf b' \<and> bit_cnt b' = bit_cnt b \<and> bm_bit b' = (bm_bit b)(i := v)"
  using bitmap_mark_abs [OF assms] bitmap_reset_abs [OF assms] assms(2)
  by (cases v) (auto simp: bitmap_set_def)

subsection \<open>Ranges under the abstraction\<close>

lemma bm_wf_small: "bm_wf b \<Longrightarrow> i \<le> bit_cnt b \<Longrightarrow> usz i = i"
  by (simp add: bm_wf_def)

lemma bitmap_set_multiple_loop_abs:
  "bm_wf b \<Longrightarrow> start + i + n \<le> bit_cnt b \<Longrightarrow>
   \<exists>b'. bitmap_set_multiple_loop b start v i n = Some b' \<and> bm_wf b' \<and> bit_cnt b' = bit_cnt b \<and>
     bm_bit b' = (\<lambda>j. if start + i \<le> j \<and> j < start + i + n then v else bm_bit b j)"
proof (induction n arbitrary: b i)
  case 0
  then show ?case by auto
next
  case (Suc n)
  from bitmap_set_abs [of b "start + i" v] Suc.prems obtain b1 where b1:
    "bitmap_set b (start + i) v = Some b1" "bm_wf b1" "bit_cnt b1 = bit_cnt b" "bm_bit b1 = (bm_bit b)(start + i := v)"
    by auto
  from Suc.IH [of b1 "i + 1"] Suc.prems b1 obtain b' where b':
    "bitmap_set_multiple_loop b1 start v (i + 1) n = Some b'" "bm_wf b'" "bit_cnt b' = bit_cnt b"
    "bm_bit b' = (\<lambda>j. if start + (i + 1) \<le> j \<and> j < start + (i + 1) + n then v else bm_bit b1 j)"
    by auto
  then have "bm_bit b' = (\<lambda>j. if start + i \<le> j \<and> j < start + i + Suc n then v else bm_bit b j)"
    using b1(4) by (auto simp: fun_eq_iff)
  then show ?case
    using b1(1) b' bm_wf_small [of b "start + i"] Suc.prems by simp
qed

lemma bitmap_set_multiple_abs:
  assumes "bm_wf b" "start + cnt \<le> bit_cnt b"
  shows "\<exists>b'. bitmap_set_multiple b start cnt v = Some b' \<and> bm_wf b' \<and> bit_cnt b' = bit_cnt b \<and>
     bm_bit b' = (\<lambda>j. if start \<le> j \<and> j < start + cnt then v else bm_bit b j)"
  using bitmap_set_multiple_loop_abs [of b start 0 cnt v] assms bm_wf_small [of b "start + cnt"]
  by (simp add: bitmap_set_multiple_def)

lemma ex_range_Suc:
  "(\<exists>j. a \<le> j \<and> j < a + Suc n \<and> P j) \<longleftrightarrow> P a \<or> (\<exists>j. a + 1 \<le> j \<and> j < a + 1 + n \<and> P j)"
proof
  assume "\<exists>j. a \<le> j \<and> j < a + Suc n \<and> P j"
  then obtain j where j: "a \<le> j" "j < a + Suc n" "P j" by blast
  then show "P a \<or> (\<exists>j. a + 1 \<le> j \<and> j < a + 1 + n \<and> P j)" by (cases "j = a") auto
qed (auto dest: Suc_leD)

lemma bitmap_contains_loop_abs:
  "bm_wf b \<Longrightarrow> start + i + n \<le> bit_cnt b \<Longrightarrow>
   bitmap_contains_loop b start v i n = Some (\<exists>j. start + i \<le> j \<and> j < start + i + n \<and> bm_bit b j = v)"
proof (induction n arbitrary: i)
  case (Suc n)
  have "(\<exists>j. start + i \<le> j \<and> j < start + i + Suc n \<and> bm_bit b j = v) \<longleftrightarrow>
      bm_bit b (start + i) = v \<or> (\<exists>j. start + (i + 1) \<le> j \<and> j < start + (i + 1) + n \<and> bm_bit b j = v)"
    using ex_range_Suc [of "start + i" n "\<lambda>j. bm_bit b j = v"] by (simp add: add.assoc)
  then show ?case
    using Suc.IH [of "i + 1"] Suc.prems bm_wf_small [of b "start + i"] by (simp add: bitmap_test_abs)
qed auto

lemma bitmap_contains_abs [step_simps]:
  "bm_wf b \<Longrightarrow> start + cnt \<le> bit_cnt b \<Longrightarrow>
   bitmap_contains b start cnt v = Some (\<exists>j. start \<le> j \<and> j < start + cnt \<and> bm_bit b j = v)"
  using bitmap_contains_loop_abs [of b start 0 cnt v] bm_wf_small [of b "start + cnt"]
  by (simp add: bitmap_contains_def)

lemma bitmap_count_loop_abs:
  "bm_wf b \<Longrightarrow> start + i + n \<le> bit_cnt b \<Longrightarrow>
   bitmap_count_loop b start v i k n = Some (k + length (filter (\<lambda>j. bm_bit b j = v) [start + i..<start + i + n]))"
proof (induction n arbitrary: i k)
  case (Suc n)
  have "[start + i..<start + i + Suc n] = (start + i) # [start + (i + 1)..<start + (i + 1) + n]"
    by (simp add: upt_conv_Cons)
  then show ?case
    using Suc.IH [of "i + 1"] Suc.prems bm_wf_small [of b "start + i"]
    by (simp add: bitmap_test_abs del: upt_Suc)
qed simp

lemma bitmap_count_abs [step_simps]:
  "bm_wf b \<Longrightarrow> start + cnt \<le> bit_cnt b \<Longrightarrow>
   bitmap_count b start cnt v = Some (length (filter (\<lambda>j. bm_bit b j = v) [start..<start + cnt]))"
  using bitmap_count_loop_abs [of b start 0 cnt v 0] bm_wf_small [of b "start + cnt"]
  by (simp add: bitmap_count_def)

text \<open>\<open>run_at b v cnt i\<close>: a group of \<open>cnt\<close> bits with value \<open>v\<close> starts at \<open>i\<close>.\<close>

definition run_at :: "bitmap \<Rightarrow> bool \<Rightarrow> nat \<Rightarrow> nat \<Rightarrow> bool" where
  "run_at b v cnt i \<longleftrightarrow> i + cnt \<le> bit_cnt b \<and> (\<forall>j. i \<le> j \<and> j < i + cnt \<longrightarrow> bm_bit b j = v)"

lemma bitmap_scan_loop_abs:
  "bm_wf b \<Longrightarrow> i + n + cnt = bit_cnt b + 1 \<Longrightarrow>
   \<exists>r. bitmap_scan_loop b cnt v i n = Some r \<and>
     (if r = BITMAP_ERROR then \<forall>j\<ge>i. \<not> run_at b v cnt j
      else i \<le> r \<and> run_at b v cnt r \<and> (\<forall>j. i \<le> j \<and> j < r \<longrightarrow> \<not> run_at b v cnt j))"
proof (induction n arbitrary: i)
  case 0
  then show ?case by (auto simp: run_at_def)
next
  case (Suc n)
  have c: "bitmap_contains b i cnt (\<not> v) = Some (\<not> run_at b v cnt i)"
    using Suc.prems by (subst bitmap_contains_abs) (auto simp: run_at_def)
  show ?case
  proof (cases "run_at b v cnt i")
    case True
    moreover have "i \<noteq> BITMAP_ERROR" using Suc.prems by (auto simp: BITMAP_ERROR_def bm_wf_def)
    ultimately show ?thesis using c by auto
  next
    case False
    from Suc.IH [of "i + 1"] Suc.prems obtain r where
      r: "bitmap_scan_loop b cnt v (i + 1) n = Some r"
        "if r = BITMAP_ERROR then \<forall>j\<ge>i + 1. \<not> run_at b v cnt j
         else i + 1 \<le> r \<and> run_at b v cnt r \<and> (\<forall>j. i + 1 \<le> j \<and> j < r \<longrightarrow> \<not> run_at b v cnt j)"
      by auto
    have "if r = BITMAP_ERROR then \<forall>j\<ge>i. \<not> run_at b v cnt j
         else i \<le> r \<and> run_at b v cnt r \<and> (\<forall>j. i \<le> j \<and> j < r \<longrightarrow> \<not> run_at b v cnt j)"
      using r(2) False by (auto split: if_splits) (metis Suc_leI le_neq_implies_less)+
    then show ?thesis using r(1) c False by simp
  qed
qed

lemma bitmap_scan_abs:
  assumes "bm_wf b" "start \<le> bit_cnt b"
  shows "\<exists>r. bitmap_scan b start cnt v = Some r \<and>
     (if r = BITMAP_ERROR then \<forall>j\<ge>start. \<not> run_at b v cnt j
      else start \<le> r \<and> run_at b v cnt r \<and> (\<forall>j. start \<le> j \<and> j < r \<longrightarrow> \<not> run_at b v cnt j))"
proof (cases "start + cnt \<le> bit_cnt b")
  case True
  then show ?thesis
    using bitmap_scan_loop_abs [of b start "bit_cnt b - cnt + 1 - start" cnt v] assms
    by (simp add: bitmap_scan_def)
next
  case False
  then have "bitmap_scan b start cnt v = Some BITMAP_ERROR"
    using assms by (simp add: bitmap_scan_def Let_def)
  then show ?thesis using False by (auto simp: run_at_def)
qed

lemma bitmap_scan_and_flip_abs:
  assumes "bm_wf b" "start \<le> bit_cnt b"
  shows "\<exists>b' r. bitmap_scan_and_flip b start cnt v = Some (b', r) \<and> bm_wf b' \<and> bit_cnt b' = bit_cnt b \<and>
     (if r = BITMAP_ERROR then b' = b \<and> (\<forall>j\<ge>start. \<not> run_at b v cnt j)
      else start \<le> r \<and> run_at b v cnt r \<and> (\<forall>j. start \<le> j \<and> j < r \<longrightarrow> \<not> run_at b v cnt j) \<and>
           bm_bit b' = (\<lambda>j. if r \<le> j \<and> j < r + cnt then \<not> v else bm_bit b j))"
proof -
  obtain r where r: "bitmap_scan b start cnt v = Some r"
     "if r = BITMAP_ERROR then \<forall>j\<ge>start. \<not> run_at b v cnt j
      else start \<le> r \<and> run_at b v cnt r \<and> (\<forall>j. start \<le> j \<and> j < r \<longrightarrow> \<not> run_at b v cnt j)"
    using bitmap_scan_abs [OF assms] by blast
  show ?thesis
  proof (cases "r = BITMAP_ERROR")
    case True
    then show ?thesis using r assms by (simp add: bitmap_scan_and_flip_def)
  next
    case False
    then have "r + cnt \<le> bit_cnt b" using r(2) by (simp add: run_at_def)
    from bitmap_set_multiple_abs [OF assms(1) this, of "\<not> v"] obtain b' where
      "bitmap_set_multiple b r cnt (\<not> v) = Some b'" "bm_wf b'" "bit_cnt b' = bit_cnt b"
      "bm_bit b' = (\<lambda>j. if r \<le> j \<and> j < r + cnt then \<not> v else bm_bit b j)" by blast
    then show ?thesis
      using r False by (intro exI [of _ b'] exI [of _ r]) (simp add: bitmap_scan_and_flip_def)
  qed
qed

lemma bitmap_set_all_abs:
  assumes "bm_wf b"
  shows "\<exists>b'. bitmap_set_all b v = Some b' \<and> bm_wf b' \<and> bit_cnt b' = bit_cnt b \<and> (\<forall>j<bit_cnt b. bm_bit b' j = v)"
  using bitmap_set_multiple_abs [of b 0 "bit_cnt b" v] assms
  by (auto simp: bitmap_set_all_def bitmap_size_def)

text \<open>
  C17. \<^verbatim>\<open>bitmap_scan_and_flip\<close> on a well-formed bitmap never panics. It returns \<^verbatim>\<open>BITMAP_ERROR\<close> and
  changes nothing exactly when no group of \<open>cnt\<close> bits of the wanted value starts at or after
  \<open>start\<close>; otherwise it returns the first such group and inverts exactly its bits. For \<open>cnt = 0\<close> it returns
  \<open>start\<close>, where the comment in the source says 0.
\<close>

theorem bitmap_scan_and_flip_correct:
  assumes "bm_wf b" "start \<le> bit_cnt b"
  shows "\<exists>b' r. bitmap_scan_and_flip b start cnt v = Some (b', r) \<and> bm_wf b' \<and> bit_cnt b' = bit_cnt b \<and>
     (r = BITMAP_ERROR \<longleftrightarrow> (\<forall>j\<ge>start. \<not> run_at b v cnt j)) \<and>
     (r = BITMAP_ERROR \<longrightarrow> b' = b) \<and> (cnt = 0 \<longrightarrow> r = start) \<and>
     (r \<noteq> BITMAP_ERROR \<longrightarrow> r = (LEAST j. start \<le> j \<and> run_at b v cnt j) \<and> run_at b v cnt r \<and>
        bm_list b' = take r (bm_list b) @ replicate cnt (\<not> v) @ drop (r + cnt) (bm_list b))"
proof -
  obtain b' r where r: "bitmap_scan_and_flip b start cnt v = Some (b', r)" "bm_wf b'" "bit_cnt b' = bit_cnt b"
     "if r = BITMAP_ERROR then b' = b \<and> (\<forall>j\<ge>start. \<not> run_at b v cnt j)
      else start \<le> r \<and> run_at b v cnt r \<and> (\<forall>j. start \<le> j \<and> j < r \<longrightarrow> \<not> run_at b v cnt j) \<and>
           bm_bit b' = (\<lambda>j. if r \<le> j \<and> j < r + cnt then \<not> v else bm_bit b j)"
    using bitmap_scan_and_flip_abs [OF assms] by blast
  have z: "cnt = 0 \<longrightarrow> r = start"
  proof
    assume c: "cnt = 0"
    then have ru: "run_at b v cnt start" using assms(2) by (auto simp: run_at_def)
    then have "r \<noteq> BITMAP_ERROR" using r(4) by auto
    then show "r = start" using r(4) ru by (metis le_neq_implies_less order_refl)
  qed
  show ?thesis
  proof (cases "r = BITMAP_ERROR")
    case False
    with r(4) have s: "start \<le> r" "run_at b v cnt r" "\<forall>j. start \<le> j \<and> j < r \<longrightarrow> \<not> run_at b v cnt j"
      "bm_bit b' = (\<lambda>j. if r \<le> j \<and> j < r + cnt then \<not> v else bm_bit b j)" by auto
    have "r = (LEAST j. start \<le> j \<and> run_at b v cnt j)"
      using s by (intro Least_equality [symmetric]) (auto intro: leI)
    moreover have "bm_list b' = take r (bm_list b) @ replicate cnt (\<not> v) @ drop (r + cnt) (bm_list b)"
    proof (rule nth_equalityI)
      show "length (bm_list b') = length (take r (bm_list b) @ replicate cnt (\<not> v) @ drop (r + cnt) (bm_list b))"
        using s(2) r(3) by (simp add: run_at_def)
    next
      fix j assume j: "j < length (bm_list b')"
      have "r + cnt \<le> bit_cnt b" using s(2) by (simp add: run_at_def)
      then show "bm_list b' ! j = (take r (bm_list b) @ replicate cnt (\<not> v) @ drop (r + cnt) (bm_list b)) ! j"
        using j r(3) s(4) by (auto simp: nth_append)
    qed
    ultimately show ?thesis using r(1-3) s False z by blast
  qed (use r z in auto)
qed

theorem bitmap_scan_and_flip_correct_witness:
  "\<exists>b' r. bitmap_scan_and_flip \<lparr>bit_cnt = 8, bits = [0x17]\<rparr> 0 2 False = Some (b', r) \<and> r \<le> 5 \<and>
     bm_list b' = take r [True, True, True, False, True, False, False, False] @ [True, True] @
       drop (r + 2) [True, True, True, False, True, False, False, False]"
proof -
  let ?b = "\<lparr>bit_cnt = 8, bits = [0x17]\<rparr>"
  have wf: "bm_wf ?b" by (simp add: bm_wf_def elem_cnt_def ELEM_BITS_def)
  have l: "bm_list ?b = [True, True, True, False, True, False, False, False]"
    by (simp add: bm_list_def bm_bit_def upt_rec)
  have "bm_bit ?b j = False" if "5 \<le> j" "j < 7" for j
  proof -
    have "j = 5 \<or> j = 6" using that by auto
    then show ?thesis by (auto simp: bm_bit_def)
  qed
  then have "run_at ?b False 2 5" by (simp add: run_at_def)
  then show ?thesis
    using bitmap_scan_and_flip_correct [OF wf, of 0 2 False] l
    by (auto intro: Least_le simp: numeral_2_eq_2)
qed

subsection \<open>The allocator interface\<close>

text \<open>
  What the page allocator, the free map and the swap table make of a bitmap: extents of units are
  handed out and given back. \<open>alloc b n\<close> returns the first unit of an extent of \<open>n\<close> units or
  \<^term>\<open>None\<close>.
\<close>

locale extent_allocator =
  fixes inv :: "'b \<Rightarrow> bool" and units :: "'b \<Rightarrow> nat" and used :: "'b \<Rightarrow> nat \<Rightarrow> bool"
    and alloc :: "'b \<Rightarrow> nat \<Rightarrow> 'b \<times> nat option" and release :: "'b \<Rightarrow> nat \<Rightarrow> nat \<Rightarrow> 'b"
  assumes alloc_some: "inv b \<Longrightarrow> alloc b n = (b', Some i) \<Longrightarrow>
      inv b' \<and> units b' = units b \<and> i + n \<le> units b \<and> (\<forall>j. i \<le> j \<and> j < i + n \<longrightarrow> \<not> used b j) \<and>
      used b' = (\<lambda>j. used b j \<or> i \<le> j \<and> j < i + n)"
    and alloc_none: "inv b \<Longrightarrow> alloc b n = (b', None) \<Longrightarrow>
      b' = b \<and> (\<forall>i. i + n \<le> units b \<longrightarrow> (\<exists>j. i \<le> j \<and> j < i + n \<and> used b j))"
    and release: "inv b \<Longrightarrow> i + n \<le> units b \<Longrightarrow> (\<forall>j. i \<le> j \<and> j < i + n \<longrightarrow> used b j) \<Longrightarrow>
      inv (release b i n) \<and> units (release b i n) = units b \<and>
      used (release b i n) = (\<lambda>j. used b j \<and> \<not> (i \<le> j \<and> j < i + n))"
begin

definition extent :: "nat \<times> nat \<Rightarrow> nat set" where
  "extent e = {fst e..<fst e + snd e}"

text \<open>The extents in use: in range, allocated and pairwise disjoint.\<close>

fun live :: "'b \<Rightarrow> (nat \<times> nat) list \<Rightarrow> bool" where
  "live b [] = True"
| "live b (e # es) \<longleftrightarrow> fst e + snd e \<le> units b \<and> (\<forall>j\<in>extent e. used b j) \<and>
     (\<forall>e'\<in>set es. extent e \<inter> extent e' = {}) \<and> live b es"

lemma live_used: "live b es \<Longrightarrow> e \<in> set es \<Longrightarrow> j \<in> extent e \<Longrightarrow> used b j"
  by (induction es) auto

lemma live_mono:
  "live b es \<Longrightarrow> units b' = units b \<Longrightarrow> (\<forall>e\<in>set es. \<forall>j\<in>extent e. used b' j) \<Longrightarrow> live b' es"
  by (induction es) auto

text \<open>A new extent overlaps none that is in use, and giving back one leaves the others in use.\<close>

lemma alloc_live:
  assumes "inv b" "live b es" "alloc b n = (b', Some i)"
  shows "inv b' \<and> live b' ((i, n) # es)"
proof -
  note a = alloc_some [OF assms(1,3)]
  have u: "used b' j" if "used b j" for j using a that by simp
  have "live b' es"
    by (rule live_mono [OF assms(2)]) (use a u live_used [OF assms(2)] in blast)+
  moreover have "extent (i, n) \<inter> extent e = {}" if "e \<in> set es" for e
  proof -
    have "\<not> used b j" if "j \<in> extent (i, n)" for j using a that by (simp add: extent_def)
    then show ?thesis using live_used [OF assms(2) that] by blast
  qed
  moreover have "\<forall>j\<in>extent (i, n). used b' j" using a by (simp add: extent_def)
  ultimately show ?thesis using a by simp
qed

lemma release_live:
  assumes "inv b" "live b (e # es)"
  shows "inv (release b (fst e) (snd e)) \<and> live (release b (fst e) (snd e)) es"
proof -
  have r: "inv (release b (fst e) (snd e)) \<and> units (release b (fst e) (snd e)) = units b \<and>
      used (release b (fst e) (snd e)) = (\<lambda>j. used b j \<and> \<not> (fst e \<le> j \<and> j < fst e + snd e))"
    using assms by (intro release) (auto simp: extent_def)
  have "live (release b (fst e) (snd e)) es"
  proof (rule live_mono [of b])
    show "\<forall>e'\<in>set es. \<forall>j\<in>extent e'. used (release b (fst e) (snd e)) j"
    proof (intro ballI)
      fix e' j assume e': "e' \<in> set es" "j \<in> extent e'"
      then have "used b j" "j \<notin> extent e" using assms(2) live_used [of b es e' j] by auto
      then show "used (release b (fst e) (snd e)) j" using r by (auto simp: extent_def)
    qed
  qed (use assms r in auto)
  then show ?thesis using r by simp
qed

lemma alloc_release_used:
  assumes "inv b" "alloc b n = (b', Some i)"
  shows "used (release b' i n) = used b"
proof -
  note a = alloc_some [OF assms]
  have "used (release b' i n) = (\<lambda>j. used b' j \<and> \<not> (i \<le> j \<and> j < i + n))"
    using a release [of b' i n] by simp
  also have "\<dots> = used b" using a by (auto simp: fun_eq_iff)
  finally show ?thesis .
qed

lemma release_alloc:
  assumes "inv b" "i + n \<le> units b" "\<forall>j. i \<le> j \<and> j < i + n \<longrightarrow> used b j"
  shows "\<exists>b' k. alloc (release b i n) n = (b', Some k)"
proof -
  note r = release [OF assms]
  have "snd (alloc (release b i n) n) \<noteq> None"
  proof
    assume "snd (alloc (release b i n) n) = None"
    then have "alloc (release b i n) n = (fst (alloc (release b i n) n), None)" by (simp add: prod_eq_iff)
    from alloc_none [OF _ this] r assms(2) have "\<exists>j. i \<le> j \<and> j < i + n \<and> used (release b i n) j" by simp
    then show False using r by auto
  qed
  then show ?thesis by (cases "alloc (release b i n) n") auto
qed

end

end
