(* ===== verification/Inode_IO.thy ===== *)
theory Inode_IO
  imports Block_Device Bitmap
begin

text \<open>
  The state of the file system and the data transfer of \<^verbatim>\<open>filesys/inode.c\<close>: \<^verbatim>\<open>inode_read_at\<close> and
  \<^verbatim>\<open>inode_write_at\<close> cut a request at sector boundaries and move each piece directly or through a bounce
  buffer. Both are shown to be the reading and the overwriting of a slice of the file's bytes.
  \<open>fs_mem n\<close> is what the \<open>n\<close>-th of the following calls of \<^verbatim>\<open>malloc\<close> and \<^verbatim>\<open>calloc\<close> returns, \<^verbatim>\<open>NULL\<close> for a failure.
\<close>

subsection \<open>State\<close>

record inode_disk =
  d_start :: nat
  d_length :: int
  d_magic :: nat

record inode =
  i_sector :: nat
  open_cnt :: int
  removed :: bool
  deny_write_cnt :: int
  i_data :: inode_disk

record kfile =
  f_inode :: ptr
  f_pos :: int
  f_deny_write :: bool

record fsys =
  fs_device :: block
  fs_mem :: "nat \<Rightarrow> ptr"
  inodes :: "ptr \<rightharpoonup> inode"
  open_inodes :: "ptr list"
  files :: "ptr \<rightharpoonup> kfile"
  free_map :: bitmap
  free_map_file :: ptr

definition malloc :: "fsys \<Rightarrow> fsys \<times> ptr" where
  "malloc s = (s\<lparr>fs_mem := \<lambda>n. fs_mem s (Suc n)\<rparr>, fs_mem s 0)"

subsection \<open>Transfers\<close>

definition bytes_to_sectors :: "int \<Rightarrow> nat" where
  "bytes_to_sectors sz = u32_of (s32 (sz + int BLOCK_SECTOR_SIZE - 1) sdiv int BLOCK_SECTOR_SIZE)"

definition inode_length :: "inode \<Rightarrow> int" where
  "inode_length ino = d_length (i_data ino)"

definition byte_to_sector :: "inode \<Rightarrow> int \<Rightarrow> nat" where
  "byte_to_sector ino pos =
     (if pos < d_length (i_data ino) then usz (d_start (i_data ino) + u32_of (pos sdiv int BLOCK_SECTOR_SIZE)) else 2 ^ 32 - 1)"

text \<open>The offset within the sector, the bytes left in the sector, and the size of the next piece.\<close>

definition chunk :: "inode \<Rightarrow> int \<Rightarrow> int \<Rightarrow> int \<times> int \<times> int" where
  "chunk ino sz offset = (
     let sector_ofs = offset smod int BLOCK_SECTOR_SIZE;
         inode_left = s32 (inode_length ino - offset);
         sector_left = int BLOCK_SECTOR_SIZE - sector_ofs;
         min_left = (if inode_left < sector_left then inode_left else sector_left);
         chunk_size = (if sz < min_left then sz else min_left)
     in (sector_ofs, sector_left, chunk_size))"

lemma chunk_le: "chunk ino sz offset = (a, b, c) \<Longrightarrow> c \<le> sz"
  by (auto simp: chunk_def Let_def)

function inode_read_loop :: "inode \<Rightarrow> int \<Rightarrow> int \<Rightarrow> bool \<Rightarrow> fsys \<Rightarrow> (fsys \<times> byte list) option" where
  "inode_read_loop ino sz offset bounce s = (
     if sz \<le> 0 then Some (s, []) else
     let sector_idx = byte_to_sector ino offset; (sector_ofs, sector_left, chunk_size) = chunk ino sz offset in
     if chunk_size \<le> 0 then Some (s, [])
     else if sector_ofs = 0 \<and> chunk_size = int BLOCK_SECTOR_SIZE then do {
       r \<leftarrow> block_read (fs_device s) sector_idx;
       q \<leftarrow> inode_read_loop ino (sz - chunk_size) (s32 (offset + chunk_size)) bounce (s\<lparr>fs_device := fst r\<rparr>);
       Some (fst q, snd r @ snd q) }
     else let (s, p) = (if bounce then (s, 1) else malloc s) in
       if p = NULL then Some (s, []) else do {
       r \<leftarrow> block_read (fs_device s) sector_idx;
       q \<leftarrow> inode_read_loop ino (sz - chunk_size) (s32 (offset + chunk_size)) True (s\<lparr>fs_device := fst r\<rparr>);
       Some (fst q, take (nat chunk_size) (drop (nat sector_ofs) (snd r)) @ snd q) })"
  by pat_completeness auto
termination by (relation "measure (\<lambda>(ino, sz, _). nat sz)") auto

definition inode_read_at :: "ptr \<Rightarrow> int \<Rightarrow> int \<Rightarrow> fsys \<Rightarrow> (fsys \<times> byte list) option" where
  "inode_read_at i sz offset s = do { ino \<leftarrow> inodes s i; inode_read_loop ino sz offset False s }"

function inode_write_loop :: "inode \<Rightarrow> byte list \<Rightarrow> int \<Rightarrow> int \<Rightarrow> bool \<Rightarrow> fsys \<Rightarrow> (fsys \<times> int) option" where
  "inode_write_loop ino buffer sz offset bounce s = (
     if sz \<le> 0 then Some (s, 0) else
     let sector_idx = byte_to_sector ino offset; (sector_ofs, sector_left, chunk_size) = chunk ino sz offset in
     if chunk_size \<le> 0 then Some (s, 0)
     else if sector_ofs = 0 \<and> chunk_size = int BLOCK_SECTOR_SIZE then do {
       d \<leftarrow> block_write (fs_device s) sector_idx (take BLOCK_SECTOR_SIZE buffer);
       q \<leftarrow> inode_write_loop ino (drop (nat chunk_size) buffer) (sz - chunk_size) (s32 (offset + chunk_size)) bounce (s\<lparr>fs_device := d\<rparr>);
       Some (fst q, chunk_size + snd q) }
     else let (s, p) = (if bounce then (s, 1) else malloc s) in
       if p = NULL then Some (s, 0) else do {
       r \<leftarrow> (if sector_ofs > 0 \<or> chunk_size < sector_left then block_read (fs_device s) sector_idx
             else Some (fs_device s, replicate BLOCK_SECTOR_SIZE 0));
       d \<leftarrow> block_write (fst r) sector_idx
         (take (nat sector_ofs) (snd r) @ take (nat chunk_size) buffer @ drop (nat (sector_ofs + chunk_size)) (snd r));
       q \<leftarrow> inode_write_loop ino (drop (nat chunk_size) buffer) (sz - chunk_size) (s32 (offset + chunk_size)) True (s\<lparr>fs_device := d\<rparr>);
       Some (fst q, chunk_size + snd q) })"
  by pat_completeness auto
termination by (relation "measure (\<lambda>(ino, buf, sz, _). nat sz)") auto

definition inode_write_at :: "ptr \<Rightarrow> byte list \<Rightarrow> int \<Rightarrow> int \<Rightarrow> fsys \<Rightarrow> (fsys \<times> int) option" where
  "inode_write_at i buffer sz offset s = do {
     ino \<leftarrow> inodes s i;
     if deny_write_cnt ino \<noteq> 0 then Some (s, 0) else inode_write_loop ino buffer sz offset False s }"

definition inode_deny_write :: "ptr \<Rightarrow> fsys \<Rightarrow> fsys option" where
  "inode_deny_write i s = do {
     ino \<leftarrow> inodes s i;
     let ino = ino\<lparr>deny_write_cnt := s32 (deny_write_cnt ino + 1)\<rparr>;
     ASSERT (deny_write_cnt ino \<le> open_cnt ino);
     Some (s\<lparr>inodes := (inodes s)(i \<mapsto> ino)\<rparr>) }"

definition inode_allow_write :: "ptr \<Rightarrow> fsys \<Rightarrow> fsys option" where
  "inode_allow_write i s = do {
     ino \<leftarrow> inodes s i;
     ASSERT (deny_write_cnt ino > 0);
     ASSERT (deny_write_cnt ino \<le> open_cnt ino);
     Some (s\<lparr>inodes := (inodes s)(i \<mapsto> ino\<lparr>deny_write_cnt := deny_write_cnt ino - 1\<rparr>)\<rparr>) }"

declare inode_read_loop.simps [simp del] inode_write_loop.simps [simp del]

subsection \<open>The bytes of a file\<close>

text \<open>The bytes of \<open>n\<close> consecutive sectors, and the extent of an inode.\<close>

definition img :: "block \<Rightarrow> nat \<Rightarrow> nat \<Rightarrow> byte list" where
  "img b st n = concat (map (b_disk b) [st..<st + n])"

definition data_wf :: "block \<Rightarrow> inode_disk \<Rightarrow> bool" where
  "data_wf b d \<longleftrightarrow> disk_wf b \<and> b_size b < 2 ^ 32 \<and> 0 \<le> d_length d \<and> d_length d + 511 < 2 ^ 31 \<and>
     d_start d + bytes_to_sectors (d_length d) \<le> b_size b"

definition content :: "block \<Rightarrow> inode_disk \<Rightarrow> byte list" where
  "content b d = take (nat (d_length d)) (img b (d_start d) (bytes_to_sectors (d_length d)))"

lemma length_img: "disk_wf b \<Longrightarrow> st + n \<le> b_size b \<Longrightarrow> length (img b st n) = 512 * n"
  by (induction n) (auto simp: img_def disk_wf_def BLOCK_SECTOR_SIZE_def)

lemma img_Suc: "img b st (Suc n) = b_disk b st @ img b (Suc st) n"
  unfolding img_def by (subst upt_conv_Cons) auto

lemma img_drop: "disk_wf b \<Longrightarrow> st + n \<le> b_size b \<Longrightarrow> k \<le> n \<Longrightarrow> drop (512 * k) (img b st n) = img b (st + k) (n - k)"
proof (induction k arbitrary: st n)
  case (Suc k)
  then obtain m where m: "n = Suc m" by (cases n) auto
  have "length (b_disk b st) = 512" using Suc.prems m by (auto simp: disk_wf_def BLOCK_SECTOR_SIZE_def)
  then show ?case using Suc.prems m Suc.IH [of "Suc st" m] by (simp add: img_Suc)
qed simp

lemma img_cong: "(\<And>s. st \<le> s \<Longrightarrow> s < st + n \<Longrightarrow> b_disk b s = b_disk b' s) \<Longrightarrow> img b st n = img b' st n"
  unfolding img_def by (rule arg_cong [of _ _ concat]) auto

lemma img_write:
  assumes "disk_wf b" "st + n \<le> b_size b" "k < n" "length x = 512"
  shows "img (b\<lparr>b_disk := (b_disk b)(st + k := x), write_cnt := c\<rparr>) st n =
    take (512 * k) (img b st n) @ x @ drop (512 * Suc k) (img b st n)"
  using assms
proof (induction k arbitrary: st n)
  case 0
  then obtain m where m: "n = Suc m" by (cases n) auto
  have "length (b_disk b st) = 512" using 0 m by (auto simp: disk_wf_def BLOCK_SECTOR_SIZE_def)
  moreover have "img (b\<lparr>b_disk := (b_disk b)(st := x), write_cnt := c\<rparr>) (Suc st) m = img b (Suc st) m"
    by (rule img_cong) simp
  ultimately show ?case using m by (simp add: img_Suc fun_upd_same del: fun_upd_apply)
next
  case (Suc k)
  then obtain m where m: "n = Suc m" by (cases n) auto
  have "length (b_disk b st) = 512" using Suc.prems m by (auto simp: disk_wf_def BLOCK_SECTOR_SIZE_def)
  then show ?case using Suc.prems Suc.IH [of "Suc st" m] m by (simp add: img_Suc)
qed

subsection \<open>Reading\<close>

lemma bytes_to_sectors_eq: "0 \<le> len \<Longrightarrow> len + 511 < 2 ^ 31 \<Longrightarrow> bytes_to_sectors len = (nat len + 511) div 512"
  by (simp add: bytes_to_sectors_def BLOCK_SECTOR_SIZE_def sdivmod_nonneg nat_div_distrib nat_add_distrib)

lemma data_wf_facts:
  assumes "data_wf b d"
  shows "disk_wf b" "0 \<le> d_length d" "d_length d < 2 ^ 31" "d_start d + bytes_to_sectors (d_length d) \<le> b_size b"
    "nat (d_length d) \<le> 512 * bytes_to_sectors (d_length d)" "b_size b < 2 ^ 32"
proof -
  show "disk_wf b" "0 \<le> d_length d" "d_length d < 2 ^ 31" "d_start d + bytes_to_sectors (d_length d) \<le> b_size b" "b_size b < 2 ^ 32"
    using assms by (auto simp: data_wf_def)
  show "nat (d_length d) \<le> 512 * bytes_to_sectors (d_length d)"
    using assms by (simp add: data_wf_def bytes_to_sectors_eq)
qed

lemma length_content: "data_wf b d \<Longrightarrow> length (content b d) = nat (d_length d)"
  using data_wf_facts [of b d] by (simp add: content_def length_img)

lemma chunk_eq:
  assumes "data_wf b (i_data ino)" "0 \<le> offset" "offset < 2 ^ 31"
  shows "chunk ino sz offset = (offset mod 512, 512 - offset mod 512,
    min sz (min (d_length (i_data ino) - offset) (512 - offset mod 512)))"
  using assms data_wf_facts(2,3) [OF assms(1)]
  by (auto simp: chunk_def Let_def inode_length_def BLOCK_SECTOR_SIZE_def sdivmod_nonneg min_def)

lemma byte_to_sector_eq:
  assumes w: "data_wf b (i_data ino)" and o: "0 \<le> offset" "offset < d_length (i_data ino)"
  shows "byte_to_sector ino offset = d_start (i_data ino) + nat offset div 512"
    "nat offset div 512 < bytes_to_sectors (d_length (i_data ino))"
proof -
  note f = data_wf_facts [OF w]
  have "nat offset < 512 * bytes_to_sectors (d_length (i_data ino))" using f(5) o by linarith
  then show k: "nat offset div 512 < bytes_to_sectors (d_length (i_data ino))"
    by (simp add: div_less_iff_less_mult mult.commute)
  then show "byte_to_sector ino offset = d_start (i_data ino) + nat offset div 512"
    using f(3,4,6) o by (simp add: byte_to_sector_def BLOCK_SECTOR_SIZE_def sdivmod_nonneg nat_div_distrib zdiv_int)
qed

lemma content_piece:
  assumes w: "data_wf b d" and o: "off + c \<le> nat (d_length d)" "c \<le> 512 - off mod 512" "0 < c"
  shows "take c (drop off (content b d)) = take c (drop (off mod 512) (b_disk b (d_start d + off div 512)))"
proof -
  note f = data_wf_facts [OF w]
  let ?n = "bytes_to_sectors (d_length d)" and ?k = "off div 512"
  have "off < 512 * ?n" using f(5) o by linarith
  then have k: "?k < ?n" by (simp add: div_less_iff_less_mult mult.commute)
  have e: "drop off xs = drop (off mod 512) (drop (512 * ?k) xs)" for xs :: "byte list" by simp
  have "drop (512 * ?k) (img b (d_start d) ?n) = img b (d_start d + ?k) (?n - ?k)"
    using f(1,4) k by (intro img_drop) auto
  also have "\<dots> = b_disk b (d_start d + ?k) @ img b (Suc (d_start d + ?k)) (?n - ?k - 1)"
    using k img_Suc [of b "d_start d + ?k" "?n - ?k - 1"] Suc_diff_1 [of "?n - ?k"] by simp
  finally have d: "drop off (img b (d_start d) ?n) =
      drop (off mod 512) (b_disk b (d_start d + ?k) @ img b (Suc (d_start d + ?k)) (?n - ?k - 1))"
    by (subst e) simp
  have "length (b_disk b (d_start d + ?k)) = 512" using f(1,4) k by (auto simp: disk_wf_def BLOCK_SECTOR_SIZE_def)
  moreover have "c \<le> nat (d_length d) - off" using o(1) by simp
  ultimately show ?thesis using o by (simp add: content_def drop_take d min_def)
qed

lemma take_piece: "c \<le> n \<Longrightarrow> take n (drop off xs) = take c (drop off xs) @ take (n - c) (drop (off + c) xs)"
  by (metis add.commute drop_drop le_add_diff_inverse take_add)

lemma content_read_cnt [simp]: "content (b\<lparr>read_cnt := c\<rparr>) d = content b d" "data_wf (b\<lparr>read_cnt := c\<rparr>) d = data_wf b d"
  by (simp_all add: content_def img_def data_wf_def disk_wf_def)

definition mem_ok :: "fsys \<Rightarrow> bool" where
  "mem_ok s \<longleftrightarrow> fs_mem s 0 \<noteq> NULL"

text \<open>A transfer allocates at most one bounce buffer.\<close>

definition mem_after :: "bool \<Rightarrow> fsys \<Rightarrow> (nat \<Rightarrow> ptr) \<Rightarrow> bool" where
  "mem_after bounce s m \<longleftrightarrow> m = fs_mem s \<or> \<not> bounce \<and> m = (\<lambda>n. fs_mem s (Suc n))"

lemma malloc_mem: "\<exists>m. (if b then s else fst (malloc s)) = s\<lparr>fs_mem := m\<rparr> \<and> mem_after b s m"
proof (cases b)
  case True
  then have "(if b then s else fst (malloc s)) = s\<lparr>fs_mem := fs_mem s\<rparr>" by simp
  then show ?thesis by (intro exI [of _ "fs_mem s"]) (simp add: mem_after_def)
qed (auto simp: malloc_def mem_after_def)

lemma mem_after_trans:
  "mem_after b s (fs_mem s1) \<Longrightarrow> b' \<or> fs_mem s1 = fs_mem s \<Longrightarrow> (b \<Longrightarrow> b') \<Longrightarrow> mem_after b' s1 m \<Longrightarrow> mem_after b s m"
  by (auto simp: mem_after_def)

definition read_result :: "inode \<Rightarrow> int \<Rightarrow> int \<Rightarrow> bool \<Rightarrow> fsys \<Rightarrow> bool" where
  "read_result ino sz offset bounce s \<longleftrightarrow> (\<exists>c m n.
     inode_read_loop ino sz offset bounce s = Some (s\<lparr>fs_device := (fs_device s)\<lparr>read_cnt := c\<rparr>, fs_mem := m\<rparr>,
       take n (take (nat sz) (drop (nat offset) (content (fs_device s) (i_data ino))))) \<and>
     mem_after bounce s m \<and> (bounce \<or> mem_ok s \<longrightarrow> nat sz \<le> n))"

lemma read_result_none:
  assumes "inode_read_loop ino sz offset bounce s = Some (s, [])" "take (nat sz) (drop (nat offset) (content (fs_device s) (i_data ino))) = []"
  shows "read_result ino sz offset bounce s"
  unfolding read_result_def
  by (intro exI [of _ "read_cnt (fs_device s)"] exI [of _ "fs_mem s"] exI [of _ "nat sz"]) (use assms in \<open>simp add: mem_after_def\<close>)

lemma read_result_step:
  assumes w: "data_wf (fs_device s) (i_data ino)" and o: "0 \<le> offset" "offset < 2 ^ 31" "0 < sz"
    and c: "chunk ino sz offset = (ofs, left, c)" "0 < c"
    and s1: "s1 = s\<lparr>fs_device := (fs_device s)\<lparr>read_cnt := rc\<rparr>, fs_mem := m1\<rparr>"
    and q: "read_result ino (sz - c) (s32 (offset + c)) b' s1"
    and e: "inode_read_loop ino sz offset b s = do {
       q \<leftarrow> inode_read_loop ino (sz - c) (s32 (offset + c)) b' s1;
       Some (fst q, take (nat c) (drop (nat ofs) (b_disk (fs_device s) (byte_to_sector ino offset))) @ snd q) }"
    and b: "b \<or> mem_ok s \<Longrightarrow> b' \<or> mem_ok s1"
    and mm: "mem_after b s m1" "b' \<or> m1 = fs_mem s" "b \<Longrightarrow> b'"
  shows "read_result ino sz offset b s"
proof -
  let ?d = "i_data ino" and ?X = "content (fs_device s) (i_data ino)"
  note f = data_wf_facts [OF w]
  have cc: "ofs = offset mod 512" "c = min sz (min (d_length ?d - offset) (512 - offset mod 512))"
    using chunk_eq [OF w o(1,2), of sz] c(1) by auto
  have ol: "offset < d_length ?d" "offset + c \<le> d_length ?d" "c \<le> sz" "c \<le> 512 - offset mod 512" using cc(2) c(2) by auto
  have so: "s32 (offset + c) = offset + c" using ol(2) f(3) o(1) c(2) by simp
  have n: "nat (offset + c) = nat offset + nat c" "nat (sz - c) = nat sz - nat c" "nat ofs = nat offset mod 512"
    using o c(2) cc(1) by (auto simp: nat_add_distrib nat_diff_distrib nat_mod_distrib)
  have p: "take (nat c) (drop (nat ofs) (b_disk (fs_device s) (byte_to_sector ino offset))) = take (nat c) (drop (nat offset) ?X)"
    using content_piece [OF w, of "nat offset" "nat c"] ol o(1) c(2) n(3) byte_to_sector_eq(1) [OF w o(1) ol(1)]
    by (simp add: nat_add_distrib [symmetric] nat_le_iff nat_mod_distrib) (simp add: zmod_int)
  from q obtain c1 m2 k where k: "inode_read_loop ino (sz - c) (offset + c) b' s1 =
      Some (s\<lparr>fs_device := (fs_device s)\<lparr>read_cnt := c1\<rparr>, fs_mem := m2\<rparr>, take k (take (nat sz - nat c) (drop (nat offset + nat c) ?X)))"
    "b' \<or> mem_ok s1 \<Longrightarrow> nat sz - nat c \<le> k" "mem_after b' s1 m2"
    unfolding read_result_def so s1 n by (auto simp: s1)
  have m2: "mem_after b s m2" by (rule mem_after_trans [of b s s1 b']) (use mm k(3) in \<open>simp_all add: s1\<close>)
  have "length (take (nat c) (drop (nat offset) ?X)) = nat c"
    using ol(2) o(1) c(2) length_content [OF w] by (simp add: min_def nat_le_iff) linarith
  then have "take (nat c) (drop (nat offset) ?X) @ take k (take (nat sz - nat c) (drop (nat offset + nat c) ?X)) =
      take (nat c + k) (take (nat sz) (drop (nat offset) ?X))"
    using take_piece [of "nat c" "nat sz" "nat offset" ?X] ol(3) by simp
  then show ?thesis
    unfolding read_result_def
    by (intro exI [of _ c1] exI [of _ m2] exI [of _ "nat c + k"]) (use e k(1,2) m2 b so p in auto)
qed

lemma inode_read_loop_spec:
  assumes "data_wf (fs_device s) (i_data ino)" "0 \<le> offset" "offset < 2 ^ 31"
  shows "read_result ino sz offset bounce s"
  using assms
proof (induction "nat sz" arbitrary: sz offset bounce s rule: less_induct)
  case (less sz offset bounce s)
  note w = less.prems(1) and o = less.prems(2,3)
  let ?d = "i_data ino"
  note f = data_wf_facts [OF w]
  obtain ofs left c where c: "chunk ino sz offset = (ofs, left, c)" by (metis prod.exhaust)
  have cc: "ofs = offset mod 512" "left = 512 - offset mod 512" "c = min sz (min (d_length ?d - offset) (512 - offset mod 512))"
    using chunk_eq [OF w o, of sz] c by auto
  show ?case
  proof (cases "sz \<le> 0 \<or> c \<le> 0")
    case True
    then have "inode_read_loop ino sz offset bounce s = Some (s, [])" using c by (subst inode_read_loop.simps) auto
    moreover have "sz \<le> 0 \<or> nat (d_length ?d) \<le> nat offset" using True cc(3) by (auto simp: min_def split: if_splits)
    ultimately show ?thesis using length_content [OF w] by (intro read_result_none) auto
  next
    case False
    then have p: "\<not> sz \<le> 0" "\<not> c \<le> 0" "0 < sz" "0 < c" by auto
    have ol: "offset < d_length ?d" "offset + c \<le> d_length ?d" using cc(3) p by auto
    have so: "s32 (offset + c) = offset + c" using ol(2) f(3) o p(4) by simp
    have so': "0 \<le> s32 (offset + c)" "s32 (offset + c) < 2 ^ 31" using ol(2) f(3) o p(4) so by auto
    note idx = byte_to_sector_eq [OF w o(1) ol(1)]
    have rd: "block_read (fs_device s') (byte_to_sector ino offset) =
        Some ((fs_device s)\<lparr>read_cnt := (read_cnt (fs_device s) + 1) mod 2 ^ 64\<rparr>, b_disk (fs_device s) (byte_to_sector ino offset))"
      if "fs_device s' = fs_device s" for s' using idx f(4) that by (simp add: block_read_eq)
    show ?thesis
    proof (cases "ofs = 0 \<and> c = int BLOCK_SECTOR_SIZE")
      case True
      have "length (b_disk (fs_device s) (byte_to_sector ino offset)) = 512"
        using f(1,4) idx by (simp add: disk_wf_def BLOCK_SECTOR_SIZE_def)
      then have e: "take (nat c) (drop (nat ofs) (b_disk (fs_device s) (byte_to_sector ino offset))) =
          b_disk (fs_device s) (byte_to_sector ino offset)" using True by (simp add: BLOCK_SECTOR_SIZE_def)
      let ?s1 = "s\<lparr>fs_device := (fs_device s)\<lparr>read_cnt := (read_cnt (fs_device s) + 1) mod 2 ^ 64\<rparr>\<rparr>"
      have q: "read_result ino (sz - c) (s32 (offset + c)) bounce ?s1"
        by (rule less.hyps) (use w so' p in simp_all)
      have e': "inode_read_loop ino sz offset bounce s = do {
           q \<leftarrow> inode_read_loop ino (sz - c) (s32 (offset + c)) bounce ?s1;
           Some (fst q, take (nat c) (drop (nat ofs) (b_disk (fs_device s) (byte_to_sector ino offset))) @ snd q) }"
        unfolding e using p True c rd [OF refl] by (subst inode_read_loop.simps) (simp add: Let_def)
      have s1: "?s1 = s\<lparr>fs_device := (fs_device s)\<lparr>read_cnt := (read_cnt (fs_device s) + 1) mod 2 ^ 64\<rparr>, fs_mem := fs_mem s\<rparr>" by simp
      show ?thesis by (rule read_result_step [OF w o p(3) c p(4) s1 q e']) (simp_all add: mem_ok_def mem_after_def)
    next
      case False
      let ?s0 = "if bounce then s else fst (malloc s)"
      have m: "\<exists>m. ?s0 = s\<lparr>fs_mem := m\<rparr> \<and> mem_after bounce s m" by (rule malloc_mem)
      then have d0: "fs_device ?s0 = fs_device s" by auto
      let ?s1 = "?s0\<lparr>fs_device := (fs_device s)\<lparr>read_cnt := (read_cnt (fs_device s) + 1) mod 2 ^ 64\<rparr>\<rparr>"
      show ?thesis
      proof (cases "\<not> bounce \<and> snd (malloc s) = NULL")
        case True
        then have "inode_read_loop ino sz offset bounce s = Some (?s0, [])"
          using p False c by (subst inode_read_loop.simps) (auto simp: Let_def split: prod.splits)
        moreover have "\<not> mem_ok s" using True by (auto simp: mem_ok_def malloc_def)
        moreover obtain m where "?s0 = s\<lparr>fs_mem := m\<rparr>" "mem_after bounce s m" using m by blast
        ultimately show ?thesis using True unfolding read_result_def
          by (intro exI [of _ "read_cnt (fs_device s)"] exI [of _ m] exI [of _ 0]) simp
      next
        case ok: False
        have q: "read_result ino (sz - c) (s32 (offset + c)) True ?s1"
          by (rule less.hyps) (use w so' p in simp_all)
        have e: "inode_read_loop ino sz offset bounce s = do {
           q \<leftarrow> inode_read_loop ino (sz - c) (s32 (offset + c)) True ?s1;
           Some (fst q, take (nat c) (drop (nat ofs) (b_disk (fs_device s) (byte_to_sector ino offset))) @ snd q) }"
          using p False c ok rd [OF d0] by (subst inode_read_loop.simps) (auto simp: Let_def split: prod.splits)
        obtain m where m: "?s0 = s\<lparr>fs_mem := m\<rparr>" "mem_after bounce s m" using m by blast
        then have s1: "?s1 = s\<lparr>fs_device := (fs_device s)\<lparr>read_cnt := (read_cnt (fs_device s) + 1) mod 2 ^ 64\<rparr>, fs_mem := m\<rparr>" by simp
        show ?thesis by (rule read_result_step [OF w o p(3) c p(4) s1 q e]) (use m(2) in simp_all)
      qed
    qed
  qed
qed

lemma inode_read_at_spec:
  assumes "inodes s i = Some ino" "data_wf (fs_device s) (i_data ino)" "0 \<le> offset" "offset < 2 ^ 31"
  shows "\<exists>c m n. inode_read_at i sz offset s = Some (s\<lparr>fs_device := (fs_device s)\<lparr>read_cnt := c\<rparr>, fs_mem := m\<rparr>,
       take n (take (nat sz) (drop (nat offset) (content (fs_device s) (i_data ino))))) \<and>
     mem_after False s m \<and> (mem_ok s \<longrightarrow> nat sz \<le> n)"
  using inode_read_loop_spec [OF assms(2-4), of sz False] assms(1) by (simp add: inode_read_at_def read_result_def)

subsection \<open>Writing\<close>

text \<open>The list \<open>xs\<close> with its elements from \<open>off\<close> on replaced by \<open>ys\<close>.\<close>

definition overwrite :: "'a list \<Rightarrow> nat \<Rightarrow> 'a list \<Rightarrow> 'a list" where
  "overwrite xs off ys = take off xs @ ys @ drop (off + length ys) xs"

lemma overwrite_nil [simp]: "off \<le> length xs \<Longrightarrow> overwrite xs off [] = xs"
  by (simp add: overwrite_def)

lemma length_overwrite [simp]: "off + length ys \<le> length xs \<Longrightarrow> length (overwrite xs off ys) = length xs"
  by (simp add: overwrite_def)

lemma overwrite_overwrite:
  "off + length ys + length zs \<le> length xs \<Longrightarrow> overwrite (overwrite xs off ys) (off + length ys) zs = overwrite xs off (ys @ zs)"
  by (simp add: overwrite_def ac_simps)

lemma take_overwrite: "off + length ys \<le> n \<Longrightarrow> n \<le> length xs \<Longrightarrow> take n (overwrite xs off ys) = overwrite (take n xs) off ys"
proof -
  assume a: "off + length ys \<le> n" "n \<le> length xs"
  have "take n xs = take off xs \<and> ys = []" if "n \<le> off" using a that by (cases ys) auto
  then show ?thesis using a by (auto simp: overwrite_def drop_take min_def)
qed

lemma read_overwrite: "off + length ys \<le> length xs \<Longrightarrow> take (length ys) (drop off (overwrite xs off ys)) = ys"
  by (simp add: overwrite_def)

lemma read_overwrite_before: "o' + n \<le> off \<Longrightarrow> off \<le> length xs \<Longrightarrow> take n (drop o' (overwrite xs off ys)) = take n (drop o' xs)"
  by (auto simp: overwrite_def drop_take min_def)

text \<open>Writing a piece within one sector overwrites the same piece of the contents.\<close>

lemma content_write:
  assumes w: "data_wf b d" and o: "off + length ys \<le> nat (d_length d)" "length ys \<le> 512 - off mod 512" "0 < length ys"
    and x: "x = overwrite (b_disk b (d_start d + off div 512)) (off mod 512) ys"
  shows "content (b\<lparr>b_disk := (b_disk b)(d_start d + off div 512 := x), write_cnt := c\<rparr>) d = overwrite (content b d) off ys"
proof -
  note f = data_wf_facts [OF w]
  let ?n = "bytes_to_sectors (d_length d)" and ?k = "off div 512" and ?I = "img b (d_start d) (bytes_to_sectors (d_length d))"
  have "off < 512 * ?n" using f(5) o by linarith
  then have k: "?k < ?n" by (simp add: div_less_iff_less_mult mult.commute)
  have L: "length (b_disk b (d_start d + ?k)) = 512" using f(1,4) k by (auto simp: disk_wf_def BLOCK_SECTOR_SIZE_def)
  have lx: "length x = 512" unfolding x using L o(2) by simp
  have li: "length ?I = 512 * ?n" using f(1,4) by (rule length_img)
  have D: "drop (512 * ?k) ?I = b_disk b (d_start d + ?k) @ drop (512 * Suc ?k) ?I"
    using img_drop [OF f(1,4), of ?k] img_drop [OF f(1,4), of "Suc ?k"] k
      img_Suc [of b "d_start d + ?k" "?n - ?k - 1"] Suc_diff_1 [of "?n - ?k"] by simp
  have I: "?I = take (512 * ?k) ?I @ b_disk b (d_start d + ?k) @ drop (512 * Suc ?k) ?I"
    using append_take_drop_id [of "512 * ?k" ?I] D by simp
  have t: "length (take (512 * ?k) ?I) + off mod 512 = off" using li k by simp
  have gen: "T @ overwrite B r ys @ R = overwrite (T @ B @ R) (length T + r) ys"
    if "r + length ys \<le> length B" for T B R :: "byte list" and r
    using that by (simp add: overwrite_def)
  have "img (b\<lparr>b_disk := (b_disk b)(d_start d + ?k := x), write_cnt := c\<rparr>) (d_start d) ?n = overwrite ?I off ys"
  proof -
    have "take (512 * ?k) ?I @ x @ drop (512 * Suc ?k) ?I =
        overwrite (take (512 * ?k) ?I @ b_disk b (d_start d + ?k) @ drop (512 * Suc ?k) ?I) (length (take (512 * ?k) ?I) + off mod 512) ys"
      unfolding x by (rule gen) (use L o(2) in simp)
    also have "\<dots> = overwrite ?I off ys" by (simp only: I [symmetric] t)
    finally show ?thesis using img_write [OF f(1,4) k lx] by simp
  qed
  then show ?thesis using o(1) f(5) li by (simp add: content_def take_overwrite)
qed

lemma data_wf_write:
  assumes w: "data_wf b d" and x: "length x = 512"
  shows "data_wf (b\<lparr>b_disk := (b_disk b)(s := x), write_cnt := c\<rparr>) d'  \<longleftrightarrow> data_wf b d'"
  using assms by (auto simp: data_wf_def disk_wf_def BLOCK_SECTOR_SIZE_def)

text \<open>
  A write stores a prefix of the buffer, up to the end of the file, and changes nothing else of the
  disk; with memory for the bounce buffer the prefix is as long as the file allows.
\<close>

definition outside :: "inode_disk \<Rightarrow> nat set" where
  "outside d = - {d_start d ..< d_start d + bytes_to_sectors (d_length d)}"

definition write_result :: "inode \<Rightarrow> byte list \<Rightarrow> int \<Rightarrow> int \<Rightarrow> bool \<Rightarrow> fsys \<Rightarrow> bool" where
  "write_result ino buffer sz offset bounce s \<longleftrightarrow> (\<exists>b m n.
     inode_write_loop ino buffer sz offset bounce s = Some (s\<lparr>fs_device := b, fs_mem := m\<rparr>, int n) \<and>
     mem_after bounce s m \<and> n \<le> nat sz \<and> (0 < n \<longrightarrow> nat offset + n \<le> nat (d_length (i_data ino))) \<and>
     (bounce \<or> mem_ok s \<longrightarrow> n = min (nat sz) (nat (d_length (i_data ino)) - nat offset)) \<and>
     data_wf b (i_data ino) \<and> b_size b = b_size (fs_device s) \<and> b_type b = b_type (fs_device s) \<and>
     b_name b = b_name (fs_device s) \<and>
     (\<forall>x\<in>outside (i_data ino). b_disk b x = b_disk (fs_device s) x) \<and>
     content b (i_data ino) = (if n = 0 then content (fs_device s) (i_data ino)
       else overwrite (content (fs_device s) (i_data ino)) (nat offset) (take n buffer)))"

lemma write_result_none:
  assumes "inode_write_loop ino buffer sz offset bounce s = Some (s\<lparr>fs_mem := m\<rparr>, 0)" "mem_after bounce s m" "data_wf (fs_device s) (i_data ino)"
    "bounce \<or> mem_ok s \<Longrightarrow> nat sz = 0 \<or> nat (d_length (i_data ino)) \<le> nat offset"
  shows "write_result ino buffer sz offset bounce s"
  unfolding write_result_def
  by (intro exI [of _ "fs_device s"] exI [of _ m] exI [of _ 0]) (use assms in auto)

lemma piece_arith:
  fixes c sz off len k :: nat
  assumes "c \<le> sz" "off + c \<le> len" "k \<le> sz - c" "0 < k \<Longrightarrow> off + c + k \<le> len"
  shows "c + min (sz - c) (len - (off + c)) = min sz (len - off)" "c + k \<le> sz" "off + (c + k) \<le> len"
  using assms(1-3) assms(4) by (auto simp: min_def) (cases "k = 0"; simp)

lemma write_result_step:
  assumes w: "data_wf (fs_device s) (i_data ino)" and o: "0 \<le> offset" "offset < 2 ^ 31" "0 < sz" "sz \<le> int (length buffer)"
    and c: "chunk ino sz offset = (ofs, left, c)" "0 < c"
    and x: "x = overwrite (b_disk (fs_device s) (byte_to_sector ino offset)) (nat ofs) (take (nat c) buffer)"
    and s1: "s1 = s\<lparr>fs_device := (fs_device s)\<lparr>b_disk := (b_disk (fs_device s))(byte_to_sector ino offset := x), write_cnt := wc, read_cnt := rc\<rparr>, fs_mem := m1\<rparr>"
    and q: "data_wf (fs_device s1) (i_data ino) \<Longrightarrow> write_result ino (drop (nat c) buffer) (sz - c) (s32 (offset + c)) b' s1"
    and e: "inode_write_loop ino buffer sz offset b s = do {
       q \<leftarrow> inode_write_loop ino (drop (nat c) buffer) (sz - c) (s32 (offset + c)) b' s1;
       Some (fst q, c + snd q) }"
    and b: "b \<or> mem_ok s \<Longrightarrow> b' \<or> mem_ok s1"
    and mm: "mem_after b s m1" "b' \<or> m1 = fs_mem s" "b \<Longrightarrow> b'"
  shows "write_result ino buffer sz offset b s"
proof -
  let ?d = "i_data ino" and ?X = "content (fs_device s) (i_data ino)"
  note f = data_wf_facts [OF w]
  have cc: "ofs = offset mod 512" "c = min sz (min (d_length ?d - offset) (512 - offset mod 512))"
    using chunk_eq [OF w o(1,2), of sz] c(1) by auto
  have ol: "offset < d_length ?d" "offset + c \<le> d_length ?d" "c \<le> sz" "c \<le> 512 - offset mod 512" using cc(2) c(2) by auto
  have so: "s32 (offset + c) = offset + c" using ol(2) f(3) o(1) c(2) by simp
  have n1: "nat (offset + c) = nat offset + nat c" "nat (sz - c) = nat sz - nat c" "nat ofs = nat offset mod 512"
    using o(1) c(2) ol(3) cc(1) by (simp_all add: nat_add_distrib nat_diff_distrib nat_mod_distrib)
  have n2: "nat offset + nat c \<le> nat (d_length ?d)" using nat_mono [OF ol(2)] n1(1) by simp
  have n3: "nat c \<le> nat sz" "nat sz \<le> length buffer" using ol(3) o(4) by simp_all
  have "nat c + nat ofs = nat (c + ofs)" using c(2) cc(1) by (simp add: nat_add_distrib)
  also have "\<dots> \<le> 512" using ol(4) cc(1) by (simp add: nat_le_iff)
  finally have n4: "nat c + nat offset mod 512 \<le> 512" using n1(3) by simp
  note n = n1 n2 n3(1) add_le_imp_le_diff [OF n4] n3(2)
  note idx = byte_to_sector_eq [OF w o(1) ol(1)]
  let ?ys = "take (nat c) buffer"
  have ly: "length ?ys = nat c" using n(5,7) by simp
  have L: "length (b_disk (fs_device s) (byte_to_sector ino offset)) = 512"
    using f(1,4) idx by (simp add: disk_wf_def BLOCK_SECTOR_SIZE_def)
  have "nat offset mod 512 + nat c \<le> 512" using n(6) mod_less_divisor [of 512 "nat offset"] by linarith
  then have lx: "length x = 512" unfolding x n(3) using L ly by (subst length_overwrite) (simp_all del: length_take)
  have w1: "data_wf (fs_device s1) ?d" using data_wf_write [OF w lx] w by (simp add: s1)
  have c1: "content (fs_device s1) ?d = overwrite ?X (nat offset) ?ys"
  proof -
    have "content ((fs_device s)\<lparr>b_disk := (b_disk (fs_device s))(d_start ?d + nat offset div 512 := x), write_cnt := wc\<rparr>) ?d =
        overwrite ?X (nat offset) ?ys"
      by (rule content_write [OF w]) (use n(4,6) c(2) x in \<open>simp_all only: ly n(3) idx(1) zero_less_nat_eq\<close>)
    then show ?thesis by (simp add: s1 idx(1))
  qed
  from q [OF w1] obtain bb m k where k: "inode_write_loop ino (drop (nat c) buffer) (sz - c) (s32 (offset + c)) b' s1 =
       Some (s1\<lparr>fs_device := bb, fs_mem := m\<rparr>, int k)" "k \<le> nat sz - nat c"
     "0 < k \<Longrightarrow> nat offset + nat c + k \<le> nat (d_length ?d)"
     "b' \<or> mem_ok s1 \<Longrightarrow> k = min (nat sz - nat c) (nat (d_length ?d) - (nat offset + nat c))"
     "data_wf bb ?d" "b_size bb = b_size (fs_device s1)" "b_type bb = b_type (fs_device s1)" "b_name bb = b_name (fs_device s1)"
     "\<forall>x\<in>outside ?d. b_disk bb x = b_disk (fs_device s1) x"
     "content bb ?d = (if k = 0 then content (fs_device s1) ?d
        else overwrite (content (fs_device s1) ?d) (nat offset + nat c) (take k (drop (nat c) buffer)))" "mem_after b' s1 m"
    unfolding write_result_def so n by blast
  have m2: "mem_after b s m" by (rule mem_after_trans [of b s s1 b']) (use mm k(11) in \<open>simp_all add: s1\<close>)
  have "byte_to_sector ino offset \<notin> outside ?d" using idx by (simp add: outside_def)
  then have out: "\<forall>x\<in>outside ?d. b_disk bb x = b_disk (fs_device s) x" using k(9) by (auto simp: s1)
  have tk: "take (nat c + k) buffer = ?ys @ take k (drop (nat c) buffer)" by (rule take_add)
  note ar = piece_arith [OF n(5,4) k(2,3)]
  have F1: "content bb ?d = overwrite ?X (nat offset) (take (nat c + k) buffer)"
  proof (cases "k = 0")
    case False
    have lk: "length (take k (drop (nat c) buffer)) = k" using k(2) n(5,7) by simp
    have "nat offset + length ?ys + length (take k (drop (nat c) buffer)) \<le> length ?X"
      unfolding ly lk length_content [OF w] using ar(3) by (simp only: add.assoc)
    from overwrite_overwrite [OF this] show ?thesis
      using k(10) False unfolding c1 tk ly by (simp only: if_False)
  qed (use k(10) c1 in simp)
  have F2: "inode_write_loop ino buffer sz offset b s = Some (s\<lparr>fs_device := bb, fs_mem := m\<rparr>, int (nat c + k))"
    using e k(1) c(2) by (simp add: s1)
  have F3: "b \<or> mem_ok s \<longrightarrow> nat c + k = min (nat sz) (nat (d_length ?d) - nat offset)"
    using ar(1) k(4) b by (metis (no_types))
  have F4: "b_size bb = b_size (fs_device s)" "b_type bb = b_type (fs_device s)" "b_name bb = b_name (fs_device s)"
    using k(6-8) by (simp_all add: s1)
  have F5: "content bb ?d = (if nat c + k = 0 then ?X else overwrite ?X (nat offset) (take (nat c + k) buffer))"
    using F1 c(2) by simp
  have "inode_write_loop ino buffer sz offset b s = Some (s\<lparr>fs_device := bb, fs_mem := m\<rparr>, int (nat c + k)) \<and>
     mem_after b s m \<and> nat c + k \<le> nat sz \<and> (0 < nat c + k \<longrightarrow> nat offset + (nat c + k) \<le> nat (d_length ?d)) \<and>
     (b \<or> mem_ok s \<longrightarrow> nat c + k = min (nat sz) (nat (d_length ?d) - nat offset)) \<and>
     data_wf bb ?d \<and> b_size bb = b_size (fs_device s) \<and> b_type bb = b_type (fs_device s) \<and>
     b_name bb = b_name (fs_device s) \<and> (\<forall>x\<in>outside ?d. b_disk bb x = b_disk (fs_device s) x) \<and>
     content bb ?d = (if nat c + k = 0 then ?X else overwrite ?X (nat offset) (take (nat c + k) buffer))"
    using F2 m2 ar(2,3) F3 k(5) F4 out F5 by blast
  then show ?thesis unfolding write_result_def by (intro exI [of _ bb] exI [of _ m] exI [of _ "nat c + k"])
qed

lemma inode_write_loop_spec:
  assumes "data_wf (fs_device s) (i_data ino)" "0 \<le> offset" "offset < 2 ^ 31" "sz \<le> int (length buffer)"
  shows "write_result ino buffer sz offset bounce s"
  using assms
proof (induction "nat sz" arbitrary: sz offset buffer bounce s rule: less_induct)
  case (less sz offset buffer bounce s)
  note w = less.prems(1) and o = less.prems(2,3)
  let ?d = "i_data ino" and ?dev = "fs_device s"
  note f = data_wf_facts [OF w]
  obtain ofs left c where c: "chunk ino sz offset = (ofs, left, c)" by (metis prod.exhaust)
  have cc: "ofs = offset mod 512" "left = 512 - offset mod 512" "c = min sz (min (d_length ?d - offset) (512 - offset mod 512))"
    using chunk_eq [OF w o, of sz] c by auto
  have ft: "b_type ?dev \<noteq> BLOCK_FOREIGN" using f(1) by (simp add: disk_wf_def)
  show ?case
  proof (cases "sz \<le> 0 \<or> c \<le> 0")
    case True
    then have "inode_write_loop ino buffer sz offset bounce s = Some (s, 0)" using c by (subst inode_write_loop.simps) auto
    moreover have "sz \<le> 0 \<or> nat (d_length ?d) \<le> nat offset" using True cc(3) by (auto simp: min_def split: if_splits)
    ultimately show ?thesis using w by (intro write_result_none [of _ _ _ _ _ _ "fs_mem s"]) (auto simp: mem_after_def)
  next
    case False
    then have p: "\<not> sz \<le> 0" "\<not> c \<le> 0" "0 < sz" "0 < c" by auto
    have ol: "offset < d_length ?d" "offset + c \<le> d_length ?d" "c \<le> sz" using cc(3) p by auto
    have so: "s32 (offset + c) = offset + c" using ol(2) f(3) o p(4) by simp
    have so': "0 \<le> s32 (offset + c)" "s32 (offset + c) < 2 ^ 31" using ol(2) f(3) o p(4) so by auto
    have sl: "sz - c \<le> int (length (drop (nat c) buffer))" using less.prems(4) ol(3) p(4) by simp
    note idx = byte_to_sector_eq [OF w o(1) ol(1)]
    let ?i = "byte_to_sector ino offset"
    have il: "?i < b_size ?dev" using idx f(4) by simp
    have L: "length (b_disk ?dev ?i) = 512" using f(1) il by (simp add: disk_wf_def BLOCK_SECTOR_SIZE_def)
    have IH: "write_result ino (drop (nat c) buffer) (sz - c) (s32 (offset + c)) b' s1" if "data_wf (fs_device s1) ?d" for b' s1
      by (rule less.hyps) (use p that so' sl in simp_all)
    let ?x = "overwrite (b_disk ?dev ?i) (nat ofs) (take (nat c) buffer)"
    let ?wd = "\<lambda>rc. ?dev\<lparr>b_disk := (b_disk ?dev)(?i := ?x), write_cnt := (write_cnt ?dev + 1) mod 2 ^ 64, read_cnt := rc\<rparr>"
    note step = write_result_step [OF w o p(3) less.prems(4) c p(4) refl _ IH]
    have lb: "length (take (nat c) buffer) = nat c" using ol(3) less.prems(4) by simp
    show ?thesis
    proof (cases "ofs = 0 \<and> c = int BLOCK_SECTOR_SIZE")
      case True
      have x: "?x = take BLOCK_SECTOR_SIZE buffer" using True L lb by (simp add: overwrite_def BLOCK_SECTOR_SIZE_def)
      let ?s1 = "s\<lparr>fs_device := ?wd (read_cnt ?dev), fs_mem := fs_mem s\<rparr>"
      have "block_write ?dev ?i (take BLOCK_SECTOR_SIZE buffer) = Some (?wd (read_cnt ?dev))"
        using block_write_eq [OF il ft] x by simp
      then have e: "inode_write_loop ino buffer sz offset bounce s = do {
           q \<leftarrow> inode_write_loop ino (drop (nat c) buffer) (sz - c) (s32 (offset + c)) bounce ?s1;
           Some (fst q, c + snd q) }"
        using p True c by (subst inode_write_loop.simps) (simp add: Let_def)
      show ?thesis by (rule step [OF refl _ e]) (simp_all add: mem_ok_def mem_after_def)
    next
      case False
      let ?s0 = "if bounce then s else fst (malloc s)"
      obtain m where m: "?s0 = s\<lparr>fs_mem := m\<rparr>" "mem_after bounce s m" using malloc_mem [of bounce s] by blast
      show ?thesis
      proof (cases "\<not> bounce \<and> snd (malloc s) = NULL")
        case True
        then have "inode_write_loop ino buffer sz offset bounce s = Some (?s0, 0)"
          using p False c by (subst inode_write_loop.simps) (auto simp: Let_def split: prod.splits)
        moreover have "\<not> mem_ok s" using True by (auto simp: mem_ok_def malloc_def)
        ultimately show ?thesis using True w m by (intro write_result_none [of _ _ _ _ _ _ m]) auto
      next
        case ok: False
        obtain q where sp: "(if bounce then (s, 1) else malloc s) = (s\<lparr>fs_mem := m\<rparr>, q)" "q \<noteq> NULL"
          using m(1) ok by (cases bounce; cases "malloc s") auto
        let ?rc = "(read_cnt ?dev + 1) mod 2 ^ 64"
        have o0: "0 \<le> ofs" and cl: "c \<le> left" "left = 512 - ofs" using cc by simp_all
        have full: "ofs = 0 \<and> c = 512" if "\<not> (ofs > 0 \<or> c < left)" using that o0 cl by linarith
        then have rd: "(ofs > 0 \<or> c < left) = True" using False by (auto simp: BLOCK_SECTOR_SIZE_def)
        have x: "take (nat ofs) (b_disk ?dev ?i) @ take (nat c) buffer @ drop (nat (ofs + c)) (b_disk ?dev ?i) = ?x"
          unfolding overwrite_def lb using o0 p(4) by (simp add: nat_add_distrib)
        have r: "block_read ?dev ?i = Some (?dev\<lparr>read_cnt := ?rc\<rparr>, b_disk ?dev ?i)" by (rule block_read_eq [OF il])
        let ?s1 = "s\<lparr>fs_device := ?wd ?rc, fs_mem := m\<rparr>"
        have cm: "s\<lparr>fs_mem := m, fs_device := d\<rparr> = s\<lparr>fs_device := d, fs_mem := m\<rparr>" for d by simp
        have bw: "block_write (?dev\<lparr>read_cnt := ?rc\<rparr>) ?i ?x = Some (?wd ?rc)"
          using block_write_eq [of ?i "?dev\<lparr>read_cnt := ?rc\<rparr>"] il ft by simp
        have e: "inode_write_loop ino buffer sz offset bounce s = do {
             q \<leftarrow> inode_write_loop ino (drop (nat c) buffer) (sz - c) (s32 (offset + c)) True ?s1;
             Some (fst q, c + snd q) }"
          using p(1,2) False sp(2) r x bw
          by (subst inode_write_loop.simps) (simp only: Let_def c prod.case sp(1) rd if_True if_False fsys.simps, simp add: cm)
        show ?thesis by (rule step [OF refl _ e]) (use m(2) in simp_all)
      qed
    qed
  qed
qed

lemma inode_write_at_spec:
  assumes "inodes s i = Some ino" "deny_write_cnt ino = 0" "data_wf (fs_device s) (i_data ino)" "0 \<le> offset" "offset < 2 ^ 31"
    "sz \<le> int (length buffer)"
  shows "\<exists>b m n. inode_write_at i buffer sz offset s = Some (s\<lparr>fs_device := b, fs_mem := m\<rparr>, int n) \<and>
     mem_after False s m \<and> n \<le> nat sz \<and> (0 < n \<longrightarrow> nat offset + n \<le> nat (d_length (i_data ino))) \<and>
     (mem_ok s \<longrightarrow> n = min (nat sz) (nat (d_length (i_data ino)) - nat offset)) \<and>
     data_wf b (i_data ino) \<and> b_size b = b_size (fs_device s) \<and> b_type b = b_type (fs_device s) \<and>
     b_name b = b_name (fs_device s) \<and>
     (\<forall>x\<in>outside (i_data ino). b_disk b x = b_disk (fs_device s) x) \<and>
     content b (i_data ino) = (if n = 0 then content (fs_device s) (i_data ino)
       else overwrite (content (fs_device s) (i_data ino)) (nat offset) (take n buffer))"
  using inode_write_loop_spec [OF assms(3-6), of False] assms(1,2)
  by (simp add: inode_write_at_def write_result_def)

lemma img_outside: "\<forall>x\<in>{st..<st + n}. b_disk b' x = b_disk b x \<Longrightarrow> img b' st n = img b st n"
  by (intro img_cong) simp

text \<open>
  C3. What is written to a file is what is read back: a write of a buffer that fits into the file stores
  all of it, reading the same range returns it, and the bytes of any file on other sectors are untouched.
\<close>

theorem inode_write_read:
  assumes i: "inodes s i = Some ino" "deny_write_cnt ino = 0" "data_wf (fs_device s) (i_data ino)"
    and o: "0 \<le> offset" "offset + int (length buffer) \<le> inode_length ino"
    and m: "fs_mem s 0 \<noteq> NULL" "fs_mem s 1 \<noteq> NULL"
  shows "\<exists>s1 s2. inode_write_at i buffer (int (length buffer)) offset s = Some (s1, int (length buffer)) \<and>
    inode_read_at i (int (length buffer)) offset s1 = Some (s2, buffer) \<and>
    (\<forall>d. {d_start d..<d_start d + bytes_to_sectors (d_length d)} \<subseteq> outside (i_data ino) \<longrightarrow>
      content (fs_device s2) d = content (fs_device s) d)"
proof -
  let ?d = "i_data ino" and ?n = "length buffer"
  note f = data_wf_facts [OF i(3)]
  have L: "nat offset + ?n \<le> nat (d_length ?d)" using o by (simp add: inode_length_def le_nat_iff)
  have o2: "offset < 2 ^ 31" using o f(3) by (simp add: inode_length_def)
  have mo: "mem_ok s" using m by (simp add: mem_ok_def)
  have mn: "min (nat (int ?n)) (nat (d_length ?d) - nat offset) = ?n" using L by simp
  from inode_write_at_spec [OF i(1-3) o(1) o2, of "int ?n" buffer] obtain b m1 n where
    w0: "inode_write_at i buffer (int ?n) offset s = Some (s\<lparr>fs_device := b, fs_mem := m1\<rparr>, int n)"
      "mem_ok s \<longrightarrow> n = min (nat (int ?n)) (nat (d_length ?d) - nat offset)"
    and w1: "mem_after False s m1" "data_wf b ?d" "\<forall>x\<in>outside ?d. b_disk b x = b_disk (fs_device s) x"
    and ct0: "content b ?d = (if n = 0 then content (fs_device s) ?d else overwrite (content (fs_device s) ?d) (nat offset) (take n buffer))"
    by blast
  have n: "n = ?n" using w0(2) mo mn by simp
  note w = w0(1) [unfolded n] w1
  have ct: "content b ?d = (if ?n = 0 then content (fs_device s) ?d else overwrite (content (fs_device s) ?d) (nat offset) buffer)"
    using ct0 unfolding n by simp
  let ?s1 = "s\<lparr>fs_device := b, fs_mem := m1\<rparr>"
  have mo1: "mem_ok ?s1" using w(2) m by (auto simp: mem_ok_def mem_after_def)
  obtain c m2 k where r: "inode_read_at i (int ?n) offset ?s1 = Some (?s1\<lparr>fs_device := b\<lparr>read_cnt := c\<rparr>, fs_mem := m2\<rparr>,
      take k (take ?n (drop (nat offset) (content b ?d))))" "?n \<le> k"
    using inode_read_at_spec [of ?s1 i ino offset "int ?n"] i(1) w(3) o(1) o2 mo1 by auto
  have "take k (take ?n (drop (nat offset) (content b ?d))) = buffer"
    using ct r(2) L length_content [OF i(3)] read_overwrite [of "nat offset" buffer "content (fs_device s) ?d"] by (auto split: if_splits)
  moreover have "content b d = content (fs_device s) d" if "{d_start d..<d_start d + bytes_to_sectors (d_length d)} \<subseteq> outside ?d" for d
    unfolding content_def using img_outside [of "d_start d" "bytes_to_sectors (d_length d)" b "fs_device s"] w(4) that
    by (metis subsetD)
  ultimately show ?thesis using w(1) r(1) by auto
qed

text \<open>A device of 4 sectors with a file of 600 bytes on the last two of them.\<close>

definition demo_fs :: fsys where
  "demo_fs = \<lparr>fs_device = \<lparr>b_name = ''hda'', b_type = BLOCK_FILESYS, b_size = 4, b_disk = (\<lambda>_. replicate 512 0), read_cnt = 0, write_cnt = 0\<rparr>,
     fs_mem = (\<lambda>n. n + 1), inodes = [9 \<mapsto> \<lparr>i_sector = 1, open_cnt = 1, removed = False, deny_write_cnt = 0,
       i_data = \<lparr>d_start = 2, d_length = 600, d_magic = 0\<rparr>\<rparr>],
     open_inodes = [9], files = Map.empty, free_map = \<lparr>bit_cnt = 4, bits = [15]\<rparr>, free_map_file = NULL\<rparr>"

theorem inode_write_read_witness:
  "\<exists>s1 s2. inode_write_at 9 [1, 2, 3] 3 510 demo_fs = Some (s1, 3) \<and> inode_read_at 9 3 510 s1 = Some (s2, [1, 2, 3])"
proof -
  have "data_wf (fs_device demo_fs) \<lparr>d_start = 2, d_length = 600, d_magic = 0\<rparr>"
    by (simp add: data_wf_def disk_wf_def demo_fs_def bytes_to_sectors_eq BLOCK_SECTOR_SIZE_def)
  then show ?thesis
    using inode_write_read [of demo_fs 9 _ 510 "[1, 2, 3]"]
    by (auto simp: demo_fs_def inode_length_def)
qed

end
