(* ===== verification/Free_Map.thy ===== *)
theory Free_Map
  imports Inode_IO
begin

text \<open>
  Reading and writing open files (\<^verbatim>\<open>filesys/file.c\<close>), storing a bitmap in a file
  (\<^verbatim>\<open>lib/kernel/bitmap.c\<close>), and the allocation of sectors (\<^verbatim>\<open>filesys/free-map.c\<close>).
\<close>

subsection \<open>Open files\<close>

definition file_get_inode :: "ptr \<Rightarrow> fsys \<Rightarrow> ptr option" where
  "file_get_inode f s = map_option f_inode (files s f)"

definition set_file :: "ptr \<Rightarrow> kfile \<Rightarrow> fsys \<Rightarrow> fsys" where
  "set_file f fl s = s\<lparr>files := (files s)(f \<mapsto> fl)\<rparr>"

definition file_read :: "ptr \<Rightarrow> int \<Rightarrow> fsys \<Rightarrow> (fsys \<times> byte list) option" where
  "file_read f sz s = do {
     fl \<leftarrow> files s f;
     (s, bs) \<leftarrow> inode_read_at (f_inode fl) sz (f_pos fl) s;
     Some (set_file f (fl\<lparr>f_pos := s32 (f_pos fl + int (length bs))\<rparr>) s, bs) }"

definition file_read_at :: "ptr \<Rightarrow> int \<Rightarrow> int \<Rightarrow> fsys \<Rightarrow> (fsys \<times> byte list) option" where
  "file_read_at f sz file_ofs s = do { fl \<leftarrow> files s f; inode_read_at (f_inode fl) sz file_ofs s }"

definition file_write :: "ptr \<Rightarrow> byte list \<Rightarrow> int \<Rightarrow> fsys \<Rightarrow> (fsys \<times> int) option" where
  "file_write f buffer sz s = do {
     fl \<leftarrow> files s f;
     (s, n) \<leftarrow> inode_write_at (f_inode fl) buffer sz (f_pos fl) s;
     Some (set_file f (fl\<lparr>f_pos := s32 (f_pos fl + n)\<rparr>) s, n) }"

definition file_write_at :: "ptr \<Rightarrow> byte list \<Rightarrow> int \<Rightarrow> int \<Rightarrow> fsys \<Rightarrow> (fsys \<times> int) option" where
  "file_write_at f buffer sz file_ofs s = do { fl \<leftarrow> files s f; inode_write_at (f_inode fl) buffer sz file_ofs s }"

definition file_deny_write :: "ptr \<Rightarrow> fsys \<Rightarrow> fsys option" where
  "file_deny_write f s = do {
     fl \<leftarrow> files s f;
     if \<not> f_deny_write fl then inode_deny_write (f_inode fl) (set_file f (fl\<lparr>f_deny_write := True\<rparr>) s) else Some s }"

definition file_allow_write :: "ptr \<Rightarrow> fsys \<Rightarrow> fsys option" where
  "file_allow_write f s = do {
     fl \<leftarrow> files s f;
     if f_deny_write fl then inode_allow_write (f_inode fl) (set_file f (fl\<lparr>f_deny_write := False\<rparr>) s) else Some s }"

definition file_length :: "ptr \<Rightarrow> fsys \<Rightarrow> int option" where
  "file_length f s = do { fl \<leftarrow> files s f; ino \<leftarrow> inodes s (f_inode fl); Some (inode_length ino) }"

definition file_seek :: "ptr \<Rightarrow> int \<Rightarrow> fsys \<Rightarrow> fsys option" where
  "file_seek f new_pos s = do {
     fl \<leftarrow> files s f;
     ASSERT (new_pos \<ge> 0);
     Some (set_file f (fl\<lparr>f_pos := new_pos\<rparr>) s) }"

definition file_tell :: "ptr \<Rightarrow> fsys \<Rightarrow> int option" where
  "file_tell f s = map_option f_pos (files s f)"

subsection \<open>Little-endian words\<close>

definition le32 :: "nat \<Rightarrow> byte list" where
  "le32 n = map (\<lambda>i. word_of_nat (n div 256 ^ i)) [0, 1, 2, 3]"

definition of_le32 :: "byte list \<Rightarrow> nat" where
  "of_le32 bs = foldr (\<lambda>b n. unat b + 256 * n) bs 0"

lemma length_le32 [simp]: "length (le32 n) = 4"
  by (simp add: le32_def)

lemma of_le32_le32 [simp]: "n < 2 ^ 32 \<Longrightarrow> of_le32 (le32 n) = n"
proof -
  assume n: "n < 2 ^ 32"
  have "of_le32 (le32 n) = n mod 256 + 256 * (n div 256 mod 256 + 256 * (n div 65536 mod 256 + 256 * (n div 16777216 mod 256)))"
    by (simp add: le32_def of_le32_def unat_of_nat)
  also have "\<dots> = n mod 256 + 256 * (n div 256)"
  proof -
    have "n div 16777216 < 256" using n by (simp add: div_less_iff_less_mult)
    then have e0: "n div 16777216 mod 256 = n div 16777216" by simp
    have e1: "n div 65536 mod 256 + 256 * (n div 16777216) = n div 65536"
      using mod_mult_div_eq [of "n div 65536" 256] by (simp add: div_mult2_eq [symmetric])
    have e2: "n div 256 mod 256 + 256 * (n div 65536) = n div 256"
      using mod_mult_div_eq [of "n div 256" 256] by (simp add: div_mult2_eq [symmetric])
    show ?thesis by (simp only: e0 e1 e2)
  qed
  finally show ?thesis by simp
qed

text \<open>An array of 32-bit elements in memory.\<close>

definition enc_words :: "u32 list \<Rightarrow> byte list" where
  "enc_words ws = concat (map (\<lambda>w. le32 (unat w)) ws)"

fun dec_words :: "byte list \<Rightarrow> u32 list" where
  "dec_words (a # b # c # d # bs) = word_of_nat (of_le32 [a, b, c, d]) # dec_words bs"
| "dec_words _ = []"

lemma length_enc_words [simp]: "length (enc_words ws) = 4 * length ws"
  by (induction ws) (auto simp: enc_words_def)

lemma dec_enc_words [simp]: "dec_words (enc_words ws) = ws"
proof (induction ws)
  case (Cons w ws)
  obtain a b c d where l: "le32 (unat w) = [a, b, c, d]" by (simp add: le32_def)
  have "unat w < 2 ^ 32" using unsigned_less [of w] by simp
  then have "of_le32 [a, b, c, d] = unat w" using of_le32_le32 [of "unat w"] l by simp
  then show ?case using Cons l by (simp add: enc_words_def)
qed (simp add: enc_words_def)

subsection \<open>Bitmaps in files\<close>

definition bitmap_file_size :: "bitmap \<Rightarrow> nat" where
  "bitmap_file_size b = byte_cnt (bit_cnt b)"

definition bitmap_read :: "bitmap \<Rightarrow> ptr \<Rightarrow> fsys \<Rightarrow> (fsys \<times> bitmap \<times> bool) option" where
  "bitmap_read b f s = (if bit_cnt b > 0 then do {
       let sz = byte_cnt (bit_cnt b);
       (s, bs) \<leftarrow> file_read_at f (int sz) 0 s;
       let ws = dec_words (overwrite (enc_words (bits b)) 0 bs);
       let i = elem_cnt (bit_cnt b) - 1;
       ASSERT (i < length ws);
       Some (s, b\<lparr>bits := ws[i := ws ! i AND last_mask b]\<rparr>, length bs = sz) }
     else Some (s, b, True))"

definition bitmap_write :: "bitmap \<Rightarrow> ptr \<Rightarrow> fsys \<Rightarrow> (fsys \<times> bool) option" where
  "bitmap_write b f s = do {
     let sz = byte_cnt (bit_cnt b);
     (s, n) \<leftarrow> file_write_at f (enc_words (bits b)) (int sz) 0 s;
     Some (s, n = int sz) }"

subsection \<open>The free map\<close>

definition FREE_MAP_SECTOR :: nat where
  "FREE_MAP_SECTOR = 0"

definition ROOT_DIR_SECTOR :: nat where
  "ROOT_DIR_SECTOR = 1"

text \<open>\<open>m1\<close> and \<open>m2\<close> are the results of the two allocations of \<^verbatim>\<open>bitmap_create\<close>.\<close>

definition free_map_init :: "bool \<Rightarrow> u32 list option \<Rightarrow> fsys \<Rightarrow> fsys option" where
  "free_map_init m1 m2 s = do {
     r \<leftarrow> bitmap_create (block_size (fs_device s)) m1 m2;
     b \<leftarrow> r;
     b \<leftarrow> bitmap_mark b FREE_MAP_SECTOR;
     b \<leftarrow> bitmap_mark b ROOT_DIR_SECTOR;
     Some (s\<lparr>free_map := b\<rparr>) }"

text \<open>The second component is the value stored through \<^verbatim>\<open>sectorp\<close>, or \<^term>\<open>None\<close> when the function returns false.\<close>

definition free_map_allocate :: "nat \<Rightarrow> fsys \<Rightarrow> (fsys \<times> nat option) option" where
  "free_map_allocate cnt s = do {
     (b, sector) \<leftarrow> bitmap_scan_and_flip (free_map s) 0 cnt False;
     let s = s\<lparr>free_map := b\<rparr>;
     (s, sector) \<leftarrow> (if sector \<noteq> BITMAP_ERROR \<and> free_map_file s \<noteq> NULL then do {
         (s, ok) \<leftarrow> bitmap_write (free_map s) (free_map_file s) s;
         if \<not> ok then do {
           b \<leftarrow> bitmap_set_multiple (free_map s) sector cnt False;
           Some (s\<lparr>free_map := b\<rparr>, BITMAP_ERROR) }
         else Some (s, sector) }
       else Some (s, sector));
     Some (s, if sector \<noteq> BITMAP_ERROR then Some sector else None) }"

definition free_map_release :: "nat \<Rightarrow> nat \<Rightarrow> fsys \<Rightarrow> fsys option" where
  "free_map_release sector cnt s = do {
     a \<leftarrow> bitmap_all (free_map s) sector cnt;
     ASSERT a;
     b \<leftarrow> bitmap_set_multiple (free_map s) sector cnt False;
     (s, _) \<leftarrow> bitmap_write b (free_map_file s) (s\<lparr>free_map := b\<rparr>);
     Some s }"

subsection \<open>The free map as an allocator\<close>

text \<open>A file that is open for writing and holds at least \<open>n\<close> bytes.\<close>

definition writable :: "fsys \<Rightarrow> ptr \<Rightarrow> nat \<Rightarrow> bool" where
  "writable s f n \<longleftrightarrow> (case files s f of None \<Rightarrow> False | Some fl \<Rightarrow>
     (case inodes s (f_inode fl) of None \<Rightarrow> False | Some ino \<Rightarrow>
       deny_write_cnt ino = 0 \<and> data_wf (fs_device s) (i_data ino) \<and> int n \<le> inode_length ino))"

definition file_data :: "fsys \<Rightarrow> ptr \<Rightarrow> inode_disk" where
  "file_data s f = i_data (the (inodes s (f_inode (the (files s f)))))"

definition mem_all :: "fsys \<Rightarrow> bool" where
  "mem_all s \<longleftrightarrow> (\<forall>n. fs_mem s n \<noteq> NULL)"

lemma mem_all_ok: "mem_all s \<Longrightarrow> mem_ok s"
  by (simp add: mem_all_def mem_ok_def)

lemma mem_all_after: "mem_all s \<Longrightarrow> mem_after b s m \<Longrightarrow> \<forall>n. m n \<noteq> NULL"
  by (auto simp: mem_all_def mem_after_def)

lemma file_write_at_spec:
  assumes w: "writable s f k" and m: "mem_all s" and k: "k \<le> length buffer"
  shows "\<exists>b m. file_write_at f buffer (int k) 0 s = Some (s\<lparr>fs_device := b, fs_mem := m\<rparr>, int k) \<and>
     mem_after False s m \<and> data_wf b (file_data s f) \<and> b_size b = b_size (fs_device s) \<and> b_type b = b_type (fs_device s) \<and>
     (\<forall>x\<in>outside (file_data s f). b_disk b x = b_disk (fs_device s) x) \<and>
     content b (file_data s f) = overwrite (content (fs_device s) (file_data s f)) 0 (take k buffer)"
proof -
  obtain fl ino where o: "files s f = Some fl" "inodes s (f_inode fl) = Some ino" "deny_write_cnt ino = 0"
    "data_wf (fs_device s) (i_data ino)" "int k \<le> inode_length ino"
    using w by (auto simp: writable_def split: option.splits)
  have d: "file_data s f = i_data ino" using o by (simp add: file_data_def)
  from inode_write_at_spec [OF o(2-4), of 0 "int k" buffer] k obtain b m' n where
    1: "inode_write_at (f_inode fl) buffer (int k) 0 s = Some (s\<lparr>fs_device := b, fs_mem := m'\<rparr>, int n)"
      "mem_after False s m'" "mem_ok s \<longrightarrow> n = min (nat (int k)) (nat (d_length (i_data ino)) - nat 0)"
      "data_wf b (i_data ino)" "b_size b = b_size (fs_device s)" "b_type b = b_type (fs_device s)"
      "\<forall>x\<in>outside (i_data ino). b_disk b x = b_disk (fs_device s) x"
      "content b (i_data ino) = (if n = 0 then content (fs_device s) (i_data ino)
         else overwrite (content (fs_device s) (i_data ino)) (nat 0) (take n buffer))" by auto
  have "k \<le> nat (d_length (i_data ino))" using o(5) by (simp add: inode_length_def le_nat_iff)
  then have n: "n = k" using 1(3) mem_all_ok [OF m] by simp
  have "file_write_at f buffer (int k) 0 s = Some (s\<lparr>fs_device := b, fs_mem := m'\<rparr>, int k)"
    using 1(1) o(1) n by (simp add: file_write_at_def)
  moreover have "content b (i_data ino) = overwrite (content (fs_device s) (i_data ino)) 0 (take k buffer)"
    using 1(8) n by (auto simp: overwrite_def)
  ultimately show ?thesis using 1(2,4-7) unfolding d by blast
qed

lemma byte_cnt_le: "bm_wf b \<Longrightarrow> byte_cnt (bit_cnt b) = 4 * elem_cnt (bit_cnt b)"
proof -
  assume w: "bm_wf b"
  then have e: "elem_cnt (bit_cnt b) = (bit_cnt b + 31) div 32" by (simp add: elem_cnt_eq bm_wf_def DIV_ROUND_UP_def)
  have "4 * elem_cnt (bit_cnt b) \<le> bit_cnt b + 31" unfolding e by linarith
  then show ?thesis using w by (simp add: byte_cnt_def bm_wf_def)
qed

lemma bitmap_write_spec:
  assumes b: "bm_wf b" and w: "writable s f (byte_cnt (bit_cnt b))" and m: "mem_all s"
  shows "\<exists>d m. bitmap_write b f s = Some (s\<lparr>fs_device := d, fs_mem := m\<rparr>, True) \<and>
     mem_after False s m \<and> data_wf d (file_data s f) \<and> b_size d = b_size (fs_device s) \<and> b_type d = b_type (fs_device s) \<and>
     (\<forall>x\<in>outside (file_data s f). b_disk d x = b_disk (fs_device s) x) \<and>
     content d (file_data s f) = overwrite (content (fs_device s) (file_data s f)) 0 (take (byte_cnt (bit_cnt b)) (enc_words (bits b)))"
proof -
  have "byte_cnt (bit_cnt b) \<le> length (enc_words (bits b))" using b byte_cnt_le [OF b] by (simp add: bm_wf_def)
  from file_write_at_spec [OF w m this] obtain d m' where
    1: "file_write_at f (enc_words (bits b)) (int (byte_cnt (bit_cnt b))) 0 s = Some (s\<lparr>fs_device := d, fs_mem := m'\<rparr>, int (byte_cnt (bit_cnt b)))"
    "mem_after False s m'" "data_wf d (file_data s f)" "b_size d = b_size (fs_device s)" "b_type d = b_type (fs_device s)"
    "\<forall>x\<in>outside (file_data s f). b_disk d x = b_disk (fs_device s) x"
    "content d (file_data s f) = overwrite (content (fs_device s) (file_data s f)) 0 (take (byte_cnt (bit_cnt b)) (enc_words (bits b)))"
    by blast
  then show ?thesis by (intro exI [of _ d] exI [of _ m']) (simp add: bitmap_write_def)
qed

text \<open>What the free map needs to work: room in its file, and memory for the bounce buffers.\<close>

definition fm_inv :: "fsys \<Rightarrow> bool" where
  "fm_inv s \<longleftrightarrow> bm_wf (free_map s) \<and> mem_all s \<and> free_map_file s \<noteq> NULL \<and>
     writable s (free_map_file s) (byte_cnt (bit_cnt (free_map s)))"

text \<open>Two states that differ in the free map, its file on disk, and the memory that is left.\<close>

definition fm_step :: "fsys \<Rightarrow> fsys \<Rightarrow> bool" where
  "fm_step s s' \<longleftrightarrow> (\<exists>d m fm. s' = s\<lparr>fs_device := d, fs_mem := m, free_map := fm\<rparr> \<and> (\<forall>n. m n \<noteq> NULL) \<and>
     bit_cnt fm = bit_cnt (free_map s) \<and> data_wf d (file_data s (free_map_file s)) \<and>
     b_size d = b_size (fs_device s) \<and> b_type d = b_type (fs_device s) \<and>
     (\<forall>x\<in>outside (file_data s (free_map_file s)). b_disk d x = b_disk (fs_device s) x))"

lemma fm_step_inv:
  assumes "fm_inv s" "fm_step s s'" "bm_wf (free_map s')"
  shows "fm_inv s'"
  using assms
  by (auto simp: fm_inv_def fm_step_def mem_all_def writable_def file_data_def split: option.splits)

lemma fm_write:
  assumes i: "fm_inv s" and b: "bm_wf b" "bit_cnt b = bit_cnt (free_map s)"
  shows "\<exists>s'. bitmap_write b (free_map_file s) (s\<lparr>free_map := b\<rparr>) = Some (s', True) \<and> fm_step s s' \<and> free_map s' = b \<and> fm_inv s'"
proof -
  let ?s = "s\<lparr>free_map := b\<rparr>"
  have w: "writable ?s (free_map_file s) (byte_cnt (bit_cnt b))" and m: "mem_all ?s"
    using i b by (auto simp: fm_inv_def writable_def mem_all_def split: option.splits)
  have fd: "file_data ?s (free_map_file s) = file_data s (free_map_file s)" by (simp add: file_data_def)
  from bitmap_write_spec [OF b(1) w m] obtain d m' where
    1: "bitmap_write b (free_map_file s) ?s = Some (?s\<lparr>fs_device := d, fs_mem := m'\<rparr>, True)" "mem_after False ?s m'"
      "data_wf d (file_data s (free_map_file s))" "b_size d = b_size (fs_device s)" "b_type d = b_type (fs_device s)"
      "\<forall>x\<in>outside (file_data s (free_map_file s)). b_disk d x = b_disk (fs_device s) x" unfolding fd by auto
  have st: "fm_step s (?s\<lparr>fs_device := d, fs_mem := m'\<rparr>)"
    unfolding fm_step_def using 1 mem_all_after [OF m 1(2)] b
    by (intro exI [of _ d] exI [of _ m'] exI [of _ b]) simp
  show ?thesis using 1(1) st fm_step_inv [OF i st] b(1) by (intro exI [of _ "?s\<lparr>fs_device := d, fs_mem := m'\<rparr>"]) simp
qed

lemma free_map_allocate_spec:
  assumes i: "fm_inv s"
  shows "\<exists>s' r. free_map_allocate cnt s = Some (s', r) \<and> fm_inv s' \<and> (case r of
     None \<Rightarrow> s' = s \<and> (\<forall>j. \<not> run_at (free_map s) False cnt j)
   | Some k \<Rightarrow> fm_step s s' \<and> run_at (free_map s) False cnt k \<and> (\<forall>j<k. \<not> run_at (free_map s) False cnt j) \<and>
       bm_bit (free_map s') = (\<lambda>j. if k \<le> j \<and> j < k + cnt then True else bm_bit (free_map s) j))"
proof -
  have w: "bm_wf (free_map s)" "free_map_file s \<noteq> NULL" using i by (auto simp: fm_inv_def)
  obtain b r where r: "bitmap_scan_and_flip (free_map s) 0 cnt False = Some (b, r)" "bm_wf b" "bit_cnt b = bit_cnt (free_map s)"
     "if r = BITMAP_ERROR then b = free_map s \<and> (\<forall>j\<ge>0. \<not> run_at (free_map s) False cnt j)
      else 0 \<le> r \<and> run_at (free_map s) False cnt r \<and> (\<forall>j. 0 \<le> j \<and> j < r \<longrightarrow> \<not> run_at (free_map s) False cnt j) \<and>
           bm_bit b = (\<lambda>j. if r \<le> j \<and> j < r + cnt then \<not> False else bm_bit (free_map s) j)"
    using bitmap_scan_and_flip_abs [OF w(1), of 0 cnt False] by auto
  show ?thesis
  proof (cases "r = BITMAP_ERROR")
    case True
    then have "free_map_allocate cnt s = Some (s, None)" using r by (simp add: free_map_allocate_def)
    then show ?thesis using True r(4) i by simp
  next
    case False
    obtain s' where s': "bitmap_write b (free_map_file s) (s\<lparr>free_map := b\<rparr>) = Some (s', True)" "fm_step s s'" "free_map s' = b" "fm_inv s'"
      using fm_write [OF i r(2,3)] by blast
    have "free_map_allocate cnt s = Some (s', Some r)"
      using r(1) False w(2) s'(1) by (simp add: free_map_allocate_def Let_def)
    then show ?thesis using False r(4) s' by (intro exI [of _ s'] exI [of _ "Some r"]) simp
  qed
qed

lemma free_map_release_spec:
  assumes i: "fm_inv s" and r: "k + cnt \<le> bit_cnt (free_map s)" "\<forall>j. k \<le> j \<and> j < k + cnt \<longrightarrow> bm_bit (free_map s) j"
  shows "\<exists>s'. free_map_release k cnt s = Some s' \<and> fm_inv s' \<and> fm_step s s' \<and>
     bm_bit (free_map s') = (\<lambda>j. if k \<le> j \<and> j < k + cnt then False else bm_bit (free_map s) j)"
proof -
  have w: "bm_wf (free_map s)" using i by (simp add: fm_inv_def)
  obtain b where b: "bitmap_set_multiple (free_map s) k cnt False = Some b" "bm_wf b" "bit_cnt b = bit_cnt (free_map s)"
    "bm_bit b = (\<lambda>j. if k \<le> j \<and> j < k + cnt then False else bm_bit (free_map s) j)"
    using bitmap_set_multiple_abs [OF w r(1), of False] by auto
  have a: "bitmap_all (free_map s) k cnt = Some True"
    using bitmap_contains_abs [OF w r(1), of False] r(2) by (auto simp: bitmap_all_def)
  obtain s' where s': "bitmap_write b (free_map_file s) (s\<lparr>free_map := b\<rparr>) = Some (s', True)" "fm_step s s'" "free_map s' = b" "fm_inv s'"
    using fm_write [OF i b(2,3)] by blast
  have "free_map_release k cnt s = Some s'" using a b(1) s'(1) by (simp add: free_map_release_def)
  then show ?thesis using s' b(4) by blast
qed

text \<open>The free map provides extents of sectors.\<close>

interpretation fm_alloc: extent_allocator fm_inv "\<lambda>s. bit_cnt (free_map s)" "\<lambda>s. bm_bit (free_map s)"
  "\<lambda>s n. the (free_map_allocate n s)" "\<lambda>s i n. the (free_map_release i n s)"
proof
  fix s n s' i assume i: "fm_inv s" and a: "the (free_map_allocate n s) = (s', Some i)"
  from free_map_allocate_spec [OF i, of n] a have "fm_inv s'" "fm_step s s'" "run_at (free_map s) False n i"
    "bm_bit (free_map s') = (\<lambda>j. if i \<le> j \<and> j < i + n then True else bm_bit (free_map s) j)" by auto
  then show "fm_inv s' \<and> bit_cnt (free_map s') = bit_cnt (free_map s) \<and> i + n \<le> bit_cnt (free_map s) \<and>
      (\<forall>j. i \<le> j \<and> j < i + n \<longrightarrow> \<not> bm_bit (free_map s) j) \<and>
      bm_bit (free_map s') = (\<lambda>j. bm_bit (free_map s) j \<or> i \<le> j \<and> j < i + n)"
    by (auto simp: fm_step_def run_at_def fun_eq_iff)
next
  fix s n s' assume i: "fm_inv s" and a: "the (free_map_allocate n s) = (s', None)"
  from free_map_allocate_spec [OF i, of n] a have "s' = s" "\<forall>j. \<not> run_at (free_map s) False n j" by auto
  then show "s' = s \<and> (\<forall>i. i + n \<le> bit_cnt (free_map s) \<longrightarrow> (\<exists>j. i \<le> j \<and> j < i + n \<and> bm_bit (free_map s) j))"
    by (auto simp: run_at_def)
next
  fix s i n assume i: "fm_inv s" "i + n \<le> bit_cnt (free_map s)" "\<forall>j. i \<le> j \<and> j < i + n \<longrightarrow> bm_bit (free_map s) j"
  from free_map_release_spec [OF i] show "fm_inv (the (free_map_release i n s)) \<and>
      bit_cnt (free_map (the (free_map_release i n s))) = bit_cnt (free_map s) \<and>
      bm_bit (free_map (the (free_map_release i n s))) = (\<lambda>j. bm_bit (free_map s) j \<and> \<not> (i \<le> j \<and> j < i + n))"
    by (auto simp: fm_step_def fun_eq_iff split: if_splits)
qed

lemma bit_last_mask: "i < bit_cnt b \<Longrightarrow> i div 32 = elem_cnt (bit_cnt b) - 1 \<Longrightarrow> bm_wf b \<Longrightarrow> bit (last_mask b) (i mod 32)"
proof -
  assume a: "i < bit_cnt b" "i div 32 = elem_cnt (bit_cnt b) - 1" "bm_wf b"
  then have e: "elem_cnt (bit_cnt b) = (bit_cnt b + 31) div 32" by (simp add: elem_cnt_eq bm_wf_def DIV_ROUND_UP_def)
  have "i mod 32 < bit_cnt b mod 32" if "bit_cnt b mod 32 \<noteq> 0"
  proof -
    have "(bit_cnt b mod 32 + 31) div 32 = 1" by (rule div_nat_eqI) (use that mod_less_divisor [of 32 "bit_cnt b"] in auto)
    moreover have "bit_cnt b + 31 = 32 * (bit_cnt b div 32) + (bit_cnt b mod 32 + 31)" using mult_div_mod_eq [of 32 "bit_cnt b"] by linarith
    ultimately have "(bit_cnt b + 31) div 32 = bit_cnt b div 32 + 1" by (metis div_mult_self4 zero_neq_numeral)
    then have "i div 32 = bit_cnt b div 32" using a(2) e by simp
    then show ?thesis using a(1) div_mult_mod_eq [of i 32] div_mult_mod_eq [of "bit_cnt b" 32] by linarith
  qed
  then show ?thesis
    by (auto simp: last_mask_def Let_def ELEM_BITS_def push_bit_eq_mult mask_eq_exp_minus_1 [symmetric] bit_mask_iff)
qed

lemma enc_words_append: "enc_words (xs @ ys) = enc_words xs @ enc_words ys"
  by (simp add: enc_words_def)

lemma enc_words_split: "e \<le> length ws \<Longrightarrow> take (4 * e) (enc_words ws) = enc_words (take e ws) \<and> drop (4 * e) (enc_words ws) = enc_words (drop e ws)"
  using enc_words_append [of "take e ws" "drop e ws"] by (simp add: append_eq_conv_conj)

text \<open>
  C14. A bitmap written to a file is read back: writing succeeds, and reading the file into any bitmap of
  the same size succeeds and gives the same bits.
\<close>

theorem bitmap_file_roundtrip:
  assumes b: "bm_wf b" "bm_wf b0" "bit_cnt b0 = bit_cnt b" "0 < bit_cnt b"
    and w: "writable s f (byte_cnt (bit_cnt b))" and m: "mem_all s"
  shows "\<exists>s1 s2 b'. bitmap_write b f s = Some (s1, True) \<and> bitmap_read b0 f s1 = Some (s2, b', True) \<and> bm_list b' = bm_list b"
proof -
  let ?e = "elem_cnt (bit_cnt b)" and ?n = "byte_cnt (bit_cnt b)"
  have n: "?n = 4 * ?e" by (rule byte_cnt_le [OF b(1)])
  have e: "?e \<le> length (bits b)" "?e \<le> length (bits b0)" "?e = (bit_cnt b + 31) div 32" "0 < ?e"
    using b by (auto simp: bm_wf_def elem_cnt_eq DIV_ROUND_UP_def)
  obtain fl ino where o: "files s f = Some fl" "inodes s (f_inode fl) = Some ino" "int ?n \<le> inode_length ino"
    using w by (auto simp: writable_def split: option.splits)
  have fd: "file_data s f = i_data ino" using o by (simp add: file_data_def)
  from bitmap_write_spec [OF b(1) w m] obtain d m' where
    1: "bitmap_write b f s = Some (s\<lparr>fs_device := d, fs_mem := m'\<rparr>, True)" "mem_after False s m'" "data_wf d (i_data ino)"
      "content d (i_data ino) = overwrite (content (fs_device s) (i_data ino)) 0 (take ?n (enc_words (bits b)))" unfolding fd by blast
  let ?s1 = "s\<lparr>fs_device := d, fs_mem := m'\<rparr>"
  have tk: "take ?n (enc_words (bits b)) = enc_words (take ?e (bits b))" using enc_words_split [OF e(1)] n by simp
  have mo: "mem_ok ?s1" using mem_all_after [OF m 1(2)] by (simp add: mem_ok_def)
  obtain c m2 k where r: "inode_read_at (f_inode fl) (int ?n) 0 ?s1 = Some (?s1\<lparr>fs_device := d\<lparr>read_cnt := c\<rparr>, fs_mem := m2\<rparr>,
      take k (take ?n (content d (i_data ino))))" "?n \<le> k"
    using inode_read_at_spec [of ?s1 "f_inode fl" ino 0 "int ?n"] o(2) 1(3) mo by auto
  have bs: "take k (take ?n (content d (i_data ino))) = enc_words (take ?e (bits b))"
    unfolding 1(4) tk using r(2) n e(1) by (simp add: overwrite_def)
  let ?ws = "take ?e (bits b) @ drop ?e (bits b0)"
  have ow: "dec_words (overwrite (enc_words (bits b0)) 0 (enc_words (take ?e (bits b)))) = ?ws"
    using enc_words_split [OF e(2)] e(1) by (simp add: overwrite_def enc_words_append [symmetric])
  let ?b' = "b0\<lparr>bits := ?ws[?e - 1 := ?ws ! (?e - 1) AND last_mask b0]\<rparr>"
  have "bitmap_read b0 f ?s1 = Some (?s1\<lparr>fs_device := d\<lparr>read_cnt := c\<rparr>, fs_mem := m2\<rparr>, ?b', True)"
    using r(1) b(3,4) o(1) bs ow e(1,2,4) n by (simp add: bitmap_read_def file_read_at_def Let_def)
  moreover have "bm_bit ?b' i = bm_bit b i" if i: "i < bit_cnt b" for i
  proof -
    have "i div 32 < ?e" using i unfolding e(3) by linarith
    moreover have "bit (last_mask b0) (i mod 32)" if "i div 32 = ?e - 1" using bit_last_mask [of i b0] i that b(2,3) by simp
    ultimately show ?thesis using e(1) by (auto simp: bm_bit_def nth_list_update nth_append bit_and_iff)
  qed
  ultimately show ?thesis using 1(1) b(3) by (auto simp: bm_list_def)
qed

theorem bitmap_file_roundtrip_witness:
  "\<exists>s1 s2 b'. bitmap_write \<lparr>bit_cnt = 40, bits = [5, 129]\<rparr> 7 (demo_fs\<lparr>files := [7 \<mapsto> \<lparr>f_inode = 9, f_pos = 0, f_deny_write = False\<rparr>]\<rparr>) = Some (s1, True) \<and>
    bitmap_read \<lparr>bit_cnt = 40, bits = [0, 0]\<rparr> 7 s1 = Some (s2, b', True) \<and> bm_list b' = bm_list \<lparr>bit_cnt = 40, bits = [5, 129]\<rparr>"
proof (rule bitmap_file_roundtrip)
  have "data_wf (fs_device demo_fs) \<lparr>d_start = 2, d_length = 600, d_magic = 0\<rparr>"
    by (simp add: data_wf_def disk_wf_def demo_fs_def bytes_to_sectors_eq BLOCK_SECTOR_SIZE_def)
  then show "writable (demo_fs\<lparr>files := [7 \<mapsto> \<lparr>f_inode = 9, f_pos = 0, f_deny_write = False\<rparr>]\<rparr>) 7
      (byte_cnt (bit_cnt \<lparr>bit_cnt = 40, bits = [5, 129]\<rparr>))"
    by (simp add: writable_def demo_fs_def inode_length_def byte_cnt_def elem_cnt_def ELEM_BITS_def)
qed (simp_all add: bm_wf_def elem_cnt_def ELEM_BITS_def mem_all_def demo_fs_def)

end
