(* ===== verification/Inode.thy ===== *)
theory Inode
  imports Free_Map
begin

text \<open>
  Creating, opening, closing and removing inodes (\<^verbatim>\<open>filesys/inode.c\<close>), opening and closing files
  (\<^verbatim>\<open>filesys/file.c\<close>) and the free map's own file (\<^verbatim>\<open>filesys/free-map.c\<close>).
\<close>

subsection \<open>Inodes on disk\<close>

definition INODE_MAGIC :: nat where
  "INODE_MAGIC = 0x494e4f44"

definition enc_inode :: "inode_disk \<Rightarrow> sector" where
  "enc_inode d = le32 (d_start d) @ le32 (u32_of (d_length d)) @ le32 (d_magic d) @ replicate 500 0"

definition dec_inode :: "sector \<Rightarrow> inode_disk" where
  "dec_inode bs = \<lparr>d_start = of_le32 (take 4 bs), d_length = s32 (int (of_le32 (take 4 (drop 4 bs)))),
     d_magic = of_le32 (take 4 (drop 8 bs))\<rparr>"

lemma length_enc_inode [simp]: "length (enc_inode d) = 512"
  by (simp add: enc_inode_def)

lemma dec_enc_inode:
  "d_start d < 2 ^ 32 \<Longrightarrow> 0 \<le> d_length d \<Longrightarrow> d_length d < 2 ^ 31 \<Longrightarrow> d_magic d < 2 ^ 32 \<Longrightarrow> dec_inode (enc_inode d) = d"
  by (simp add: dec_inode_def enc_inode_def)

text \<open>The loop that clears the data sectors; \<open>n\<close> rounds are left.\<close>

fun write_zeros :: "nat \<Rightarrow> nat \<Rightarrow> block \<Rightarrow> block option" where
  "write_zeros st 0 d = Some d"
| "write_zeros st (Suc n) d = do {
     d \<leftarrow> block_write d (usz st) (replicate BLOCK_SECTOR_SIZE 0);
     write_zeros (st + 1) n d }"

definition inode_create :: "nat \<Rightarrow> int \<Rightarrow> fsys \<Rightarrow> (fsys \<times> bool) option" where
  "inode_create sector len s = do {
     ASSERT (len \<ge> 0);
     let (s, p) = malloc s;
     if p \<noteq> NULL then do {
       let sectors = bytes_to_sectors len;
       (s, r) \<leftarrow> free_map_allocate sectors s;
       case r of
         Some start \<Rightarrow> do {
           d \<leftarrow> block_write (fs_device s) sector (enc_inode \<lparr>d_start = start, d_length = len, d_magic = INODE_MAGIC\<rparr>);
           d \<leftarrow> write_zeros start sectors d;
           Some (s\<lparr>fs_device := d\<rparr>, True) }
       | None \<Rightarrow> Some (s, False) }
     else Some (s, False) }"

subsection \<open>Open inodes\<close>

definition inode_init :: "fsys \<Rightarrow> fsys" where
  "inode_init s = s\<lparr>open_inodes := []\<rparr>"

definition inode_reopen :: "ptr \<Rightarrow> fsys \<Rightarrow> fsys option" where
  "inode_reopen i s = (if i \<noteq> NULL then do {
     ino \<leftarrow> inodes s i;
     Some (s\<lparr>inodes := (inodes s)(i \<mapsto> ino\<lparr>open_cnt := s32 (open_cnt ino + 1)\<rparr>)\<rparr>) } else Some s)"

text \<open>The search for an open inode; the result is \<^verbatim>\<open>NULL\<close> when the loop ends without finding one.\<close>

fun find_open :: "nat \<Rightarrow> ptr list \<Rightarrow> fsys \<Rightarrow> ptr option" where
  "find_open sector [] s = Some NULL"
| "find_open sector (i # is) s = do {
     ino \<leftarrow> inodes s i;
     if i_sector ino = sector then Some i else find_open sector is s }"

definition inode_open :: "nat \<Rightarrow> fsys \<Rightarrow> (fsys \<times> ptr) option" where
  "inode_open sector s = do {
     i \<leftarrow> find_open sector (open_inodes s) s;
     if i \<noteq> NULL then do { s \<leftarrow> inode_reopen i s; Some (s, i) }
     else do {
       let (s, i) = malloc s;
       if i = NULL then Some (s, NULL)
       else do {
         (d, bs) \<leftarrow> block_read (fs_device s) sector;
         let ino = \<lparr>i_sector = sector, open_cnt = 1, removed = False, deny_write_cnt = 0, i_data = dec_inode bs\<rparr>;
         Some (s\<lparr>fs_device := d, open_inodes := i # open_inodes s, inodes := (inodes s)(i \<mapsto> ino)\<rparr>, i) } } }"

definition inode_get_inumber :: "ptr \<Rightarrow> fsys \<Rightarrow> nat option" where
  "inode_get_inumber i s = map_option i_sector (inodes s i)"

definition inode_close :: "ptr \<Rightarrow> fsys \<Rightarrow> fsys option" where
  "inode_close i s = (if i = NULL then Some s else do {
     ino \<leftarrow> inodes s i;
     let ino = ino\<lparr>open_cnt := s32 (open_cnt ino - 1)\<rparr>;
     let s = s\<lparr>inodes := (inodes s)(i \<mapsto> ino)\<rparr>;
     if open_cnt ino = 0 then do {
       ASSERT (i \<in> set (open_inodes s));
       let s = s\<lparr>open_inodes := remove1 i (open_inodes s)\<rparr>;
       s \<leftarrow> (if removed ino then do {
               s \<leftarrow> free_map_release (i_sector ino) 1 s;
               free_map_release (d_start (i_data ino)) (bytes_to_sectors (d_length (i_data ino))) s }
             else Some s);
       Some (s\<lparr>inodes := (inodes s)(i := None)\<rparr>) }
     else Some s })"

definition inode_remove :: "ptr \<Rightarrow> fsys \<Rightarrow> fsys option" where
  "inode_remove i s = do {
     ASSERT (i \<noteq> NULL);
     ino \<leftarrow> inodes s i;
     Some (s\<lparr>inodes := (inodes s)(i \<mapsto> ino\<lparr>removed := True\<rparr>)\<rparr>) }"

subsection \<open>Files\<close>

definition file_open :: "ptr \<Rightarrow> fsys \<Rightarrow> (fsys \<times> ptr) option" where
  "file_open i s = do {
     let (s, f) = malloc s;
     if i \<noteq> NULL \<and> f \<noteq> NULL
     then Some (set_file f \<lparr>f_inode = i, f_pos = 0, f_deny_write = False\<rparr> s, f)
     else do { s \<leftarrow> inode_close i s; Some (s, NULL) } }"

definition file_reopen :: "ptr \<Rightarrow> fsys \<Rightarrow> (fsys \<times> ptr) option" where
  "file_reopen f s = do {
     fl \<leftarrow> files s f;
     s \<leftarrow> inode_reopen (f_inode fl) s;
     file_open (f_inode fl) s }"

definition file_close :: "ptr \<Rightarrow> fsys \<Rightarrow> fsys option" where
  "file_close f s = (if f \<noteq> NULL then do {
     s \<leftarrow> file_allow_write f s;
     fl \<leftarrow> files s f;
     s \<leftarrow> inode_close (f_inode fl) s;
     Some (s\<lparr>files := (files s)(f := None)\<rparr>) } else Some s)"

subsection \<open>The file of the free map\<close>

definition free_map_open :: "fsys \<Rightarrow> fsys option" where
  "free_map_open s = do {
     (s, i) \<leftarrow> inode_open FREE_MAP_SECTOR s;
     (s, f) \<leftarrow> file_open i s;
     let s = s\<lparr>free_map_file := f\<rparr>;
     ASSERT (f \<noteq> NULL);
     (s, b, ok) \<leftarrow> bitmap_read (free_map s) f s;
     ASSERT ok;
     Some (s\<lparr>free_map := b\<rparr>) }"

definition free_map_close :: "fsys \<Rightarrow> fsys option" where
  "free_map_close s = file_close (free_map_file s) s"

definition free_map_create :: "fsys \<Rightarrow> fsys option" where
  "free_map_create s = do {
     (s, ok) \<leftarrow> inode_create FREE_MAP_SECTOR (int (bitmap_file_size (free_map s))) s;
     ASSERT ok;
     (s, i) \<leftarrow> inode_open FREE_MAP_SECTOR s;
     (s, f) \<leftarrow> file_open i s;
     let s = s\<lparr>free_map_file := f\<rparr>;
     ASSERT (f \<noteq> NULL);
     (s, ok) \<leftarrow> bitmap_write (free_map s) f s;
     ASSERT ok;
     Some s }"

end
