(* ===== verification/Directory.thy ===== *)
theory Directory
  imports Inode
begin

text \<open>
  Directories (\<^verbatim>\<open>filesys/directory.c\<close>) and the operations on files by name (\<^verbatim>\<open>filesys/filesys.c\<close>). A
  directory is a file of 20-byte entries: the inode's sector, the null-terminated name in 15 bytes, and
  a flag. C strings are lists of bytes without the terminator.
\<close>

definition NAME_MAX :: nat where
  "NAME_MAX = 14"

record dir =
  dir_inode :: ptr
  dir_pos :: int

subsection \<open>Entries\<close>

definition ENTRY_SIZE :: nat where
  "ENTRY_SIZE = 20"

definition e_sector :: "byte list \<Rightarrow> nat" where
  "e_sector e = of_le32 (take 4 e)"

definition e_name :: "byte list \<Rightarrow> byte list" where
  "e_name e = takeWhile (\<lambda>b. b \<noteq> 0) (take 15 (drop 4 e))"

definition e_in_use :: "byte list \<Rightarrow> bool" where
  "e_in_use e \<longleftrightarrow> e ! 19 \<noteq> 0"

definition set_in_use :: "bool \<Rightarrow> byte list \<Rightarrow> byte list" where
  "set_in_use b e = e[19 := (if b then 1 else 0)]"

text \<open>\<^verbatim>\<open>strlcpy\<close> of a name into the 15 bytes of the field, which leaves the bytes after the terminator alone.\<close>

definition set_name :: "byte list \<Rightarrow> byte list \<Rightarrow> byte list" where
  "set_name name e = overwrite e 4 (take 14 name @ [0])"

definition set_sector :: "nat \<Rightarrow> byte list \<Rightarrow> byte list" where
  "set_sector n e = overwrite e 0 (le32 n)"

subsection \<open>Opening and closing\<close>

definition dir_create :: "nat \<Rightarrow> nat \<Rightarrow> fsys \<Rightarrow> (fsys \<times> bool) option" where
  "dir_create sector entry_cnt s = inode_create sector (s32 (int (entry_cnt * ENTRY_SIZE))) s"

definition dir_open :: "ptr \<Rightarrow> fsys \<Rightarrow> (fsys \<times> dir option) option" where
  "dir_open i s = do {
     let (s, p) = malloc s;
     if i \<noteq> NULL \<and> p \<noteq> NULL then Some (s, Some \<lparr>dir_inode = i, dir_pos = 0\<rparr>)
     else do { s \<leftarrow> inode_close i s; Some (s, None) } }"

definition dir_open_root :: "fsys \<Rightarrow> (fsys \<times> dir option) option" where
  "dir_open_root s = do { (s, i) \<leftarrow> inode_open ROOT_DIR_SECTOR s; dir_open i s }"

definition dir_reopen :: "dir \<Rightarrow> fsys \<Rightarrow> (fsys \<times> dir option) option" where
  "dir_reopen dr s = do { s \<leftarrow> inode_reopen (dir_inode dr) s; dir_open (dir_inode dr) s }"

definition dir_close :: "dir option \<Rightarrow> fsys \<Rightarrow> fsys option" where
  "dir_close dr s = (case dr of None \<Rightarrow> Some s | Some dr \<Rightarrow> inode_close (dir_inode dr) s)"

definition dir_get_inode :: "dir \<Rightarrow> ptr" where
  "dir_get_inode dr = dir_inode dr"

subsection \<open>Searching\<close>

text \<open>The loop of \<^verbatim>\<open>lookup\<close>: the entry and its offset.\<close>

partial_function (option) lookup_loop :: "ptr \<Rightarrow> byte list \<Rightarrow> nat \<Rightarrow> fsys \<Rightarrow> (fsys \<times> (byte list \<times> nat) option) option" where
  "lookup_loop i name ofs s = do {
     r \<leftarrow> inode_read_at i (int ENTRY_SIZE) (s32 (int ofs)) s;
     if length (snd r) = ENTRY_SIZE then
       (if e_in_use (snd r) \<and> name = e_name (snd r) then Some (fst r, Some (snd r, ofs))
        else lookup_loop i name (usz (ofs + ENTRY_SIZE)) (fst r))
     else Some (fst r, None) }"

definition lookup :: "dir \<Rightarrow> byte list \<Rightarrow> fsys \<Rightarrow> (fsys \<times> (byte list \<times> nat) option) option" where
  "lookup dr name s = lookup_loop (dir_inode dr) name 0 s"

definition dir_lookup :: "dir \<Rightarrow> byte list \<Rightarrow> fsys \<Rightarrow> (fsys \<times> ptr) option" where
  "dir_lookup dr name s = do {
     (s, r) \<leftarrow> lookup dr name s;
     case r of Some (e, ofs) \<Rightarrow> inode_open (e_sector e) s | None \<Rightarrow> Some (s, NULL) }"

subsection \<open>Changing\<close>

text \<open>
  The loop of \<^verbatim>\<open>dir_add\<close> for a free slot. \<open>e\<close> is the local variable: every read overwrites a prefix of it,
  and before the first read it holds what was on the stack.
\<close>

partial_function (option) free_slot_loop :: "ptr \<Rightarrow> byte list \<Rightarrow> nat \<Rightarrow> fsys \<Rightarrow> (fsys \<times> byte list \<times> nat) option" where
  "free_slot_loop i e ofs s = do {
     r \<leftarrow> inode_read_at i (int ENTRY_SIZE) (s32 (int ofs)) s;
     let e = overwrite e 0 (snd r);
     if length (snd r) = ENTRY_SIZE \<and> e_in_use e
     then free_slot_loop i e (usz (ofs + ENTRY_SIZE)) (fst r)
     else Some (fst r, e, ofs) }"

definition dir_add :: "byte list \<Rightarrow> dir \<Rightarrow> byte list \<Rightarrow> nat \<Rightarrow> fsys \<Rightarrow> (fsys \<times> bool) option" where
  "dir_add stack dr name inode_sector s =
     (if name = [] \<or> length name > NAME_MAX then Some (s, False)
      else do {
        (s, r) \<leftarrow> lookup dr name s;
        if r \<noteq> None then Some (s, False)
        else do {
          (s, e, ofs) \<leftarrow> free_slot_loop (dir_inode dr) stack 0 s;
          let e = set_sector inode_sector (set_name name (set_in_use True e));
          (s, n) \<leftarrow> inode_write_at (dir_inode dr) e (int ENTRY_SIZE) (s32 (int ofs)) s;
          Some (s, n = int ENTRY_SIZE) } })"

definition dir_remove :: "dir \<Rightarrow> byte list \<Rightarrow> fsys \<Rightarrow> (fsys \<times> bool) option" where
  "dir_remove dr name s = do {
     (s, r) \<leftarrow> lookup dr name s;
     case r of
       None \<Rightarrow> Some (s, False)
     | Some (e, ofs) \<Rightarrow> do {
         (s, i) \<leftarrow> inode_open (e_sector e) s;
         if i = NULL then Some (s, False)
         else do {
           (s, n) \<leftarrow> inode_write_at (dir_inode dr) (set_in_use False e) (int ENTRY_SIZE) (s32 (int ofs)) s;
           (s, ok) \<leftarrow> (if n \<noteq> int ENTRY_SIZE then Some (s, False)
             else do { s \<leftarrow> inode_remove i s; Some (s, True) });
           s \<leftarrow> inode_close i s;
           Some (s, ok) } } }"

partial_function (option) dir_readdir :: "dir \<Rightarrow> fsys \<Rightarrow> (fsys \<times> dir \<times> byte list option) option" where
  "dir_readdir dr s = do {
     r \<leftarrow> inode_read_at (dir_inode dr) (int ENTRY_SIZE) (dir_pos dr) s;
     if length (snd r) = ENTRY_SIZE then
       (let dr = dr\<lparr>dir_pos := s32 (dir_pos dr + int ENTRY_SIZE)\<rparr> in
        if e_in_use (snd r) then Some (fst r, dr, Some (e_name (snd r))) else dir_readdir dr (fst r))
     else Some (fst r, dr, None) }"

subsection \<open>Files by name\<close>

definition filesys_create :: "byte list \<Rightarrow> byte list \<Rightarrow> int \<Rightarrow> fsys \<Rightarrow> (fsys \<times> bool) option" where
  "filesys_create stack name initial_size s = do {
     (s, dr) \<leftarrow> dir_open_root s;
     (s, sector, success) \<leftarrow> (case dr of
         None \<Rightarrow> Some (s, 0, False)
       | Some dr \<Rightarrow> do {
           (s, r) \<leftarrow> free_map_allocate 1 s;
           case r of
             None \<Rightarrow> Some (s, 0, False)
           | Some sector \<Rightarrow> do {
               (s, ok) \<leftarrow> inode_create sector initial_size s;
               if ok then do { (s, ok) \<leftarrow> dir_add stack dr name sector s; Some (s, sector, ok) }
               else Some (s, sector, False) } });
     s \<leftarrow> (if \<not> success \<and> sector \<noteq> 0 then free_map_release sector 1 s else Some s);
     s \<leftarrow> dir_close dr s;
     Some (s, success) }"

definition filesys_open :: "byte list \<Rightarrow> fsys \<Rightarrow> (fsys \<times> ptr) option" where
  "filesys_open name s = do {
     (s, dr) \<leftarrow> dir_open_root s;
     (s, i) \<leftarrow> (case dr of None \<Rightarrow> Some (s, NULL) | Some dr \<Rightarrow> dir_lookup dr name s);
     s \<leftarrow> dir_close dr s;
     file_open i s }"

definition filesys_remove :: "byte list \<Rightarrow> fsys \<Rightarrow> (fsys \<times> bool) option" where
  "filesys_remove name s = do {
     (s, dr) \<leftarrow> dir_open_root s;
     (s, success) \<leftarrow> (case dr of None \<Rightarrow> Some (s, False) | Some dr \<Rightarrow> dir_remove dr name s);
     s \<leftarrow> dir_close dr s;
     Some (s, success) }"

definition do_format :: "fsys \<Rightarrow> fsys option" where
  "do_format s = do {
     s \<leftarrow> free_map_create s;
     (s, ok) \<leftarrow> dir_create ROOT_DIR_SECTOR 16 s;
     ASSERT ok;
     free_map_close s }"

text \<open>\<open>m1\<close> and \<open>m2\<close> are the allocations of the bitmap; the device is the one with the role \<^verbatim>\<open>BLOCK_FILESYS\<close>.\<close>

definition filesys_init :: "bool \<Rightarrow> bool \<Rightarrow> u32 list option \<Rightarrow> fsys \<Rightarrow> fsys option" where
  "filesys_init format m1 m2 s = do {
     s \<leftarrow> free_map_init m1 m2 (inode_init s);
     s \<leftarrow> (if format then do_format s else Some s);
     free_map_open s }"

definition filesys_done :: "fsys \<Rightarrow> fsys option" where
  "filesys_done s = free_map_close s"

end
