(* ===== verification/Directory_Spec.thy ===== *)
theory Directory_Spec
  imports Directory
begin

text \<open>
  What the directory operations do to the finite map from names to sectors that a directory stands for.
\<close>

subsection \<open>A directory as a list of entries\<close>

definition dir_size :: "inode_disk \<Rightarrow> nat" where
  "dir_size d = nat (d_length d) div 20"

definition entry :: "byte list \<Rightarrow> nat \<Rightarrow> byte list" where
  "entry bs k = take 20 (drop (20 * k) bs)"

definition entries :: "block \<Rightarrow> inode_disk \<Rightarrow> byte list list" where
  "entries b d = map (entry (content b d)) [0..<dir_size d]"

lemma length_entries [simp]: "length (entries b d) = dir_size d"
  by (simp add: entries_def)

lemma nth_entries [simp]: "k < dir_size d \<Longrightarrow> entries b d ! k = entry (content b d) k"
  by (simp add: entries_def)

lemma dir_size_bound: "data_wf b d \<Longrightarrow> k < dir_size d \<Longrightarrow> 20 * k + 20 \<le> nat (d_length d)"
proof -
  assume "k < dir_size d"
  then have "20 * (k + 1) \<le> 20 * (nat (d_length d) div 20)" by (simp add: dir_size_def)
  also have "\<dots> \<le> nat (d_length d)" by simp
  finally show ?thesis by simp
qed

lemma length_entry: "data_wf b d \<Longrightarrow> length (entry (content b d) k) = 20 \<longleftrightarrow> k < dir_size d"
proof -
  assume w: "data_wf b d"
  have "20 \<le> nat (d_length d) - 20 * k \<longleftrightarrow> Suc k \<le> nat (d_length d) div 20"
    by (subst less_eq_div_iff_mult_less_eq) auto
  then show ?thesis using length_content [OF w] by (auto simp: entry_def dir_size_def min_def)
qed

lemma length_nth_entries: "data_wf b d \<Longrightarrow> e \<in> set (entries b d) \<Longrightarrow> length e = 20"
proof -
  assume w: "data_wf b d" and "e \<in> set (entries b d)"
  then obtain k where "k < dir_size d" "e = entry (content b d) k" by (auto simp: entries_def)
  then show ?thesis using iffD2 [OF length_entry [OF w]] by simp
qed

text \<open>Only read counters and the memory that is left change.\<close>

definition only_read :: "fsys \<Rightarrow> fsys \<Rightarrow> bool" where
  "only_read s s' \<longleftrightarrow> (\<exists>c m. s' = s\<lparr>fs_device := (fs_device s)\<lparr>read_cnt := c\<rparr>, fs_mem := m\<rparr> \<and> (\<forall>n. \<exists>n'. m n = fs_mem s n'))"

lemma only_read_refl [simp]: "only_read s s"
  unfolding only_read_def by (intro exI [of _ "read_cnt (fs_device s)"] exI [of _ "fs_mem s"]) auto

lemma only_read_trans: "only_read s s1 \<Longrightarrow> only_read s1 s2 \<Longrightarrow> only_read s s2"
proof -
  assume "only_read s s1" "only_read s1 s2"
  then obtain c m c' m' where 1: "s1 = s\<lparr>fs_device := (fs_device s)\<lparr>read_cnt := c\<rparr>, fs_mem := m\<rparr>" "\<forall>n. \<exists>n'. m n = fs_mem s n'"
    "s2 = s1\<lparr>fs_device := (fs_device s1)\<lparr>read_cnt := c'\<rparr>, fs_mem := m'\<rparr>" "\<forall>n. \<exists>n'. m' n = fs_mem s1 n'"
    unfolding only_read_def by blast
  have "\<forall>n. \<exists>n'. m' n = fs_mem s n'" using 1(1,2,4) by simp metis
  then show ?thesis unfolding only_read_def using 1(1,3) by (intro exI [of _ c'] exI [of _ m']) simp
qed

lemma only_read_same:
  assumes "only_read s s'"
  shows "inodes s' = inodes s" "files s' = files s" "free_map s' = free_map s" "free_map_file s' = free_map_file s"
    "open_inodes s' = open_inodes s" "b_disk (fs_device s') = b_disk (fs_device s)" "b_size (fs_device s') = b_size (fs_device s)"
    "data_wf (fs_device s') d = data_wf (fs_device s) d" "content (fs_device s') d = content (fs_device s) d"
    "mem_all s \<Longrightarrow> mem_all s'"
proof -
  obtain c m where s': "s' = s\<lparr>fs_device := (fs_device s)\<lparr>read_cnt := c\<rparr>, fs_mem := m\<rparr>" "\<forall>n. \<exists>n'. m n = fs_mem s n'"
    using assms unfolding only_read_def by blast
  show "inodes s' = inodes s" "files s' = files s" "free_map s' = free_map s" "free_map_file s' = free_map_file s"
    "open_inodes s' = open_inodes s" "b_disk (fs_device s') = b_disk (fs_device s)" "b_size (fs_device s') = b_size (fs_device s)"
    "data_wf (fs_device s') d = data_wf (fs_device s) d" "content (fs_device s') d = content (fs_device s) d" by (simp_all add: s'(1))
  show "mem_all s \<Longrightarrow> mem_all s'" using s' by (auto simp: mem_all_def) metis
qed

lemma read_entry:
  assumes i: "inodes s i = Some ino" "data_wf (fs_device s) (i_data ino)" and m: "mem_all s" and k: "k \<le> dir_size (i_data ino)"
  shows "\<exists>s'. inode_read_at i (int ENTRY_SIZE) (s32 (int (20 * k))) s = Some (s', entry (content (fs_device s) (i_data ino)) k) \<and> only_read s s'"
proof -
  have "20 * k \<le> nat (d_length (i_data ino))" using k by (simp add: dir_size_def less_eq_div_iff_mult_less_eq mult.commute)
  then have "int (20 * k) \<le> d_length (i_data ino)" using data_wf_facts(2) [OF i(2)] by (simp add: le_nat_iff)
  then have o: "int (20 * k) < 2 ^ 31" using data_wf_facts(3) [OF i(2)] by simp
  then have so: "s32 (int (20 * k)) = int (20 * k)" by simp
  obtain c m' n where r: "inode_read_at i (int ENTRY_SIZE) (int (20 * k)) s = Some (s\<lparr>fs_device := (fs_device s)\<lparr>read_cnt := c\<rparr>, fs_mem := m'\<rparr>,
       take n (take (nat (int ENTRY_SIZE)) (drop (nat (int (20 * k))) (content (fs_device s) (i_data ino)))))"
     "mem_after False s m'" "nat (int ENTRY_SIZE) \<le> n"
    using inode_read_at_spec [OF i, of "int (20 * k)" "int ENTRY_SIZE"] o mem_all_ok [OF m] by auto
  have "take n (take (nat (int ENTRY_SIZE)) (drop (nat (int (20 * k))) (content (fs_device s) (i_data ino)))) = entry (content (fs_device s) (i_data ino)) k"
    using r(3) unfolding nat_int by (simp add: entry_def ENTRY_SIZE_def min_def)
  moreover have "only_read s (s\<lparr>fs_device := (fs_device s)\<lparr>read_cnt := c\<rparr>, fs_mem := m'\<rparr>)"
    using r(2) unfolding only_read_def mem_after_def by blast
  ultimately show ?thesis using r(1) so by auto
qed

text \<open>The first entry in use with the name, from entry \<open>k\<close> on.\<close>

definition names_it :: "byte list \<Rightarrow> byte list \<Rightarrow> bool" where
  "names_it name e \<longleftrightarrow> e_in_use e \<and> e_name e = name"

definition lookup_result :: "byte list \<Rightarrow> byte list list \<Rightarrow> (byte list \<times> nat) option" where
  "lookup_result name es = (case List.find (\<lambda>k. names_it name (es ! k)) [0..<length es] of
     None \<Rightarrow> None | Some k \<Rightarrow> Some (es ! k, 20 * k))"

lemma usz_entry: "data_wf b d \<Longrightarrow> k < dir_size d \<Longrightarrow> usz (20 * k + ENTRY_SIZE) = 20 * (k + 1)"
  using dir_size_bound [of b d k] data_wf_facts(3) [of b d] by (simp add: ENTRY_SIZE_def usz_def)

lemma lookup_loop_spec:
  assumes "inodes s i = Some ino" "data_wf (fs_device s) (i_data ino)" "mem_all s" "k \<le> dir_size (i_data ino)"
  shows "\<exists>s'. lookup_loop i name (20 * k) s = Some (s', case List.find (\<lambda>k. names_it name (entries (fs_device s) (i_data ino) ! k)) [k..<dir_size (i_data ino)] of
      None \<Rightarrow> None | Some k \<Rightarrow> Some (entries (fs_device s) (i_data ino) ! k, 20 * k)) \<and> only_read s s'"
  using assms
proof (induction "dir_size (i_data ino) - k" arbitrary: k s)
  case 0
  then have k: "k = dir_size (i_data ino)" by simp
  obtain s' where s': "inode_read_at i (int ENTRY_SIZE) (s32 (int (20 * k))) s = Some (s', entry (content (fs_device s) (i_data ino)) k)" "only_read s s'"
    using read_entry [OF 0(2-5)] by blast
  have "length (entry (content (fs_device s) (i_data ino)) k) \<noteq> 20" using length_entry [OF 0(3)] k by simp
  then show ?case using s' k by (subst lookup_loop.simps) (simp add: ENTRY_SIZE_def)
next
  case (Suc n)
  then have k: "k < dir_size (i_data ino)" by simp
  let ?E = "entries (fs_device s) (i_data ino)"
  obtain s1 where s1: "inode_read_at i (int ENTRY_SIZE) (s32 (int (20 * k))) s = Some (s1, ?E ! k)" "only_read s s1"
    using read_entry [OF Suc.prems] k by auto
  have l: "length (?E ! k) = ENTRY_SIZE" using length_entry [OF Suc.prems(2), of k] k by (simp add: ENTRY_SIZE_def)
  have up: "[k..<dir_size (i_data ino)] = k # [Suc k..<dir_size (i_data ino)]" using k by (rule upt_conv_Cons)
  note same = only_read_same [OF s1(2)]
  show ?case
  proof (cases "names_it name (?E ! k)")
    case True
    then show ?thesis using s1 l up by (subst lookup_loop.simps) (auto simp: names_it_def)
  next
    case False
    have E: "entries (fs_device s1) (i_data ino) = ?E" using same(9) by (simp add: entries_def)
    have "\<exists>s'. lookup_loop i name (20 * (k + 1)) s1 = Some (s', case List.find (\<lambda>k. names_it name (entries (fs_device s1) (i_data ino) ! k)) [k + 1..<dir_size (i_data ino)] of
      None \<Rightarrow> None | Some k \<Rightarrow> Some (entries (fs_device s1) (i_data ino) ! k, 20 * k)) \<and> only_read s1 s'"
      by (rule Suc.hyps(1)) (use Suc.hyps(2) Suc.prems k same in auto)
    then obtain s' where r: "lookup_loop i name (20 * (k + 1)) s1 = Some (s', case List.find (\<lambda>k. names_it name (?E ! k)) [Suc k..<dir_size (i_data ino)] of
      None \<Rightarrow> None | Some k \<Rightarrow> Some (?E ! k, 20 * k))" "only_read s1 s'" unfolding E by auto
    have "lookup_loop i name (20 * k) s = lookup_loop i name (20 * (k + 1)) s1"
      using s1 l False usz_entry [OF Suc.prems(2) k] by (subst lookup_loop.simps) (auto simp: names_it_def)
    then show ?thesis unfolding r(1) using False up only_read_trans [OF s1(2) r(2)] by simp
  qed
qed

lemma lookup_spec:
  assumes "inodes s (dir_inode dr) = Some ino" "data_wf (fs_device s) (i_data ino)" "mem_all s"
  shows "\<exists>s'. lookup dr name s = Some (s', lookup_result name (entries (fs_device s) (i_data ino))) \<and> only_read s s'"
  using lookup_loop_spec [OF assms, of 0 name] by (simp add: lookup_def lookup_result_def)

subsection \<open>Changing one entry\<close>

lemma entry_overwrite:
  assumes "length e = 20" "20 * j + 20 \<le> length c"
  shows "entry (overwrite c (20 * j) e) k = (if k = j then e else entry c k)"
proof -
  consider "k = j" | "k < j" | "k > j" by linarith
  then show ?thesis
  proof cases
    case 1 then show ?thesis using assms by (simp add: entry_def overwrite_def)
  next
    case 2
    then have "20 * k + 20 \<le> 20 * j" by simp
    then show ?thesis using 2 assms read_overwrite_before [of "20 * k" 20 "20 * j" c e] by (simp add: entry_def)
  next
    case 3
    then obtain i where i: "k = j + 1 + i" by (metis add.commute less_iff_Suc_add plus_1_eq_Suc add.assoc)
    have "drop (20 * k) (overwrite c (20 * j) e) = drop (20 * k) c"
      using assms by (simp add: i overwrite_def algebra_simps)
    then show ?thesis using 3 by (simp add: entry_def)
  qed
qed

lemma entries_overwrite:
  assumes "data_wf b d" "length e = 20" "j < dir_size d" "content b' d = overwrite (content b d) (20 * j) e"
  shows "entries b' d = (entries b d)[j := e]"
proof (rule nth_equalityI)
  fix k assume "k < length (entries b' d)"
  then show "entries b' d ! k = (entries b d)[j := e] ! k"
    using entry_overwrite [OF assms(2), of j "content b d" k] dir_size_bound [OF assms(1,3)] length_content [OF assms(1)]
    by (simp add: assms(4) nth_list_update)
qed simp

lemma entries_tail:
  assumes "data_wf b d" "20 * dir_size d + length ys \<le> nat (d_length d)" "content b' d = overwrite (content b d) (20 * dir_size d) ys"
  shows "entries b' d = entries b d"
proof (rule nth_equalityI)
  fix k assume k: "k < length (entries b' d)"
  then have "20 * k + 20 \<le> 20 * dir_size d" by simp
  then show "entries b' d ! k = entries b d ! k"
    using k assms(2) length_content [OF assms(1)] read_overwrite_before [of "20 * k" 20 "20 * dir_size d" "content b d" ys]
    by (simp add: assms(3) entry_def)
qed simp

definition new_entry :: "byte list \<Rightarrow> nat \<Rightarrow> byte list \<Rightarrow> byte list" where
  "new_entry name n e = set_sector n (set_name name (set_in_use True e))"

lemma new_entry:
  assumes "length e = 20" "length name \<le> 14" "0 \<notin> set name" "n < 2 ^ 32"
  shows "length (new_entry name n e) = 20" "e_in_use (new_entry name n e)" "e_name (new_entry name n e) = name" "e_sector (new_entry name n e) = n"
proof -
  obtain f where f: "length f = 20" "f = set_in_use True e" using assms(1) by (simp add: set_in_use_def)
  have e: "new_entry name n e = le32 n @ name @ [0] @ drop (5 + length name) f"
    using assms(2) f by (simp add: new_entry_def set_sector_def set_name_def overwrite_def)
  show "length (new_entry name n e) = 20" using assms(2) f(1) by (simp add: e)
  show "e_sector (new_entry name n e) = n" using assms(4) by (simp add: e e_sector_def)
  have "takeWhile (\<lambda>b. b \<noteq> 0) (take 15 (name @ 0 # xs)) = name" for xs
  proof -
    have "take 15 (name @ 0 # xs) = name @ 0 # take (14 - length name) xs" using assms(2) Suc_diff_le [of "length name" 14] by simp
    moreover have "takeWhile (\<lambda>b. b \<noteq> 0) (name @ 0 # ys) = name" for ys using assms(3) by (induction name) auto
    ultimately show ?thesis by simp
  qed
  then show "e_name (new_entry name n e) = name" by (simp add: e e_name_def)
  have "new_entry name n e ! 19 = f ! 19" using assms(2) f(1) by (simp add: e nth_append)
  then show "e_in_use (new_entry name n e)" using assms(1) f(2) by (simp add: e_in_use_def set_in_use_def)
qed

text \<open>The map a directory stands for.\<close>

definition dmap :: "byte list list \<Rightarrow> byte list \<Rightarrow> nat option" where
  "dmap es name = map_option e_sector (List.find (names_it name) es)"

lemma find_update_irrelevant: "\<not> P (xs ! j) \<Longrightarrow> \<not> P y \<Longrightarrow> List.find P (xs[j := y]) = List.find P xs"
proof (induction xs arbitrary: j)
  case (Cons x xs)
  then show ?case by (cases j) auto
qed simp

lemma find_update_new: "j < length xs \<Longrightarrow> \<forall>x\<in>set xs. \<not> P x \<Longrightarrow> P y \<Longrightarrow> List.find P (xs[j := y]) = Some y"
proof (induction xs arbitrary: j)
  case (Cons x xs)
  then show ?case by (cases j) auto
qed simp

lemma find_upt: "map_option (\<lambda>k. xs ! k) (List.find (\<lambda>k. P (xs ! k)) [0..<length xs]) = List.find P xs"
proof (cases "List.find (\<lambda>k. P (xs ! k)) [0..<length xs]")
  case None
  then have "List.find P xs = None" by (auto simp: find_None_iff in_set_conv_nth)
  then show ?thesis using None by simp
next
  case (Some k)
  then have "k < length xs" "P (xs ! k)" "\<forall>j<k. \<not> P (xs ! j)" by (auto simp: find_Some_iff)
  then have "List.find P xs = Some (xs ! k)" by (auto simp: find_Some_iff)
  then show ?thesis using Some by simp
qed

lemma dmap_None: "dmap es name = None \<longleftrightarrow> (\<forall>e\<in>set es. \<not> names_it name e)"
  by (auto simp: dmap_def find_None_iff)

lemma lookup_result_dmap: "map_option (e_sector \<circ> fst) (lookup_result name es) = dmap es name"
  unfolding dmap_def find_upt [of es "names_it name", symmetric]
  by (cases "List.find (\<lambda>k. names_it name (es ! k)) [0..<length es]") (simp_all add: lookup_result_def)

lemma dmap_add:
  assumes "j < length es" "\<not> e_in_use (es ! j)" "dmap es name = None" "e_in_use e" "e_name e = name"
  shows "dmap (es[j := e]) = (dmap es)(name \<mapsto> e_sector e)"
proof
  fix nm
  show "dmap (es[j := e]) nm = ((dmap es)(name \<mapsto> e_sector e)) nm"
  proof (cases "nm = name")
    case True
    have "\<forall>x\<in>set es. \<not> names_it name x" using assms(3) by (simp add: dmap_None)
    then have "List.find (names_it name) (es[j := e]) = Some e"
      using assms by (intro find_update_new) (auto simp: names_it_def)
    then show ?thesis using True by (simp add: dmap_def)
  next
    case False
    then show ?thesis using assms find_update_irrelevant [of "names_it nm" es j e] by (simp add: dmap_def names_it_def)
  qed
qed

subsection \<open>Adding\<close>

definition first_free :: "byte list list \<Rightarrow> nat \<Rightarrow> nat" where
  "first_free es k = (case List.find (\<lambda>k. \<not> e_in_use (es ! k)) [k..<length es] of Some j \<Rightarrow> j | None \<Rightarrow> length es)"

lemma free_slot_loop_spec:
  assumes "inodes s i = Some ino" "data_wf (fs_device s) (i_data ino)" "mem_all s" "k \<le> dir_size (i_data ino)" "length e = 20"
  shows "\<exists>s' e'. free_slot_loop i e (20 * k) s = Some (s', e', 20 * first_free (entries (fs_device s) (i_data ino)) k) \<and>
     length e' = 20 \<and> only_read s s'"
  using assms
proof (induction "dir_size (i_data ino) - k" arbitrary: k s e)
  case 0
  then have k: "k = dir_size (i_data ino)" by simp
  let ?x = "entry (content (fs_device s) (i_data ino)) k"
  obtain s' where s': "inode_read_at i (int ENTRY_SIZE) (s32 (int (20 * k))) s = Some (s', ?x)" "only_read s s'"
    using read_entry [OF 0(2-5)] by blast
  have "length ?x \<noteq> 20" using length_entry [OF 0(3)] k by simp
  moreover have "length ?x \<le> 20" by (simp add: entry_def)
  ultimately have "free_slot_loop i e (20 * k) s = Some (s', overwrite e 0 ?x, 20 * k)" "length (overwrite e 0 ?x) = 20"
    using s' 0(6) by (subst free_slot_loop.simps, simp add: ENTRY_SIZE_def Let_def, simp)
  then show ?case using s'(2) k by (simp add: first_free_def)
next
  case (Suc n)
  then have k: "k < dir_size (i_data ino)" by simp
  let ?E = "entries (fs_device s) (i_data ino)"
  obtain s1 where s1: "inode_read_at i (int ENTRY_SIZE) (s32 (int (20 * k))) s = Some (s1, ?E ! k)" "only_read s s1"
    using read_entry [OF Suc.prems(1-4)] k by auto
  have l: "length (?E ! k) = 20" using length_entry [OF Suc.prems(2), of k] k by simp
  have ow: "overwrite e 0 (?E ! k) = ?E ! k" using l Suc.prems(5) by (simp add: overwrite_def)
  have up: "[k..<dir_size (i_data ino)] = k # [Suc k..<dir_size (i_data ino)]" using k by (rule upt_conv_Cons)
  note same = only_read_same [OF s1(2)]
  show ?case
  proof (cases "e_in_use (?E ! k)")
    case False
    have "free_slot_loop i e (20 * k) s = Some (s1, ?E ! k, 20 * k)"
      using s1(1) False by (subst free_slot_loop.simps) (simp only: Let_def Option.bind.simps fst_conv snd_conv ow, simp)
    then show ?thesis using False s1(2) up l by (simp add: first_free_def)
  next
    case True
    have E: "entries (fs_device s1) (i_data ino) = ?E" using same(9) by (simp add: entries_def)
    have "\<exists>s' e'. free_slot_loop i (?E ! k) (20 * (k + 1)) s1 = Some (s', e', 20 * first_free (entries (fs_device s1) (i_data ino)) (k + 1)) \<and>
        length e' = 20 \<and> only_read s1 s'"
      by (rule Suc.hyps(1)) (use Suc.hyps(2) Suc.prems k same l in auto)
    then obtain s' e' where r: "free_slot_loop i (?E ! k) (20 * (k + 1)) s1 = Some (s', e', 20 * first_free ?E (k + 1))" "length e' = 20" "only_read s1 s'"
      unfolding E by blast
    have "free_slot_loop i e (20 * k) s = free_slot_loop i (?E ! k) (20 * (k + 1)) s1"
      using s1(1) True l usz_entry [OF Suc.prems(2) k]
      by (subst free_slot_loop.simps) (simp only: Let_def Option.bind.simps fst_conv snd_conv ow, simp add: ENTRY_SIZE_def)
    moreover have "first_free ?E k = first_free ?E (k + 1)" using True up by (simp add: first_free_def)
    ultimately show ?thesis using r only_read_trans [OF s1(2) r(3)] by auto
  qed
qed

lemma first_free_less: "first_free es 0 < length es \<longleftrightarrow> (\<exists>e\<in>set es. \<not> e_in_use e)"
  "first_free es 0 < length es \<Longrightarrow> \<not> e_in_use (es ! first_free es 0)" "first_free es 0 \<le> length es"
  by (auto simp: first_free_def find_None_iff find_Some_iff in_set_conv_nth split: option.splits) (metis nth_mem)

text \<open>
  C4. \<^verbatim>\<open>dir_add\<close> refines the update of a finite map. It never panics and always returns; it succeeds exactly
  when the name is valid and unused and the directory has a free slot. On success the map gets the new
  name and keeps every other one; on failure the map is unchanged. Sectors outside the directory are not
  written.
\<close>

theorem dir_add_refines_map:
  assumes i: "inodes s (dir_inode dr) = Some ino" "deny_write_cnt ino = 0" "data_wf (fs_device s) (i_data ino)" and m: "mem_all s"
    and n: "0 \<notin> set name" "sector < 2 ^ 32" "length stack = 20"
  shows "\<exists>s' ok. dir_add stack dr name sector s = Some (s', ok) \<and>
    (ok \<longleftrightarrow> name \<noteq> [] \<and> length name \<le> NAME_MAX \<and> dmap (entries (fs_device s) (i_data ino)) name = None \<and>
       (\<exists>e\<in>set (entries (fs_device s) (i_data ino)). \<not> e_in_use e)) \<and>
    dmap (entries (fs_device s') (i_data ino)) =
      (if ok then (dmap (entries (fs_device s) (i_data ino)))(name \<mapsto> sector) else dmap (entries (fs_device s) (i_data ino))) \<and>
    inodes s' = inodes s \<and> (\<forall>x\<in>outside (i_data ino). b_disk (fs_device s') x = b_disk (fs_device s) x)"
proof -
  let ?d = "i_data ino" and ?E = "entries (fs_device s) (i_data ino)"
  obtain s1 where s1: "lookup dr name s = Some (s1, lookup_result name ?E)" "only_read s s1"
    using lookup_spec [OF i(1,3) m] by blast
  note same = only_read_same [OF s1(2)]
  have E1: "entries (fs_device s1) ?d = ?E" using same(9) by (simp add: entries_def)
  have lr: "lookup_result name ?E = None \<longleftrightarrow> dmap ?E name = None"
    unfolding lookup_result_dmap [of name ?E, symmetric] by simp
  consider (bad) "name = [] \<or> length name > NAME_MAX" | (used) "name \<noteq> []" "length name \<le> NAME_MAX" "dmap ?E name \<noteq> None"
    | (new) "name \<noteq> []" "length name \<le> NAME_MAX" "dmap ?E name = None" by fastforce
  then show ?thesis
  proof cases
    case bad
    then have "dir_add stack dr name sector s = Some (s, False)" by (simp add: dir_add_def)
    then show ?thesis using bad by auto
  next
    case used
    obtain r where "lookup_result name ?E = Some r" using used(3) lr by (cases "lookup_result name ?E") auto
    then have "dir_add stack dr name sector s = Some (s1, False)" using s1(1) used by (simp add: dir_add_def)
    then show ?thesis using used E1 same by auto
  next
    case new
    have m1: "mem_all s1" using same(10) m by simp
    obtain s2 e where s2: "free_slot_loop (dir_inode dr) stack 0 s1 = Some (s2, e, 20 * first_free ?E 0)" "length e = 20" "only_read s1 s2"
      using free_slot_loop_spec [of s1 "dir_inode dr" ino 0 stack] same i(1,3) m1 n(3) E1 by auto
    have or2: "only_read s s2" by (rule only_read_trans [OF s1(2) s2(3)])
    note same2 = only_read_same [OF or2]
    let ?j = "first_free ?E 0" and ?e = "new_entry name sector e"
    note ne = new_entry [OF s2(2) _ n(1,2)] 
    have ln: "length name \<le> 14" using new(2) by (simp add: NAME_MAX_def)
    have jl: "?j \<le> dir_size ?d" using first_free_less(3) [of ?E] by simp
    then have "20 * ?j \<le> nat (d_length ?d)" by (simp add: dir_size_def less_eq_div_iff_mult_less_eq mult.commute)
    then have jo: "int (20 * ?j) \<le> d_length ?d" using data_wf_facts(2) [OF i(3)] by (simp add: le_nat_iff)
    then have o: "int (20 * ?j) < 2 ^ 31" "s32 (int (20 * ?j)) = int (20 * ?j)" using data_wf_facts(3) [OF i(3)] by simp_all
    have m2: "mem_ok s2" using same2(10) m mem_all_ok by blast
    have a1: "inodes s2 (dir_inode dr) = Some ino" using same2(1) i(1) by simp
    have a2: "data_wf (fs_device s2) ?d" using same2(8) i(3) by simp
    have a3: "int ENTRY_SIZE \<le> int (length ?e)" using ne(1) [OF ln] by (simp add: ENTRY_SIZE_def)
    have o0: "0 \<le> int (20 * ?j)" by simp
    from inode_write_at_spec [OF a1 i(2) a2 o0 o(1) a3]
    obtain b mm k where w: "inode_write_at (dir_inode dr) ?e (int ENTRY_SIZE) (int (20 * ?j)) s2 = Some (s2\<lparr>fs_device := b, fs_mem := mm\<rparr>, int k)"
      "0 < k \<longrightarrow> nat (int (20 * ?j)) + k \<le> nat (d_length ?d)"
      "mem_ok s2 \<longrightarrow> k = min (nat (int ENTRY_SIZE)) (nat (d_length ?d) - nat (int (20 * ?j)))" 
      "\<forall>x\<in>outside ?d. b_disk b x = b_disk (fs_device s2) x"
      "content b ?d = (if k = 0 then content (fs_device s2) ?d else overwrite (content (fs_device s2) ?d) (nat (int (20 * ?j))) (take k ?e))"
      by blast
    have kk: "k = min 20 (nat (d_length ?d) - 20 * ?j)" using w(3) m2 unfolding nat_int ENTRY_SIZE_def by blast
    have fin: "dir_add stack dr name sector s = Some (s2\<lparr>fs_device := b, fs_mem := mm\<rparr>, k = 20)"
      using new lr s1(1) s2(1) w(1) o(2) by (simp add: dir_add_def new_entry_def [symmetric] ENTRY_SIZE_def)
    have "dmap (entries b ?d) = (if k = 20 then (dmap ?E)(name \<mapsto> sector) else dmap ?E) \<and> (k = 20 \<longleftrightarrow> ?j < dir_size ?d)"
    proof (cases "?j < dir_size ?d")
      case True
      have "k = 20" using kk dir_size_bound [OF i(3) True] by simp
      have "content b ?d = overwrite (content (fs_device s) ?d) (20 * ?j) ?e"
        using w(5) [unfolded nat_int] \<open>k = 20\<close> same2(9) ne(1) [OF ln] by simp
      then have "entries b ?d = ?E[?j := ?e]" by (rule entries_overwrite [OF i(3) ne(1) [OF ln] True])
      then show ?thesis using dmap_add [of ?j ?E name ?e] True first_free_less(2) [of ?E] new(3) ne(2-4) [OF ln] \<open>k = 20\<close> by simp
    next
      case False
      then have j: "?j = dir_size ?d" using jl by simp
      have "nat (d_length ?d) < 20 * (dir_size ?d + 1)" using div_less_iff_less_mult [of 20 "nat (d_length ?d)" "dir_size ?d + 1"] by (simp add: dir_size_def mult.commute)
      then have k20: "k < 20" using kk j by simp
      have "entries b ?d = ?E"
      proof (cases "k = 0")
        case True then show ?thesis using w(5) same2(9) by (simp add: entries_def)
      next
        case nz: False
        have "content b ?d = overwrite (content (fs_device s) ?d) (20 * dir_size ?d) (take k ?e)"
          using w(5) nz same2(9) j by (simp only: if_False nat_int)
        moreover have "20 * dir_size ?d + length (take k ?e) \<le> nat (d_length ?d)" using w(2) nz j ne(1) [OF ln] k20 by (simp only: nat_int length_take) simp
        ultimately show ?thesis using entries_tail [OF i(3)] by blast
      qed
      then show ?thesis using False k20 by simp
    qed
    then have dm: "dmap (entries b ?d) = (if k = 20 then (dmap ?E)(name \<mapsto> sector) else dmap ?E)" "k = 20 \<longleftrightarrow> ?j < dir_size ?d" by blast+
    have "k = 20 \<longleftrightarrow> name \<noteq> [] \<and> length name \<le> NAME_MAX \<and> dmap ?E name = None \<and> (\<exists>e\<in>set ?E. \<not> e_in_use e)"
      using dm(2) new first_free_less(1) [of ?E] by simp
    moreover have "\<forall>x\<in>outside ?d. b_disk b x = b_disk (fs_device s) x" using w(4) same2(6) by simp
    ultimately show ?thesis using fin dm(1) same2(1)
      by (intro exI [of _ "s2\<lparr>fs_device := b, fs_mem := mm\<rparr>"] exI [of _ "k = 20"]) simp
  qed
qed

text \<open>A directory of two entries, one of them free, on the device of \<open>demo_fs\<close>.\<close>

definition demo_dir :: fsys where
  "demo_dir = demo_fs\<lparr>inodes := [9 \<mapsto> \<lparr>i_sector = 1, open_cnt = 1, removed = False, deny_write_cnt = 0,
     i_data = \<lparr>d_start = 2, d_length = 40, d_magic = 0\<rparr>\<rparr>]\<rparr>"

theorem dir_add_refines_map_witness:
  "\<exists>s'. dir_add (replicate 20 0) \<lparr>dir_inode = 9, dir_pos = 0\<rparr> [97, 98] 3 demo_dir = Some (s', True) \<and>
    dmap (entries (fs_device s') \<lparr>d_start = 2, d_length = 40, d_magic = 0\<rparr>) [97, 98] = Some 3"
proof -
  let ?d = "\<lparr>d_start = 2, d_length = 40, d_magic = 0\<rparr>"
  have w: "data_wf (fs_device demo_dir) ?d"
    by (simp add: data_wf_def disk_wf_def demo_dir_def demo_fs_def bytes_to_sectors_eq BLOCK_SECTOR_SIZE_def)
  have c: "content (fs_device demo_dir) ?d = replicate 40 0"
    by (simp add: content_def img_def demo_dir_def demo_fs_def bytes_to_sectors_eq)
  have E: "entries (fs_device demo_dir) ?d = [replicate 20 0, replicate 20 0]"
    unfolding entries_def c by (simp add: dir_size_def entry_def upt_rec)
  have u: "\<not> e_in_use (replicate 20 0)" by (simp add: e_in_use_def)
  have f: "dmap (entries (fs_device demo_dir) ?d) [97, 98] = None" unfolding E dmap_None using u by (simp add: names_it_def)
  from dir_add_refines_map [of demo_dir "\<lparr>dir_inode = 9, dir_pos = 0\<rparr>" _ "[97, 98]" 3 "replicate 20 0"]
  obtain s' ok where "dir_add (replicate 20 0) \<lparr>dir_inode = 9, dir_pos = 0\<rparr> [97, 98] 3 demo_dir = Some (s', ok)"
    "ok \<longleftrightarrow> dmap (entries (fs_device demo_dir) ?d) [97, 98] = None \<and> (\<exists>e\<in>set (entries (fs_device demo_dir) ?d). \<not> e_in_use e)"
    "dmap (entries (fs_device s') ?d) = (if ok then (dmap (entries (fs_device demo_dir) ?d))([97, 98] \<mapsto> 3) else dmap (entries (fs_device demo_dir) ?d))"
    using w by (auto simp: demo_dir_def demo_fs_def mem_all_def NAME_MAX_def)
  moreover have "\<exists>e\<in>set (entries (fs_device demo_dir) ?d). \<not> e_in_use e" unfolding E using u by simp
  ultimately show ?thesis using f by (intro exI [of _ s']) simp
qed

end
