(* ===== verification/Lib_Arith.thy ===== *)
theory Lib_Arith
  imports Pintos_Prelude
begin

text \<open>
  The 64-bit division routines of \<^verbatim>\<open>lib/arithmetic.c\<close>, which the compiler calls for every 64-bit division
  on the 32-bit target. Unsigned values are natural numbers below \<open>2 ^ 64\<close> or \<open>2 ^ 32\<close>, signed ones
  integers. A divide error of the processor is \<^term>\<open>None\<close>.
\<close>

definition divl :: "nat \<Rightarrow> nat \<Rightarrow> nat option" where
  "divl n d = (if d = 0 \<or> n div d \<ge> 2 ^ 32 then None else Some (n div d))"

definition nlz :: "nat \<Rightarrow> nat" where
  "nlz x = (
     let n = 0;
         (n, x) = (if x \<le> 0x0000FFFF then (n + 16, usz (x * 2 ^ 16)) else (n, x));
         (n, x) = (if x \<le> 0x00FFFFFF then (n + 8, usz (x * 2 ^ 8)) else (n, x));
         (n, x) = (if x \<le> 0x0FFFFFFF then (n + 4, usz (x * 2 ^ 4)) else (n, x));
         (n, x) = (if x \<le> 0x3FFFFFFF then (n + 2, usz (x * 2 ^ 2)) else (n, x))
     in if x \<le> 0x7FFFFFFF then n + 1 else n)"

definition u64 :: "nat \<Rightarrow> nat" where
  "u64 n = n mod 2 ^ 64"

text \<open>\<open>usub64\<close> is subtraction of unsigned 64-bit values.\<close>

definition usub64 :: "nat \<Rightarrow> nat \<Rightarrow> nat" where
  "usub64 a b = (a + (2 ^ 64 - b mod 2 ^ 64)) mod 2 ^ 64"

definition udiv64 :: "nat \<Rightarrow> nat \<Rightarrow> nat option" where
  "udiv64 n d =
     (if d div 2 ^ 32 = 0 then do {
        let b = 2 ^ 32;
        let n1 = n div 2 ^ 32 mod 2 ^ 32;
        let n0 = n mod 2 ^ 32;
        let d0 = d mod 2 ^ 32;
        ASSERT (d0 \<noteq> 0);
        q \<leftarrow> divl (u64 (b * (n1 mod d0) + n0)) d0;
        Some (u64 (q + b * (n1 div d0))) }
      else if n < d then Some 0
      else do {
        let d1 = d div 2 ^ 32 mod 2 ^ 32;
        let s = nlz d1;
        q \<leftarrow> divl (n div 2) (u64 (d * 2 ^ s) div 2 ^ 32);
        let q = q div 2 ^ (31 - s);
        Some (if usub64 n (u64 (usub64 q 1 * d)) < d then usub64 q 1 else q) })"

definition umod64 :: "nat \<Rightarrow> nat \<Rightarrow> nat option" where
  "umod64 n d = do { q \<leftarrow> udiv64 n d; Some (usz (usub64 n (u64 (d * q)))) }"

definition uabs64 :: "int \<Rightarrow> nat" where
  "uabs64 n = (if n \<ge> 0 then nat n else usub64 0 (nat (n mod 2 ^ 64)))"

definition sdiv64 :: "int \<Rightarrow> int \<Rightarrow> int option" where
  "sdiv64 n d = do {
     q_abs \<leftarrow> udiv64 (uabs64 n) (uabs64 d);
     Some (if (n < 0) = (d < 0) then s64 (int q_abs) else s64 (- s64 (int q_abs))) }"

definition smod64 :: "int \<Rightarrow> int \<Rightarrow> int option" where
  "smod64 n d = do { q \<leftarrow> sdiv64 n d; Some (s32 (s64 (n - s64 (d * q)))) }"

text \<open>The entry points the compiler calls.\<close>

definition divdi3 :: "int \<Rightarrow> int \<Rightarrow> int option" where
  "divdi3 n d = sdiv64 n d"

definition moddi3 :: "int \<Rightarrow> int \<Rightarrow> int option" where
  "moddi3 n d = smod64 n d"

definition udivdi3 :: "nat \<Rightarrow> nat \<Rightarrow> nat option" where
  "udivdi3 n d = udiv64 n d"

definition umoddi3 :: "nat \<Rightarrow> nat \<Rightarrow> nat option" where
  "umoddi3 n d = umod64 n d"

subsection \<open>Unsigned division\<close>

lemma nlz_normalizes:
  assumes "0 < x" "x < 2 ^ 32"
  shows "nlz x \<le> 31 \<and> 2 ^ 31 \<le> x * 2 ^ nlz x \<and> x * 2 ^ nlz x < 2 ^ 32"
  using assms by (simp add: nlz_def Let_def usz_def)

lemma udiv64_short:
  assumes "n < 2 ^ 64" "0 < d" "d < 2 ^ 32"
  shows "udiv64 n d = Some (n div d)"
proof -
  let ?b = "2 ^ 32 :: nat" and ?n1 = "n div 2 ^ 32" and ?n0 = "n mod 2 ^ 32"
  have n1: "?n1 < ?b" using assms(1) by (simp add: div_less_iff_less_mult)
  have r: "?n1 mod d < d" using assms(2) by simp
  have "?b * (?n1 mod d) + ?n0 < ?b * (?n1 mod d) + ?b" by simp
  also have "\<dots> \<le> ?b * d" using r by (metis Suc_leI mult_Suc_right mult_le_mono2 add.commute)
  finally have lt: "?b * (?n1 mod d) + ?n0 < ?b * d" .
  also have "\<dots> \<le> ?b * 2 ^ 32" using assms(3) by (intro mult_le_mono2) simp
  finally have u: "u64 (?b * (?n1 mod d) + ?n0) = ?b * (?n1 mod d) + ?n0" by (simp add: u64_def)
  have dl: "divl (?b * (?n1 mod d) + ?n0) d = Some ((?b * (?n1 mod d) + ?n0) div d)"
    using less_mult_imp_div_less [OF lt] assms(2) by (simp add: divl_def)
  have "n = ?b * ?n1 + ?n0" by simp
  also have "?n1 = ?n1 div d * d + ?n1 mod d" by simp
  finally have e: "n = (?b * (?n1 mod d) + ?n0) + (?b * (?n1 div d)) * d" by (simp only: distrib_left mult.assoc ac_simps)
  have q: "n div d = (?b * (?n1 mod d) + ?n0) div d + ?b * (?n1 div d)"
    by (subst e, rule div_mult_self1 [THEN trans]) (use assms(2) in \<open>simp_all add: add.commute\<close>)
  have "n div d < 2 ^ 64" using assms(1) div_le_dividend le_less_trans by blast
  then show ?thesis using assms u dl q n1 by (simp add: udiv64_def Let_def u64_def)
qed

text \<open>The estimate of the second case is the quotient or one more.\<close>

lemma quotient_estimate:
  fixes n d D :: nat
  assumes "0 < D" "D \<le> d" "n * (d - D) < d * D"
  shows "n div d \<le> n div D" "n div D \<le> n div d + 1"
proof -
  show "n div d \<le> n div D" using assms by (intro div_le_mono2) auto
  show "n div D \<le> n div d + 1"
  proof (rule ccontr)
    assume "\<not> n div D \<le> n div d + 1"
    then have "n div d + 2 \<le> n div D" by simp
    then have 1: "(n div d + 2) * D \<le> n" using assms(1) by (simp add: less_eq_div_iff_mult_less_eq)
    have "n < (n div d + 1) * d" using assms by (simp add: dividend_less_div_times add.commute)
    then have 2: "n + 1 \<le> (n div d + 1) * d" by simp
    let ?q = "n div d"
    have "n * d = n * D + n * (d - D)" using assms(2) by (simp add: distrib_left [symmetric])
    then have 3: "n * d < n * D + d * D" using assms(3) by simp
    have "(?q + 2) * (n * d) < (?q + 2) * (n * D + d * D)" using 3 by (intro mult_strict_left_mono) auto
    also have "\<dots> = n * ((?q + 2) * D) + d * ((?q + 2) * D)" by (simp add: algebra_simps)
    also have "\<dots> \<le> n * n + d * n" using 1 by (intro add_mono mult_le_mono2)
    finally have "(?q + 1) * d * n < n * n" by (simp add: algebra_simps)
    then have "(?q + 1) * d < n" by simp
    then show False using 2 by simp
  qed
qed

lemma estimate_bound:
  fixes n x D d t :: nat
  assumes "n < 2 ^ 64" "x < 2 ^ t" "1 \<le> t" "2 ^ (31 + t) \<le> D" "D \<le> d"
  shows "n * x < d * D"
proof -
  have p: "(2::nat) ^ (62 + 2 * t) = 2 ^ (31 + t) * 2 ^ (31 + t)" by (simp add: power_add [symmetric])
  have dD: "(2::nat) ^ (62 + 2 * t) \<le> d * D" unfolding p using assms(4,5) by (intro mult_le_mono) auto
  have "n * x < 2 ^ (62 + 2 * t)"
  proof (cases "t = 1")
    case True
    then have "x \<le> 1" using assms(2) by simp
    then have "n * x \<le> n" by (cases x) auto
    then have "n * x < 2 ^ 64" using assms(1) by (rule order_le_less_trans)
    then show ?thesis unfolding True by simp
  next
    case False
    have "n * x < 2 ^ 64 * 2 ^ t" using assms(1,2) by (intro mult_strict_mono) auto
    also have "\<dots> = 2 ^ (64 + t)" by (simp add: power_add)
    also have "\<dots> \<le> 2 ^ (62 + 2 * t)" using False assms(3) by (intro power_increasing) auto
    finally show ?thesis .
  qed
  then show ?thesis using dD by simp
qed

lemma usub64_eq:
  assumes "b \<le> a" "a < 2 ^ 64"
  shows "usub64 a b = a - b"
proof -
  have "a + 2 ^ 64 - b = (a - b) + 2 ^ 64" using assms by simp
  then have "(a + 2 ^ 64 - b) mod 2 ^ 64 = (a - b) mod 2 ^ 64" by (metis mod_add_self2)
  moreover have "(a - b) mod 2 ^ 64 = a - b" using assms(2) by (intro mod_less) simp
  moreover have "a + (2 ^ 64 - b mod 2 ^ 64) = a + 2 ^ 64 - b" using assms by simp
  ultimately show ?thesis unfolding usub64_def by (simp only:)
qed

text \<open>The normalized divisor: its top 32 bits \<open>v\<close>, and the approximation \<open>v * 2 ^ t\<close> of the divisor they give.\<close>

lemma normalized_divisor:
  fixes d s t v :: nat
  defines "s \<equiv> nlz (d div 2 ^ 32)" and "t \<equiv> 32 - nlz (d div 2 ^ 32)" and "v \<equiv> d * 2 ^ nlz (d div 2 ^ 32) div 2 ^ 32"
  assumes d: "2 ^ 32 \<le> d" "d < 2 ^ 64"
  shows "s + t = 32" "1 \<le> t" "d * 2 ^ s < 2 ^ 64" "2 ^ 31 \<le> v" "v * 2 ^ t \<le> d" "d - v * 2 ^ t < 2 ^ t"
proof -
  define d1 where "d1 = d div 2 ^ 32"
  have d1: "0 < d1" "d1 < 2 ^ 32" using d by (simp_all add: d1_def div_greater_zero_iff div_less_iff_less_mult)
  have z: "s \<le> 31" "2 ^ 31 \<le> d1 * 2 ^ s" "d1 * 2 ^ s < 2 ^ 32" using nlz_normalizes [OF d1] by (auto simp: s_def d1_def)
  have t_eq: "t = 32 - s" by (simp add: t_def s_def)
  show t: "s + t = 32" "1 \<le> t" using z(1) by (auto simp: t_eq)
  have pt: "(2::nat) ^ 32 = 2 ^ s * 2 ^ t" using t(1) by (metis power_add)
  have "d1 * 2 ^ s < 2 ^ t * 2 ^ s" using z(3) pt by (simp add: mult.commute)
  then have "d1 + 1 \<le> 2 ^ t" by simp
  moreover have "d < (d1 + 1) * 2 ^ 32" unfolding d1_def by (simp add: dividend_less_div_times)
  ultimately have "d < 2 ^ t * 2 ^ 32" by (metis mult_le_mono1 order_less_le_trans)
  then have "d * 2 ^ s < 2 ^ t * 2 ^ 32 * 2 ^ s" by (intro mult_strict_right_mono) auto
  also have "2 ^ t * 2 ^ 32 * 2 ^ s = (2 ^ s * 2 ^ t) * (2 ^ 32 :: nat)" by (simp only: ac_simps)
  also have "\<dots> = 2 ^ 64" unfolding pt [symmetric] by simp
  finally show "d * 2 ^ s < 2 ^ 64" .
  have v_eq: "v = d * 2 ^ s div 2 ^ 32" by (simp add: v_def s_def)
  have vm: "v * 2 ^ 32 \<le> d * 2 ^ s" "d * 2 ^ s < (v + 1) * 2 ^ 32"
    unfolding v_eq by (rule div_times_less_eq_dividend) (simp add: dividend_less_div_times)
  have "d1 * 2 ^ s * 2 ^ 32 \<le> d * 2 ^ s"
    unfolding d1_def using div_times_less_eq_dividend [of d "2 ^ 32"] by (simp add: mult.commute mult.left_commute)
  then have "d1 * 2 ^ s \<le> v" unfolding v_eq by (simp add: less_eq_div_iff_mult_less_eq)
  then show "2 ^ 31 \<le> v" using z(2) by simp
  have "v * 2 ^ t * 2 ^ s \<le> d * 2 ^ s" using vm(1) pt by (simp add: mult.commute mult.left_commute)
  then show le: "v * 2 ^ t \<le> d" by simp
  have "(v + 1) * 2 ^ 32 = (v + 1) * 2 ^ t * 2 ^ s" unfolding pt by (simp only: ac_simps)
  then have "d * 2 ^ s < (v + 1) * 2 ^ t * 2 ^ s" using vm(2) by (simp only:)
  then have "d < (v + 1) * 2 ^ t" by simp
  then show "d - v * 2 ^ t < 2 ^ t" using le by simp
qed

text \<open>The final correction turns an estimate that is at most one too large into the quotient.\<close>

lemma correct_estimate:
  assumes n: "n < 2 ^ 64" "d \<le> n" and d: "0 < d" and q: "q = n div d \<or> q = n div d + 1" "q < 2 ^ 64"
  shows "(if usub64 n (u64 (usub64 q 1 * d)) < d then usub64 q 1 else q) = n div d"
proof -
  define p where "p = n div d"
  have p: "1 \<le> p" "p * d \<le> n" "n < (p + 1) * d"
    using n d by (simp_all add: p_def less_eq_div_iff_mult_less_eq dividend_less_div_times)
  consider "q = p" | "q = p + 1" using q(1) by (auto simp: p_def)
  then have "(if usub64 n (u64 (usub64 q 1 * d)) < d then usub64 q 1 else q) = p"
  proof cases
    case 1
    have "(p - 1) * d \<le> n" using p(2) mult_le_mono1 [of "p - 1" p d] by (meson diff_le_self order_trans)
    moreover have "n - (p - 1) * d \<ge> d" using p by (simp add: diff_mult_distrib)
    moreover have "usub64 p 1 = p - 1" using p(1) q(2) 1 by (simp add: usub64_eq)
    ultimately show ?thesis using 1 n(1) by (simp add: u64_def usub64_eq)
  next
    case 2
    have "usub64 (p + 1) 1 = p" using q(2) 2 usub64_eq [of 1 "p + 1"] by simp
    moreover have "n - p * d < d" using p by (simp add: less_diff_conv2 add.commute)
    ultimately show ?thesis using 2 n(1) p(2) by (simp add: u64_def usub64_eq)
  qed
  then show ?thesis by (simp add: p_def)
qed

lemma udiv64_long:
  assumes n: "n < 2 ^ 64" "d \<le> n" and d: "2 ^ 32 \<le> d"
  shows "udiv64 n d = Some (n div d)"
proof -
  define s where "s = nlz (d div 2 ^ 32)"
  define t where "t = 32 - s"
  define v where "v = d * 2 ^ s div 2 ^ 32"
  define D where "D = v * 2 ^ t"
  have d64: "d < 2 ^ 64" using n by simp
  note nd = normalized_divisor [OF d d64, folded s_def t_def, folded v_def t_def, folded D_def]
  have D31: "2 ^ (31 + t) \<le> D" unfolding D_def power_add using nd(4) by simp
  then have D0: "0 < D" by (metis less_le_trans zero_less_numeral zero_less_power)
  note est = quotient_estimate [OF D0 nd(5) estimate_bound [OF n(1) nd(6,2) D31 nd(5)]]
  have "n div 2 < 2 ^ 32 * 2 ^ 31" using n(1) by (simp add: div_less_iff_less_mult)
  also have "\<dots> \<le> 2 ^ 32 * v" using nd(4) by (intro mult_le_mono2)
  finally have dl: "divl (n div 2) v = Some (n div 2 div v)"
    using nd(4) less_mult_imp_div_less [of "n div 2" "2 ^ 32" v] by (simp add: divl_def)
  have t1: "31 - s = t - 1" using nd(1) by (simp add: t_def)
  have "n div 2 div v div 2 ^ (31 - s) = n div (2 * v * 2 ^ (t - 1))" unfolding t1 by (simp add: div_mult2_eq)
  also have "2 * v * 2 ^ (t - 1) = D" using nd(2) by (cases t) (simp_all add: D_def)
  finally have qe: "n div 2 div v div 2 ^ (31 - s) = n div D" .
  have q64: "n div D < 2 ^ 64" using n(1) div_le_dividend le_less_trans by blast
  have fin: "(if usub64 n (u64 (usub64 (n div D) 1 * d)) < d then usub64 (n div D) 1 else n div D) = n div d"
  proof (rule correct_estimate [OF n _ _ q64])
    show "0 < d" using d by (metis less_le_trans zero_less_numeral zero_less_power)
    show "n div D = n div d \<or> n div D = n div d + 1" using est by linarith
  qed
  have "d div 2 ^ 32 \<noteq> 0" "d div 2 ^ 32 mod 2 ^ 32 = d div 2 ^ 32"
    using d d64 by (simp_all add: div_eq_0_iff div_less_iff_less_mult)
  moreover have "u64 (d * 2 ^ s) div 2 ^ 32 = v" using nd(3) by (simp add: u64_def v_def)
  moreover have "nlz (d div 4294967296) = s" by (simp add: s_def)
  ultimately show ?thesis
    using n(2) dl fin unfolding udiv64_def Let_def by (simp add: qe cong: if_cong)
qed

lemma udiv64_is_div:
  assumes "n < 2 ^ 64" "d < 2 ^ 64" "0 < d"
  shows "udiv64 n d = Some (n div d)"
proof (cases "d < 2 ^ 32")
  case True
  then show ?thesis using assms udiv64_short by simp
next
  case False
  show ?thesis
  proof (cases "n < d")
    case True
    then show ?thesis using False by (simp add: udiv64_def div_eq_0_iff)
  qed (use False assms udiv64_long in simp)
qed

lemma umod64_truncates:
  assumes "n < 2 ^ 64" "d < 2 ^ 64" "0 < d"
  shows "umod64 n d = Some (usz (n mod d))"
proof -
  have le: "d * (n div d) \<le> n" by simp
  then have "u64 (d * (n div d)) = d * (n div d)" unfolding u64_def using assms(1) by (intro mod_less) (rule order_le_less_trans)
  then have "usub64 n (u64 (d * (n div d))) = n mod d" using usub64_eq [OF le assms(1)] by (simp add: minus_mult_div_eq_mod)
  then show ?thesis using udiv64_is_div [OF assms] by (simp add: umod64_def)
qed

subsection \<open>Signed division\<close>

lemma uabs64_abs:
  assumes "- (2 ^ 63) \<le> n" "n < 2 ^ 63"
  shows "uabs64 n = nat \<bar>n\<bar>" "uabs64 n < 2 ^ 64"
proof -
  have "usub64 0 (nat (n mod 2 ^ 64)) = nat (- n)" if "n < 0"
  proof -
    have m: "n mod 2 ^ 64 = n + 2 ^ 64"
      using that assms(1) mod_add_self2 [of n "2 ^ 64"] mod_pos_pos_trivial [of "n + 2 ^ 64" "2 ^ 64"] by simp
    have "nat (n mod 2 ^ 64) mod 2 ^ 64 = nat (n + 2 ^ 64)" unfolding m using that assms(1) by (intro mod_less) simp
    moreover have "2 ^ 64 - nat (n + 2 ^ 64) = nat (- n)" using that assms(1) by simp
    ultimately have "usub64 0 (nat (n mod 2 ^ 64)) = nat (- n) mod 2 ^ 64" by (simp only: usub64_def add_0)
    also have "\<dots> = nat (- n)" using assms(1) by (intro mod_less) simp
    finally show ?thesis .
  qed
  then show a: "uabs64 n = nat \<bar>n\<bar>" by (simp add: uabs64_def)
  show "uabs64 n < 2 ^ 64" unfolding a using assms by simp
qed

lemma s64_mod: "s64 x mod 2 ^ 64 = x mod 2 ^ 64"
  unfolding s64_def by (metis add_diff_cancel_right' mod_diff_left_eq)

lemma s64_cong: "x mod 2 ^ 64 = y mod 2 ^ 64 \<Longrightarrow> s64 x = s64 y"
  unfolding s64_def by (metis mod_add_left_eq)

lemma s32_cong: "x mod 2 ^ 64 = y mod 2 ^ 64 \<Longrightarrow> s32 x = s32 y"
proof -
  assume "x mod 2 ^ 64 = y mod 2 ^ 64"
  then have "x mod 2 ^ 64 mod 2 ^ 32 = y mod 2 ^ 64 mod 2 ^ 32" by (rule arg_cong)
  moreover have "(2::int) ^ 32 dvd 2 ^ 64" by (rule le_imp_power_dvd) simp
  ultimately have "x mod 2 ^ 32 = y mod 2 ^ 32" by (simp only: mod_mod_cancel)
  then show ?thesis unfolding s32_def by (metis mod_add_left_eq)
qed

lemma s64_minus_s64: "s64 (- s64 x) = s64 (- x)"
  by (rule s64_cong) (metis s64_mod mod_minus_eq)

lemma sdiv64_is_sdiv:
  assumes "- (2 ^ 63) \<le> n" "n < 2 ^ 63" "- (2 ^ 63) \<le> d" "d < 2 ^ 63" "d \<noteq> 0"
  shows "sdiv64 n d = Some (s64 (n sdiv d))"
proof -
  note a = uabs64_abs [OF assms(1,2)] uabs64_abs [OF assms(3,4)]
  have "0 < uabs64 d" using a(3) assms(5) by simp
  then have "udiv64 (uabs64 n) (uabs64 d) = Some (nat (\<bar>n\<bar> div \<bar>d\<bar>))"
    using udiv64_is_div [OF a(2,4)] a(1,3) by (simp add: nat_div_distrib)
  moreover have "int (nat (\<bar>n\<bar> div \<bar>d\<bar>)) = \<bar>n\<bar> div \<bar>d\<bar>" by (simp add: div_int_pos_iff)
  moreover have "n sdiv d = (if (n < 0) = (d < 0) then \<bar>n\<bar> div \<bar>d\<bar> else - (\<bar>n\<bar> div \<bar>d\<bar>))"
    using assms(5) by (cases "n = 0") (auto simp: signed_divide_int_def sgn_if)
  ultimately show ?thesis by (simp add: sdiv64_def s64_minus_s64)
qed

lemma smod64_truncates:
  assumes "- (2 ^ 63) \<le> n" "n < 2 ^ 63" "- (2 ^ 63) \<le> d" "d < 2 ^ 63" "d \<noteq> 0"
  shows "smod64 n d = Some (s32 (n smod d))"
proof -
  have "s64 (d * s64 (n sdiv d)) mod 2 ^ 64 = d * (n sdiv d) mod 2 ^ 64" by (metis s64_mod mod_mult_right_eq)
  then have "s64 (n - s64 (d * s64 (n sdiv d))) mod 2 ^ 64 = (n - d * (n sdiv d)) mod 2 ^ 64"
    by (metis s64_mod mod_diff_right_eq)
  moreover have "n - d * (n sdiv d) = n smod d" by (rule minus_mult_sdiv_eq_smod)
  ultimately have "s32 (s64 (n - s64 (d * s64 (n sdiv d)))) = s32 (n smod d)" by (intro s32_cong) simp
  then show ?thesis by (simp add: smod64_def sdiv64_is_sdiv [OF assms])
qed

text \<open>
  C13. The four 64-bit division entry points on every pair of operands with a nonzero divisor: the quotients are the
  truncated quotients of the C language (the one that overflows, INT64_MIN / -1, wraps around), no divide error is
  raised, and the remainders are correct in their low 32 bits.
\<close>

theorem division_is_exact:
  assumes "n < 2 ^ 64" "d < 2 ^ 64" "0 < d"
    and "- (2 ^ 63) \<le> i" "i < 2 ^ 63" "- (2 ^ 63) \<le> j" "j < 2 ^ 63" "j \<noteq> 0"
  shows "udivdi3 n d = Some (n div d) \<and> umoddi3 n d = Some (n mod d mod 2 ^ 32)
    \<and> divdi3 i j = Some (s64 (i sdiv j)) \<and> moddi3 i j = Some (s32 (i smod j))"
proof (intro conjI)
  show "udivdi3 n d = Some (n div d)" unfolding udivdi3_def using assms(1-3) by (rule udiv64_is_div)
  show "umoddi3 n d = Some (n mod d mod 2 ^ 32)" unfolding umoddi3_def using umod64_truncates [OF assms(1-3)] by (simp add: usz_def)
  show "divdi3 i j = Some (s64 (i sdiv j))" unfolding divdi3_def using assms(4-) by (rule sdiv64_is_sdiv)
  show "moddi3 i j = Some (s32 (i smod j))" unfolding moddi3_def using assms(4-) by (rule smod64_truncates)
qed

theorem division_is_exact_witness:
  "udivdi3 18446744073709551615 8589934592 = Some 2147483647
    \<and> umoddi3 18446744073709551615 8589934592 = Some 4294967295
    \<and> divdi3 (- 9223372036854775808) (- 1) = Some (- 9223372036854775808) \<and> moddi3 (- 9223372036854775808) (- 1) = Some 0"
  using division_is_exact [of 18446744073709551615 8589934592 "- 9223372036854775808" "- 1"]
  by (simp add: signed_divide_int_def signed_modulo_int_def s64_def)

end
