(* ===== verification/Lib_String.thy ===== *)
theory Lib_String
  imports Pintos_Prelude "HOL-Library.Sublist"
begin

text \<open>
  The string functions of \<^verbatim>\<open>lib/string.c\<close> over a flat memory of bytes. A pointer is an address, \<open>NULL\<close> is
  zero. A function that writes returns the memory as well; the failure of an \<^verbatim>\<open>ASSERT\<close> is \<^term>\<open>None\<close>, and so is
  a scan that finds no terminator. The variable behind \<^verbatim>\<open>save_ptr\<close> of \<open>strtok_r\<close> is passed and returned by value.
  An \<^verbatim>\<open>int\<close> argument that the function converts to a \<^verbatim>\<open>char\<close> is an integer.

  \<open>cstr m p xs\<close> says that the null-terminated string \<open>xs\<close> is stored at \<open>p\<close>; the results are stated for it.
\<close>

type_synonym mem = "nat \<Rightarrow> byte"

subsection \<open>Blocks of memory\<close>

fun copy_up :: "mem \<Rightarrow> ptr \<Rightarrow> ptr \<Rightarrow> nat \<Rightarrow> mem \<times> ptr" where
  "copy_up m dst src 0 = (m, dst)"
| "copy_up m dst src (Suc sz) = copy_up (m(dst := m src)) (dst + 1) (src + 1) sz"

fun copy_down :: "mem \<Rightarrow> ptr \<Rightarrow> ptr \<Rightarrow> nat \<Rightarrow> mem \<times> ptr" where
  "copy_down m dst src 0 = (m, dst)"
| "copy_down m dst src (Suc sz) = copy_down (m(dst - 1 := m (src - 1))) (dst - 1) (src - 1) sz"

definition memcpy :: "mem \<Rightarrow> ptr \<Rightarrow> ptr \<Rightarrow> nat \<Rightarrow> (mem \<times> ptr) option" where
  "memcpy m dst0 src0 sz = do {
     ASSERT (dst0 \<noteq> NULL \<or> sz = 0);
     ASSERT (src0 \<noteq> NULL \<or> sz = 0);
     let (m, dst) = copy_up m dst0 src0 sz;
     Some (m, dst0) }"

definition memmove :: "mem \<Rightarrow> ptr \<Rightarrow> ptr \<Rightarrow> nat \<Rightarrow> (mem \<times> ptr) option" where
  "memmove m dst0 src0 sz = do {
     ASSERT (dst0 \<noteq> NULL \<or> sz = 0);
     ASSERT (src0 \<noteq> NULL \<or> sz = 0);
     let (m, dst) = (if dst0 < src0 then copy_up m dst0 src0 sz else copy_down m (dst0 + sz) (src0 + sz) sz);
     Some (m, dst) }"

fun memcmp_loop :: "mem \<Rightarrow> ptr \<Rightarrow> ptr \<Rightarrow> nat \<Rightarrow> int" where
  "memcmp_loop m a b 0 = 0"
| "memcmp_loop m a b (Suc sz) =
     (if m a \<noteq> m b then (if m a > m b then 1 else -1) else memcmp_loop m (a + 1) (b + 1) sz)"

definition memcmp :: "mem \<Rightarrow> ptr \<Rightarrow> ptr \<Rightarrow> nat \<Rightarrow> int option" where
  "memcmp m a b sz = do {
     ASSERT (a \<noteq> NULL \<or> sz = 0);
     ASSERT (b \<noteq> NULL \<or> sz = 0);
     Some (memcmp_loop m a b sz) }"

fun memchr_loop :: "mem \<Rightarrow> ptr \<Rightarrow> byte \<Rightarrow> nat \<Rightarrow> ptr" where
  "memchr_loop m block ch 0 = NULL"
| "memchr_loop m block ch (Suc sz) = (if m block = ch then block else memchr_loop m (block + 1) ch sz)"

definition memchr :: "mem \<Rightarrow> ptr \<Rightarrow> int \<Rightarrow> nat \<Rightarrow> ptr option" where
  "memchr m block ch sz = do {
     ASSERT (block \<noteq> NULL \<or> sz = 0);
     Some (memchr_loop m block (word_of_int ch) sz) }"

fun memset_loop :: "mem \<Rightarrow> ptr \<Rightarrow> byte \<Rightarrow> nat \<Rightarrow> mem" where
  "memset_loop m dst v 0 = m"
| "memset_loop m dst v (Suc sz) = memset_loop (m(dst := v)) (dst + 1) v sz"

definition memset :: "mem \<Rightarrow> ptr \<Rightarrow> int \<Rightarrow> nat \<Rightarrow> (mem \<times> ptr) option" where
  "memset m dst value sz = do {
     ASSERT (dst \<noteq> NULL \<or> sz = 0);
     Some (memset_loop m dst (word_of_int value) sz, dst) }"

subsection \<open>Strings\<close>

partial_function (option) strcmp_loop :: "mem \<Rightarrow> ptr \<Rightarrow> ptr \<Rightarrow> (ptr \<times> ptr) option" where
  "strcmp_loop m a b = (if m a \<noteq> 0 \<and> m a = m b then strcmp_loop m (a + 1) (b + 1) else Some (a, b))"

definition strcmp :: "mem \<Rightarrow> ptr \<Rightarrow> ptr \<Rightarrow> int option" where
  "strcmp m a b = do {
     ASSERT (a \<noteq> NULL);
     ASSERT (b \<noteq> NULL);
     (a, b) \<leftarrow> strcmp_loop m a b;
     Some (if m a < m b then -1 else if m a > m b then 1 else 0) }"

partial_function (option) strchr_loop :: "mem \<Rightarrow> ptr \<Rightarrow> byte \<Rightarrow> ptr option" where
  "strchr_loop m string c = (if m string = c then Some string else if m string = 0 then Some NULL else strchr_loop m (string + 1) c)"

definition strchr :: "mem \<Rightarrow> ptr \<Rightarrow> int \<Rightarrow> ptr option" where
  "strchr m string c = do { ASSERT (string \<noteq> NULL); strchr_loop m string (word_of_int c) }"

partial_function (option) strcspn_loop :: "mem \<Rightarrow> ptr \<Rightarrow> ptr \<Rightarrow> nat \<Rightarrow> nat option" where
  "strcspn_loop m string stop len =
     (if m (string + len) \<noteq> 0
      then do { r \<leftarrow> strchr m stop (sint (m (string + len)));
                if r \<noteq> NULL then Some len else strcspn_loop m string stop (len + 1) }
      else Some len)"

definition strcspn :: "mem \<Rightarrow> ptr \<Rightarrow> ptr \<Rightarrow> nat option" where
  "strcspn m string stop = strcspn_loop m string stop 0"

partial_function (option) strpbrk :: "mem \<Rightarrow> ptr \<Rightarrow> ptr \<Rightarrow> ptr option" where
  "strpbrk m string stop =
     (if m string \<noteq> 0
      then do { r \<leftarrow> strchr m stop (sint (m string)); if r \<noteq> NULL then Some string else strpbrk m (string + 1) stop }
      else Some NULL)"

partial_function (option) strrchr_loop :: "mem \<Rightarrow> ptr \<Rightarrow> byte \<Rightarrow> ptr \<Rightarrow> ptr option" where
  "strrchr_loop m string c p =
     (if m string \<noteq> 0 then strrchr_loop m (string + 1) c (if m string = c then string else p) else Some p)"

definition strrchr :: "mem \<Rightarrow> ptr \<Rightarrow> int \<Rightarrow> ptr option" where
  "strrchr m string c = strrchr_loop m string (word_of_int c) NULL"

partial_function (option) strspn_loop :: "mem \<Rightarrow> ptr \<Rightarrow> ptr \<Rightarrow> nat \<Rightarrow> nat option" where
  "strspn_loop m string skip len =
     (if m (string + len) \<noteq> 0
      then do { r \<leftarrow> strchr m skip (sint (m (string + len)));
                if r = NULL then Some len else strspn_loop m string skip (len + 1) }
      else Some len)"

definition strspn :: "mem \<Rightarrow> ptr \<Rightarrow> ptr \<Rightarrow> nat option" where
  "strspn m string skip = strspn_loop m string skip 0"

partial_function (option) strlen_loop :: "mem \<Rightarrow> ptr \<Rightarrow> ptr option" where
  "strlen_loop m p = (if m p \<noteq> 0 then strlen_loop m (p + 1) else Some p)"

definition strlen :: "mem \<Rightarrow> ptr \<Rightarrow> nat option" where
  "strlen m string = do { ASSERT (string \<noteq> NULL); p \<leftarrow> strlen_loop m string; Some (p - string) }"

text \<open>The loop of \<open>strstr\<close> over the positions \<open>i\<close>, \<open>n\<close> of which are left.\<close>

fun strstr_loop :: "mem \<Rightarrow> ptr \<Rightarrow> ptr \<Rightarrow> nat \<Rightarrow> nat \<Rightarrow> nat \<Rightarrow> ptr option" where
  "strstr_loop m haystack needle needle_len i 0 = Some NULL"
| "strstr_loop m haystack needle needle_len i (Suc n) = do {
     r \<leftarrow> memcmp m (haystack + i) needle needle_len;
     if r = 0 then Some (haystack + i) else strstr_loop m haystack needle needle_len (i + 1) n }"

definition strstr :: "mem \<Rightarrow> ptr \<Rightarrow> ptr \<Rightarrow> ptr option" where
  "strstr m haystack needle = do {
     haystack_len \<leftarrow> strlen m haystack;
     needle_len \<leftarrow> strlen m needle;
     if haystack_len \<ge> needle_len
     then strstr_loop m haystack needle needle_len 0 (haystack_len - needle_len + 1)
     else Some NULL }"

text \<open>The first loop of \<open>strtok_r\<close> gives the start of the token, or nothing at the end of the string.\<close>

partial_function (option) skip_delimiters :: "mem \<Rightarrow> ptr \<Rightarrow> ptr \<Rightarrow> (ptr \<times> bool) option" where
  "skip_delimiters m delimiters s = do {
     r \<leftarrow> strchr m delimiters (sint (m s));
     if r \<noteq> NULL then (if m s = 0 then Some (s, False) else skip_delimiters m delimiters (s + 1))
     else Some (s, True) }"

partial_function (option) skip_token :: "mem \<Rightarrow> ptr \<Rightarrow> ptr \<Rightarrow> ptr option" where
  "skip_token m delimiters s = do {
     r \<leftarrow> strchr m delimiters (sint (m s));
     if r = NULL then skip_token m delimiters (s + 1) else Some s }"

definition strtok_r :: "mem \<Rightarrow> ptr \<Rightarrow> ptr \<Rightarrow> ptr \<Rightarrow> (mem \<times> ptr \<times> ptr) option" where
  "strtok_r m s delimiters save = do {
     ASSERT (delimiters \<noteq> NULL);
     let s = (if s = NULL then save else s);
     ASSERT (s \<noteq> NULL);
     (token, found) \<leftarrow> skip_delimiters m delimiters s;
     if \<not> found then Some (m, NULL, token)
     else do {
       s \<leftarrow> skip_token m delimiters token;
       if m s \<noteq> 0 then Some (m(s := 0), token, s + 1) else Some (m, token, s) } }"

text \<open>The loop of \<open>strnlen\<close>; \<open>n\<close> is what \<open>maxlen\<close> leaves. The character is read before the bound is checked.\<close>

fun strnlen_loop :: "mem \<Rightarrow> ptr \<Rightarrow> nat \<Rightarrow> nat \<Rightarrow> nat" where
  "strnlen_loop m string len 0 = len"
| "strnlen_loop m string len (Suc n) = (if m (string + len) \<noteq> 0 then strnlen_loop m string (len + 1) n else len)"

definition strnlen :: "mem \<Rightarrow> ptr \<Rightarrow> nat \<Rightarrow> nat" where
  "strnlen m string maxlen = strnlen_loop m string 0 maxlen"

definition strlcpy :: "mem \<Rightarrow> ptr \<Rightarrow> ptr \<Rightarrow> nat \<Rightarrow> (mem \<times> nat) option" where
  "strlcpy m dst src sz = do {
     ASSERT (dst \<noteq> NULL);
     ASSERT (src \<noteq> NULL);
     src_len \<leftarrow> strlen m src;
     if sz > 0 then do {
       let dst_len = sz - 1;
       let dst_len = (if src_len < dst_len then src_len else dst_len);
       (m, _) \<leftarrow> memcpy m dst src dst_len;
       Some (m(dst + dst_len := 0), src_len) }
     else Some (m, src_len) }"

definition strlcat :: "mem \<Rightarrow> ptr \<Rightarrow> ptr \<Rightarrow> nat \<Rightarrow> (mem \<times> nat) option" where
  "strlcat m dst src sz = do {
     ASSERT (dst \<noteq> NULL);
     ASSERT (src \<noteq> NULL);
     src_len \<leftarrow> strlen m src;
     dst_len \<leftarrow> strlen m dst;
     if sz > 0 \<and> dst_len < sz then do {
       let copy_cnt = sz - dst_len - 1;
       let copy_cnt = (if src_len < copy_cnt then src_len else copy_cnt);
       (m, _) \<leftarrow> memcpy m (dst + dst_len) src copy_cnt;
       Some (m(dst + dst_len + copy_cnt := 0), src_len + dst_len) }
     else Some (m, src_len + dst_len) }"

subsection \<open>Copying\<close>

text \<open>\<open>blit m dst src n\<close> is the memory in which the \<open>n\<close> bytes at \<open>dst\<close> are those the memory \<open>m\<close> has at \<open>src\<close>.\<close>

definition blit :: "mem \<Rightarrow> ptr \<Rightarrow> ptr \<Rightarrow> nat \<Rightarrow> mem" where
  "blit m dst src n = (\<lambda>p. if dst \<le> p \<and> p < dst + n then m (src + (p - dst)) else m p)"

lemma copy_up_blit: "dst \<le> src \<or> src + n \<le> dst \<Longrightarrow> copy_up m dst src n = (blit m dst src n, dst + n)"
proof (induction n arbitrary: m dst src)
  case (Suc n)
  have "blit (m(dst := m src)) (dst + 1) (src + 1) n = blit m dst src (Suc n)"
  proof
    fix p
    show "blit (m(dst := m src)) (dst + 1) (src + 1) n p = blit m dst src (Suc n) p"
    proof (cases "dst < p")
      case True
      then obtain k where "p = Suc (dst + k)" using less_imp_Suc_add by blast
      then show ?thesis using Suc.prems by (auto simp: blit_def)
    qed (auto simp: blit_def)
  qed
  moreover have "dst + 1 \<le> src + 1 \<or> src + 1 + n \<le> dst + 1" using Suc.prems by auto
  ultimately show ?case using Suc.IH by (simp del: fun_upd_apply)
qed (auto simp: blit_def fun_eq_iff)

lemma copy_down_blit: "src \<le> dst \<Longrightarrow> copy_down m (dst + n) (src + n) n = (blit m dst src n, dst)"
proof (induction n arbitrary: m)
  case (Suc n)
  have "blit (m(dst + n := m (src + n))) dst src n = blit m dst src (Suc n)"
  proof
    fix p
    show "blit (m(dst + n := m (src + n))) dst src n p = blit m dst src (Suc n) p"
      using Suc.prems by (cases "p = dst + n") (auto simp: blit_def)
  qed
  then show ?case using Suc by simp
qed (auto simp: blit_def fun_eq_iff)

text \<open>
  C24. \<open>memmove\<close> copies the block as it was before the call even when source and destination overlap, and
  changes no other byte. The pointer it returns is \<open>DST\<close> only when it copied downwards; when \<open>DST\<close> is below
  \<open>SRC\<close> the pointer returned is the end of the destination.
\<close>

theorem memmove_correct:
  assumes "dst \<noteq> NULL" "src \<noteq> NULL"
  shows "memmove m dst src n = Some (blit m dst src n, if dst < src then dst + n else dst)"
  using assms by (auto simp: memmove_def copy_up_blit copy_down_blit)

theorem memmove_correct_witness:
  "memmove (\<lambda>p. of_nat p) 10 12 4 = Some (blit (\<lambda>p. of_nat p) 10 12 4, 14)"
  using memmove_correct [of 10 12 "\<lambda>p. of_nat p" 4] by simp

lemma memcpy_blit:
  assumes "dst \<noteq> NULL" "src \<noteq> NULL" "dst \<le> src \<or> src + n \<le> dst"
  shows "memcpy m dst src n = Some (blit m dst src n, dst)"
  using assms by (auto simp: memcpy_def copy_up_blit)

lemma blit_outside: "p < dst \<or> dst + n \<le> p \<Longrightarrow> blit m dst src n p = m p"
  by (auto simp: blit_def)

subsection \<open>Null-terminated strings\<close>

primrec cstr :: "mem \<Rightarrow> ptr \<Rightarrow> byte list \<Rightarrow> bool" where
  "cstr m p [] = (m p = 0)"
| "cstr m p (x # xs) = (x \<noteq> 0 \<and> m p = x \<and> cstr m (p + 1) xs)"

lemma cstr_append: "cstr m p (xs @ ys) \<Longrightarrow> cstr m (p + length xs) ys"
  by (induction xs arbitrary: p) (auto simp: add.assoc [symmetric], metis add_Suc)

lemma cstr_nonzero: "cstr m p xs \<Longrightarrow> x \<in> set xs \<Longrightarrow> x \<noteq> 0"
  by (induction xs arbitrary: p) auto

lemma cstr_nth: "cstr m p xs \<Longrightarrow> i < length xs \<Longrightarrow> m (p + i) = xs ! i"
proof (induction xs arbitrary: p i)
  case (Cons x xs)
  then show ?case by (cases i) (auto, metis add_Suc)
qed simp

lemma cstr_end: "cstr m p xs \<Longrightarrow> m (p + length xs) = 0"
  using cstr_append [of m p xs "[]"] by simp

lemma cstrI:
  assumes "\<And>i. i < length xs \<Longrightarrow> m (p + i) = xs ! i" "m (p + length xs) = 0" "0 \<notin> set xs"
  shows "cstr m p xs"
  using assms
proof (induction xs arbitrary: p)
  case (Cons x xs)
  have "m (p + 1 + i) = xs ! i" if "i < length xs" for i using Cons.prems(1) [of "Suc i"] that by simp
  then have "cstr m (p + 1) xs" using Cons.IH [of "p + 1"] Cons.prems(2,3) by simp
  then show ?case using Cons.prems(1) [of 0] Cons.prems(3) by auto
qed simp

lemma cstr_cong: "(\<And>q. p \<le> q \<Longrightarrow> q \<le> p + length xs \<Longrightarrow> m' q = m q) \<Longrightarrow> cstr m' p xs = cstr m p xs"
  by (induction xs arbitrary: p) auto

lemma cstr_upd: "q < p \<or> p + length xs < q \<Longrightarrow> cstr (m(q := v)) p xs = cstr m p xs"
  by (rule cstr_cong) auto

lemma cstr_cut: "cstr m p (xs @ ys) \<Longrightarrow> cstr (m(p + length xs := 0)) p xs"
proof (rule cstrI)
  assume a: "cstr m p (xs @ ys)"
  show "0 \<notin> set xs" using cstr_nonzero [OF a] by auto
  show "(m(p + length xs := 0)) (p + i) = xs ! i" if "i < length xs" for i
    using cstr_nth [OF a, of i] that by (simp add: nth_append)
qed simp

lemma strlen_loop_cstr: "cstr m p xs \<Longrightarrow> strlen_loop m p = Some (p + length xs)"
  by (induction xs arbitrary: p) (subst strlen_loop.simps; auto)+

lemma strlen_cstr: "cstr m p xs \<Longrightarrow> p \<noteq> NULL \<Longrightarrow> strlen m p = Some (length xs)"
  by (simp add: strlen_def strlen_loop_cstr)

lemma strchr_loop_cstr:
  "cstr m p xs \<Longrightarrow> strchr_loop m p c =
     Some (if c = 0 \<or> c \<in> set xs then p + length (takeWhile (\<lambda>x. x \<noteq> c) xs) else NULL)"
proof (induction xs arbitrary: p)
  case Nil
  then show ?case by (subst strchr_loop.simps) auto
next
  case (Cons x xs)
  then show ?case by (subst strchr_loop.simps) auto
qed

lemma strchr_member:
  assumes "cstr m d ds" "d \<noteq> NULL"
  obtains r where "strchr m d (sint w) = Some r" "r = NULL \<longleftrightarrow> w \<noteq> 0 \<and> w \<notin> set ds"
  using assms by (auto simp: strchr_def strchr_loop_cstr [OF assms(1)])

subsection \<open>Tokens\<close>

lemma skip_delimiters_cstr:
  assumes d: "cstr m d ds" "d \<noteq> NULL"
  shows "cstr m s xs \<Longrightarrow> skip_delimiters m d s =
    Some (s + length (takeWhile (\<lambda>x. x \<in> set ds) xs), dropWhile (\<lambda>x. x \<in> set ds) xs \<noteq> [])"
proof (induction xs arbitrary: s)
  case Nil
  obtain r where r: "strchr m d (sint (m s)) = Some r" "r = NULL \<longleftrightarrow> m s \<noteq> 0 \<and> m s \<notin> set ds" by (rule strchr_member [OF d])
  then show ?case using Nil by (subst skip_delimiters.simps) auto
next
  case (Cons x xs)
  obtain r where r: "strchr m d (sint (m s)) = Some r" "r = NULL \<longleftrightarrow> m s \<noteq> 0 \<and> m s \<notin> set ds" by (rule strchr_member [OF d])
  then show ?case using Cons by (subst skip_delimiters.simps) auto
qed

lemma skip_token_cstr:
  assumes d: "cstr m d ds" "d \<noteq> NULL"
  shows "cstr m s xs \<Longrightarrow> skip_token m d s = Some (s + length (takeWhile (\<lambda>x. x \<notin> set ds) xs))"
proof (induction xs arbitrary: s)
  case Nil
  obtain r where r: "strchr m d (sint (m s)) = Some r" "r = NULL \<longleftrightarrow> m s \<noteq> 0 \<and> m s \<notin> set ds" by (rule strchr_member [OF d])
  then show ?case using Nil by (subst skip_token.simps) auto
next
  case (Cons x xs)
  obtain r where r: "strchr m d (sint (m s)) = Some r" "r = NULL \<longleftrightarrow> m s \<noteq> 0 \<and> m s \<notin> set ds" by (rule strchr_member [OF d])
  then show ?case using Cons by (subst skip_token.simps) auto
qed

text \<open>One call of \<open>strtok_r\<close> on the string \<open>skip @ token @ rest\<close>.\<close>

lemma strtok_r_token:
  assumes d: "cstr m d ds" "d \<noteq> NULL" and s: "cstr m s xs" "s \<noteq> NULL"
    and xs: "xs = sk @ t @ r" "set sk \<subseteq> set ds" "t \<noteq> []" "set t \<inter> set ds = {}" "r = [] \<or> hd r \<in> set ds"
  shows "strtok_r m s d save = Some (if r = [] then m else m(s + length sk + length t := 0),
    s + length sk, s + length sk + length t + (if r = [] then 0 else 1))"
    "strtok_r m NULL d s = strtok_r m s d save"
proof -
  let ?q = "s + length sk"
  have tk: "takeWhile (\<lambda>x. x \<in> set ds) xs = sk" "dropWhile (\<lambda>x. x \<in> set ds) xs = t @ r"
    using xs(2-4) unfolding xs(1) by (cases t; auto simp: subset_iff)+
  have tr: "takeWhile (\<lambda>x. x \<notin> set ds) (t @ r) = t"
    using xs(4,5) by (cases r) (auto simp: takeWhile_append takeWhile_eq_all_conv)
  have q: "cstr m ?q (t @ r)" using cstr_append [of m s sk "t @ r"] s(1) xs(1) by simp
  then have r: "cstr m (?q + length t) r" by (rule cstr_append)
  have e: "m (?q + length t) = 0 \<longleftrightarrow> r = []" using r by (cases r) auto
  note sd = skip_delimiters_cstr [OF d s(1), unfolded tk] and st = skip_token_cstr [OF d q, unfolded tr]
  show "strtok_r m s d save = Some (if r = [] then m else m(s + length sk + length t := 0),
    s + length sk, s + length sk + length t + (if r = [] then 0 else 1))"
    using d(2) s(2) xs(3) by (simp add: strtok_r_def sd st e)
  show "strtok_r m NULL d s = strtok_r m s d save" using s(2) by (simp add: strtok_r_def)
qed

lemma strtok_r_none:
  assumes d: "cstr m d ds" "d \<noteq> NULL" and s: "cstr m s xs" "s \<noteq> NULL" and xs: "set xs \<subseteq> set ds"
  shows "strtok_r m s d save = Some (m, NULL, s + length xs)" "strtok_r m NULL d s = strtok_r m s d save"
proof -
  have "dropWhile (\<lambda>x. x \<in> set ds) xs = []" "takeWhile (\<lambda>x. x \<in> set ds) xs = xs"
    using xs by (auto simp: subset_iff takeWhile_eq_all_conv)
  then show "strtok_r m s d save = Some (m, NULL, s + length xs)"
    using skip_delimiters_cstr [OF d s(1)] d(2) s(2) by (simp only: strtok_r_def) simp
  show "strtok_r m NULL d s = strtok_r m s d save" using s(2) by (simp add: strtok_r_def)
qed

subsection \<open>Comparing and searching\<close>

text \<open>The lexicographic comparison of two strings.\<close>

fun compare :: "byte list \<Rightarrow> byte list \<Rightarrow> int" where
  "compare [] [] = 0"
| "compare [] (y # ys) = -1"
| "compare (x # xs) [] = 1"
| "compare (x # xs) (y # ys) = (if x = y then compare xs ys else if x < y then -1 else 1)"

lemma compare_eq_0: "compare xs ys = 0 \<longleftrightarrow> xs = ys"
  by (induction xs ys rule: compare.induct) auto

lemma strcmp_loop_cstr:
  "cstr m a xs \<Longrightarrow> cstr m b ys \<Longrightarrow> \<exists>a' b'. strcmp_loop m a b = Some (a', b') \<and>
     compare xs ys = (if m a' < m b' then -1 else if m a' > m b' then 1 else 0)"
proof (induction xs ys arbitrary: a b rule: compare.induct)
  case (2 y ys)
  then show ?case by (subst strcmp_loop.simps) (auto simp: word_gt_0)
next
  case (3 x xs)
  then show ?case by (subst strcmp_loop.simps) (auto simp: word_gt_0)
qed (subst strcmp_loop.simps; auto)+

text \<open>
  C26. \<open>strcmp\<close> returns the lexicographic comparison of the two strings by unsigned bytes, and in particular
  zero exactly for equal strings.
\<close>

theorem strcmp_lexicographic:
  assumes "cstr m a xs" "cstr m b ys" "a \<noteq> NULL" "b \<noteq> NULL"
  shows "strcmp m a b = Some (compare xs ys) \<and> (strcmp m a b = Some 0 \<longleftrightarrow> xs = ys)"
proof -
  obtain a' b' where "strcmp_loop m a b = Some (a', b')"
    "compare xs ys = (if m a' < m b' then -1 else if m a' > m b' then 1 else 0)"
    using strcmp_loop_cstr [OF assms(1,2)] by blast
  then have "strcmp m a b = Some (compare xs ys)" using assms(3,4) by (simp add: strcmp_def)
  then show ?thesis by (simp add: compare_eq_0)
qed

theorem strcmp_lexicographic_witness:
  "strcmp ((\<lambda>_. 0)(10 := 97, 11 := 98, 20 := 97, 21 := 200)) 10 20 = Some (-1)"
  using strcmp_lexicographic [of "(\<lambda>_. 0)(10 := 97, 11 := 98, 20 := 97, 21 := 200)" 10 "[97, 98]" 20 "[97, 200]"] by simp

lemma memcmp_loop_0: "memcmp_loop m a b n = 0 \<longleftrightarrow> (\<forall>i<n. m (a + i) = m (b + i))"
proof (induction n arbitrary: a b)
  case (Suc n)
  have "(\<forall>i<Suc n. m (a + i) = m (b + i)) \<longleftrightarrow> m a = m b \<and> (\<forall>i<n. m (a + 1 + i) = m (b + 1 + i))"
    by (auto simp: less_Suc_eq_0_disj)
  then show ?case using Suc [of "a + 1" "b + 1"] by (simp del: add_Suc_shift)
qed simp

lemma memcmp_prefix:
  assumes h: "cstr m a hs" and n: "cstr m b ns" "length ns \<le> length hs"
  shows "memcmp_loop m a b (length ns) = 0 \<longleftrightarrow> prefix ns hs"
proof -
  have "(\<forall>i<length ns. m (a + i) = m (b + i)) \<longleftrightarrow> (\<forall>i<length ns. hs ! i = ns ! i)"
    using cstr_nth [OF h] cstr_nth [OF n(1)] n(2) by auto
  also have "\<dots> \<longleftrightarrow> take (length ns) hs = ns" using n(2) by (auto simp: list_eq_iff_nth_eq)
  also have "\<dots> \<longleftrightarrow> prefix ns hs" using n(2) by (metis prefix_def append_eq_conv_conj take_is_prefix)
  finally show ?thesis by (simp add: memcmp_loop_0)
qed

lemma strstr_loop_search:
  assumes h: "cstr m h hs" "h \<noteq> NULL" and n: "cstr m b ns" "b \<noteq> NULL"
  shows "i + k \<le> length hs - length ns + 1 \<Longrightarrow> length ns \<le> length hs \<Longrightarrow>
    \<exists>r. strstr_loop m h b (length ns) i k = Some r \<and>
      (r = NULL \<and> (\<forall>j. i \<le> j \<and> j < i + k \<longrightarrow> \<not> prefix ns (drop j hs)) \<or>
       (\<exists>j. i \<le> j \<and> j < i + k \<and> r = h + j \<and> prefix ns (drop j hs) \<and> (\<forall>j'. i \<le> j' \<and> j' < j \<longrightarrow> \<not> prefix ns (drop j' hs))))"
proof (induction k arbitrary: i)
  case (Suc k)
  have "cstr m (h + i) (drop i hs)" using cstr_append [of m h "take i hs" "drop i hs"] h(1) Suc.prems by simp
  then have c: "memcmp m (h + i) b (length ns) = Some 0 \<longleftrightarrow> prefix ns (drop i hs)"
    using memcmp_prefix [of m "h + i" "drop i hs" b ns] n Suc.prems h(2) by (simp add: memcmp_def)
  obtain x where x: "memcmp m (h + i) b (length ns) = Some x" using h(2) n(2) by (simp add: memcmp_def)
  show ?case
  proof (cases "prefix ns (drop i hs)")
    case True
    then show ?thesis using c by (intro exI [of _ "h + i"]) (auto intro!: exI [of _ i])
  next
    case False
    then have "x \<noteq> 0" using c x by auto
    moreover obtain r where "strstr_loop m h b (length ns) (i + 1) k = Some r"
      "r = NULL \<and> (\<forall>j. i + 1 \<le> j \<and> j < i + 1 + k \<longrightarrow> \<not> prefix ns (drop j hs)) \<or>
       (\<exists>j. i + 1 \<le> j \<and> j < i + 1 + k \<and> r = h + j \<and> prefix ns (drop j hs) \<and> (\<forall>j'. i + 1 \<le> j' \<and> j' < j \<longrightarrow> \<not> prefix ns (drop j' hs)))"
      using Suc.IH [of "i + 1"] Suc.prems by auto
    ultimately show ?thesis using x False by (auto simp: Suc_le_eq) (metis le_neq_implies_less)+
  qed
qed auto

lemma prefix_drop_bound: "prefix ns (drop j hs) \<Longrightarrow> j \<le> length hs \<Longrightarrow> j + length ns \<le> length hs"
  using prefix_length_le by fastforce

text \<open>
  C23. \<open>strstr\<close> returns a pointer to the first occurrence of the needle, and a null pointer exactly when the
  needle does not occur in the haystack.
\<close>

theorem strstr_first_occurrence:
  assumes "cstr m h hs" "h \<noteq> NULL" "cstr m b ns" "b \<noteq> NULL"
  shows "\<exists>r. strstr m h b = Some r \<and> (r = NULL \<longleftrightarrow> \<not> sublist ns hs) \<and>
    (r \<noteq> NULL \<longrightarrow> (\<exists>j \<le> length hs. r = h + j \<and> prefix ns (drop j hs) \<and> (\<forall>j'<j. \<not> prefix ns (drop j' hs))))"
proof (cases "length ns \<le> length hs")
  case True
  have occ: "sublist ns hs \<longleftrightarrow> (\<exists>j \<le> length hs - length ns. prefix ns (drop j hs))"
  proof
    assume "sublist ns hs"
    then obtain ps ss where "hs = ps @ ns @ ss" by (auto simp: sublist_def)
    then show "\<exists>j \<le> length hs - length ns. prefix ns (drop j hs)" by (intro exI [of _ "length ps"]) auto
  next
    assume "\<exists>j \<le> length hs - length ns. prefix ns (drop j hs)"
    then show "sublist ns hs" by (meson prefix_imp_sublist sublist_drop sublist_order.order_trans)
  qed
  obtain r where "strstr_loop m h b (length ns) 0 (length hs - length ns + 1) = Some r"
    "r = NULL \<and> (\<forall>j. j < length hs - length ns + 1 \<longrightarrow> \<not> prefix ns (drop j hs)) \<or>
      (\<exists>j. j < length hs - length ns + 1 \<and> r = h + j \<and> prefix ns (drop j hs) \<and> (\<forall>j'<j. \<not> prefix ns (drop j' hs)))"
    using strstr_loop_search [OF assms, of 0 "length hs - length ns + 1"] True by auto
  moreover have "strstr m h b = strstr_loop m h b (length ns) 0 (length hs - length ns + 1)"
    using True by (simp add: strstr_def strlen_cstr [OF assms(1,2)] strlen_cstr [OF assms(3,4)])
  ultimately have r: "strstr m h b = Some r"
    "r = NULL \<and> \<not> sublist ns hs \<or>
      (\<exists>j. j \<le> length hs - length ns \<and> r = h + j \<and> prefix ns (drop j hs) \<and> (\<forall>j'<j. \<not> prefix ns (drop j' hs)))"
    by (simp_all add: occ less_Suc_eq_le)
  show ?thesis
  proof (rule exI [of _ r], intro conjI impI)
    show "r = NULL \<longleftrightarrow> \<not> sublist ns hs" using r(2) assms(2) by (auto simp: occ)
    assume "r \<noteq> NULL"
    then obtain j where j: "j \<le> length hs - length ns" "r = h + j" "prefix ns (drop j hs)" "\<forall>j'<j. \<not> prefix ns (drop j' hs)"
      using r(2) by auto
    then show "\<exists>j \<le> length hs. r = h + j \<and> prefix ns (drop j hs) \<and> (\<forall>j'<j. \<not> prefix ns (drop j' hs))"
      by (intro exI [of _ j]) simp
  qed (rule r(1))
next
  case False
  then have "\<not> sublist ns hs" by (meson sublist_length_le)
  then show ?thesis using False by (simp add: strstr_def strlen_cstr [OF assms(1,2)] strlen_cstr [OF assms(3,4)])
qed

theorem strstr_first_occurrence_witness:
  "\<exists>r. strstr ((\<lambda>_. 0)(10 := 97, 11 := 98, 12 := 99, 20 := 98)) 10 20 = Some r \<and> r \<noteq> NULL"
proof -
  have "sublist [98 :: byte] [97, 98, 99]" unfolding sublist_def by (rule exI [of _ "[97]"]) simp
  then show ?thesis
    using strstr_first_occurrence [of "(\<lambda>_. 0)(10 := 97, 11 := 98, 12 := 99, 20 := 98)" 10 "[97, 98, 99]" 20 "[98]"] by auto
qed

subsection \<open>Bounded copies\<close>

lemma strlcpy_cstr:
  assumes "cstr m src xs" "src \<noteq> NULL" "dst \<noteq> NULL" "0 < n" "src + length xs < dst \<or> dst + n \<le> src"
  obtains m' where "strlcpy m dst src n = Some (m', length xs)" "cstr m' dst (take (n - 1) xs)"
    "\<And>p. p < dst \<or> dst + n \<le> p \<Longrightarrow> m' p = m p"
proof -
  let ?k = "min (length xs) (n - 1)"
  define m' where "m' = (blit m dst src ?k)(dst + ?k := 0)"
  have "memcpy m dst src ?k = Some (blit m dst src ?k, dst)" using assms by (intro memcpy_blit) auto
  then have "strlcpy m dst src n = Some (m', length xs)"
    using assms(2-4) by (auto simp: strlcpy_def strlen_cstr [OF assms(1,2)] m'_def min_def Let_def)
  moreover have "cstr m' dst (take (n - 1) xs)"
  proof (rule cstrI)
    show "0 \<notin> set (take (n - 1) xs)" using cstr_nonzero [OF assms(1)] by (metis in_set_takeD)
    show "m' (dst + i) = take (n - 1) xs ! i" if "i < length (take (n - 1) xs)" for i
      using that cstr_nth [OF assms(1), of i] by (auto simp: m'_def blit_def)
  qed (simp add: m'_def)
  moreover have "m' p = m p" if "p < dst \<or> dst + n \<le> p" for p using that assms(4) by (auto simp: m'_def blit_def)
  ultimately show ?thesis using that by blast
qed

lemma strlcat_cstr:
  assumes "cstr m src xs" "src \<noteq> NULL" "cstr m dst ys" "dst \<noteq> NULL" "length ys < n"
    and "src + length xs < dst \<or> dst + n \<le> src"
  obtains m' where "strlcat m dst src n = Some (m', length xs + length ys)" "cstr m' dst (take (n - 1) (ys @ xs))"
    "\<And>p. p < dst \<or> dst + n \<le> p \<Longrightarrow> m' p = m p"
proof -
  let ?k = "min (length xs) (n - length ys - 1)" and ?e = "dst + length ys"
  define m' where "m' = (blit m ?e src ?k)(?e + ?k := 0)"
  have "memcpy m ?e src ?k = Some (blit m ?e src ?k, ?e)" using assms by (intro memcpy_blit) auto
  then have "strlcat m dst src n = Some (m', length xs + length ys)"
    using assms(2,4,5) by (auto simp: strlcat_def strlen_cstr [OF assms(1,2)] strlen_cstr [OF assms(3,4)] m'_def min_def Let_def)
  moreover have "cstr m' dst (take (n - 1) (ys @ xs))"
  proof (rule cstrI)
    show "0 \<notin> set (take (n - 1) (ys @ xs))"
      using cstr_nonzero [OF assms(1)] cstr_nonzero [OF assms(3)] by (metis Un_iff in_set_takeD set_append)
    show "m' (dst + i) = take (n - 1) (ys @ xs) ! i" if i: "i < length (take (n - 1) (ys @ xs))" for i
    proof (cases "i < length ys")
      case True
      then show ?thesis using i cstr_nth [OF assms(3) True] by (simp add: m'_def blit_def nth_append del: take_append)
    next
      case False
      then obtain j where "i = length ys + j" using le_Suc_ex not_less by blast
      then show ?thesis using i cstr_nth [OF assms(1), of j] by (auto simp: m'_def blit_def nth_append simp del: take_append)
    qed
  qed (use assms(5) in \<open>auto simp: m'_def min_def\<close>)
  moreover have "m' p = m p" if "p < dst \<or> dst + n \<le> p" for p using that assms(5) by (auto simp: m'_def blit_def)
  ultimately show ?thesis using that by blast
qed

text \<open>
  C25. The bounded copies, for a source that is a terminated string and does not overlap the \<open>n\<close> bytes of the destination.
  \<open>strlcpy\<close>, whatever the destination holds, returns the length of the source and leaves in the destination the source cut to
  \<open>n - 1\<close> bytes, terminated; with size 0 it writes nothing. \<open>strlcat\<close> on a destination that holds a string returns the
  sum of the two lengths and leaves the concatenation cut to \<open>n - 1\<close> bytes, terminated, if the string in the destination is
  shorter than \<open>n\<close>; otherwise it writes nothing, no terminator either. Neither writes a byte outside the destination.
\<close>

theorem bounded_copies:
  assumes "cstr m src xs" "src \<noteq> NULL" "dst \<noteq> NULL" "src + length xs < dst \<or> dst + n \<le> src"
  shows "(\<exists>m'. strlcpy m dst src n = Some (m', length xs) \<and> (if n = 0 then m' = m else cstr m' dst (take (n - 1) xs)) \<and>
      (\<forall>p. p < dst \<or> dst + n \<le> p \<longrightarrow> m' p = m p)) \<and>
    (\<forall>ys. cstr m dst ys \<longrightarrow> (\<exists>m'. strlcat m dst src n = Some (m', length xs + length ys) \<and>
      (if n \<le> length ys then m' = m else cstr m' dst (take (n - 1) (ys @ xs))) \<and>
      (\<forall>p. p < dst \<or> dst + n \<le> p \<longrightarrow> m' p = m p)))"
proof (intro conjI allI impI)
  show "\<exists>m'. strlcpy m dst src n = Some (m', length xs) \<and> (if n = 0 then m' = m else cstr m' dst (take (n - 1) xs)) \<and>
      (\<forall>p. p < dst \<or> dst + n \<le> p \<longrightarrow> m' p = m p)"
  proof (cases "n = 0")
    case True
    then show ?thesis using assms(2,3) by (simp add: strlcpy_def strlen_cstr [OF assms(1,2)])
  next
    case False
    then show ?thesis using strlcpy_cstr [OF assms(1-3) _ assms(4)] by (metis neq0_conv)
  qed
next
  fix ys assume y: "cstr m dst ys"
  show "\<exists>m'. strlcat m dst src n = Some (m', length xs + length ys) \<and>
      (if n \<le> length ys then m' = m else cstr m' dst (take (n - 1) (ys @ xs))) \<and> (\<forall>p. p < dst \<or> dst + n \<le> p \<longrightarrow> m' p = m p)"
  proof (cases "n \<le> length ys")
    case True
    then show ?thesis using assms(2,3) by (simp add: strlcat_def strlen_cstr [OF assms(1,2)] strlen_cstr [OF y assms(3)])
  next
    case False
    then have "length ys < n" by simp
    then show ?thesis using strlcat_cstr [OF assms(1,2) y assms(3) _ assms(4)] False by metis
  qed
qed

theorem bounded_copies_witness:
  "(\<exists>m'. strlcpy ((\<lambda>_. 0xcc)(10 := 97, 11 := 98, 12 := 0)) 20 10 2 = Some (m', 2) \<and> cstr m' 20 [97]) \<and>
   (\<exists>m'. strlcat ((\<lambda>_. 0)(10 := 97, 11 := 98, 20 := 99)) 20 10 3 = Some (m', 3) \<and> cstr m' 20 [99, 97])"
  using bounded_copies [of "(\<lambda>_. 0xcc)(10 := 97, 11 := 98, 12 := 0)" 10 "[97, 98]" 20 2]
    bounded_copies [of "(\<lambda>_. 0)(10 := 97, 11 := 98, 20 := 99)" 10 "[97, 98]" 20 3]
  by (auto dest: spec [of _ "[99]"])

end
