(* ===== verification/Machine_Memory.thy ===== *)
theory Machine_Memory
  imports Lib_String Bitmap
begin

text \<open>
  What the memory management of the kernel rests on: 32-bit words in a memory of bytes, the virtual addresses of
  \<^verbatim>\<open>threads/vaddr.h\<close>, and the state of the machine that the page allocator and the page directories share. The
  kernel maps all physical memory at \<open>PHYS_BASE\<close>, so the memory is indexed by kernel virtual addresses.

  The operations of these components run from start to end on behalf of one thread. The locks they take are the
  ones of \<^verbatim>\<open>threads/synch.c\<close>; here \<open>locks_held\<close> is the set of the locks this thread holds, all others being free.
  Acquiring a lock twice or releasing one that is not held fails the assertion of \<^verbatim>\<open>lock_acquire\<close> or \<^verbatim>\<open>lock_release\<close>.
\<close>

subsection \<open>Words in memory\<close>

definition store32 :: "mem \<Rightarrow> ptr \<Rightarrow> nat \<Rightarrow> mem" where
  "store32 m p v = m(p := of_nat v, p + 1 := of_nat (v div 256), p + 2 := of_nat (v div 65536), p + 3 := of_nat (v div 16777216))"

definition load32 :: "mem \<Rightarrow> ptr \<Rightarrow> nat" where
  "load32 m p = unat (m p) + 256 * unat (m (p + 1)) + 65536 * unat (m (p + 2)) + 16777216 * unat (m (p + 3))"

lemma store32_outside: "q < p \<or> p + 4 \<le> q \<Longrightarrow> store32 m p v q = m q"
  by (auto simp: store32_def)

lemma load32_store32: 
  assumes "v < 2 ^ 32"
  shows "load32 (store32 m p v) p = v"
proof -
  have d: "v div 65536 = v div 256 div 256" "v div 16777216 = v div 65536 div 256" by (simp_all add: div_mult2_eq [symmetric])
  have "v = v mod 256 + 256 * (v div 256)" by simp
  moreover have "v div 256 = v div 256 mod 256 + 256 * (v div 65536)" unfolding d(1) by simp
  moreover have "v div 65536 = v div 65536 mod 256 + 256 * (v div 16777216)" unfolding d(2) by simp
  moreover have "v div 16777216 mod 256 = v div 16777216" using assms by (intro mod_less) (simp add: div_less_iff_less_mult)
  ultimately have "v mod 256 + 256 * (v div 256 mod 256) + 65536 * (v div 65536 mod 256) + 16777216 * (v div 16777216 mod 256) = v"
    by linarith
  then show ?thesis unfolding load32_def store32_def by (simp add: unat_of_nat del: mod_less)
qed

lemma load32_cong: "m' p = m p \<Longrightarrow> m' (p + 1) = m (p + 1) \<Longrightarrow> m' (p + 2) = m (p + 2) \<Longrightarrow> m' (p + 3) = m (p + 3) \<Longrightarrow> load32 m' p = load32 m p"
  by (simp add: load32_def)

lemma load32_store32_other: "p + 4 \<le> q \<or> q + 4 \<le> p \<Longrightarrow> load32 (store32 m p v) q = load32 m q"
  by (rule load32_cong; rule store32_outside; auto)

subsection \<open>Virtual addresses\<close>

definition PGSIZE :: nat where
  "PGSIZE = 4096"

definition PHYS_BASE :: ptr where
  "PHYS_BASE = 0xc0000000"

definition pg_ofs :: "ptr \<Rightarrow> nat" where
  "pg_ofs va = va mod PGSIZE"

definition pg_no :: "ptr \<Rightarrow> nat" where
  "pg_no va = va div PGSIZE"

definition pg_round_up :: "ptr \<Rightarrow> ptr" where
  "pg_round_up va = (let v = usz (va + PGSIZE - 1) in v - v mod PGSIZE)"

definition pg_round_down :: "ptr \<Rightarrow> ptr" where
  "pg_round_down va = va - va mod PGSIZE"

definition is_user_vaddr :: "ptr \<Rightarrow> bool" where
  "is_user_vaddr vaddr \<longleftrightarrow> vaddr < PHYS_BASE"

definition is_kernel_vaddr :: "ptr \<Rightarrow> bool" where
  "is_kernel_vaddr vaddr \<longleftrightarrow> vaddr \<ge> PHYS_BASE"

definition ptov :: "nat \<Rightarrow> ptr option" where
  "ptov paddr = do { ASSERT (paddr < PHYS_BASE); Some (usz (paddr + PHYS_BASE)) }"

definition vtop :: "ptr \<Rightarrow> nat option" where
  "vtop vaddr = do { ASSERT (is_kernel_vaddr vaddr); Some (vaddr - PHYS_BASE) }"

lemma pg_round_down_le: "pg_round_down va \<le> va" "va < pg_round_down va + PGSIZE" "pg_ofs (pg_round_down va) = 0"
  by (simp_all add: pg_round_down_def pg_ofs_def PGSIZE_def minus_mod_eq_mult_div)

lemma pg_round_down_aligned: "pg_ofs va = 0 \<Longrightarrow> pg_round_down va = va"
  by (simp add: pg_round_down_def pg_ofs_def)

subsection \<open>The machine\<close>

record pool =
  used_map :: bitmap
  pool_base :: ptr

datatype mutex = Pool_Lock bool | Swap_Lock | Frame_Lock | File_Lock | Spt_Lock nat

record machine =
  ram :: mem
  kernel_pool :: pool
  user_pool :: pool
  init_ram_pages :: nat
  init_page_dir :: ptr
  cr3 :: nat
  locks_held :: "mutex set"

definition mutex_acquire :: "mutex \<Rightarrow> 'a machine_scheme \<Rightarrow> 'a machine_scheme option" where
  "mutex_acquire l s = do { ASSERT (l \<notin> locks_held s); Some (s\<lparr>locks_held := insert l (locks_held s)\<rparr>) }"

definition mutex_release :: "mutex \<Rightarrow> 'a machine_scheme \<Rightarrow> 'a machine_scheme option" where
  "mutex_release l s = do { ASSERT (l \<in> locks_held s); Some (s\<lparr>locks_held := locks_held s - {l}\<rparr>) }"

text \<open>A page of memory.\<close>

definition page_at :: "mem \<Rightarrow> ptr \<Rightarrow> byte list" where
  "page_at m p = map m [p..<p + PGSIZE]"

lemma length_page_at [simp]: "length (page_at m p) = PGSIZE"
  by (simp add: page_at_def)

lemma page_at_cong: "(\<And>q. p \<le> q \<Longrightarrow> q < p + PGSIZE \<Longrightarrow> m' q = m q) \<Longrightarrow> page_at m' p = page_at m p"
  by (simp add: page_at_def)

lemma memset_loop_eq: "memset_loop m d v n = (\<lambda>q. if d \<le> q \<and> q < d + n then v else m q)"
  by (induction n arbitrary: m d) (auto simp: fun_eq_iff)

lemma aligned_disjoint:
  assumes "p mod PGSIZE = 0" "q mod PGSIZE = 0" "p \<noteq> q" "q \<le> x" "x < q + PGSIZE"
  shows "x < p \<or> p + PGSIZE \<le> x"
proof -
  obtain a b where ab: "p = PGSIZE * a" "q = PGSIZE * b" using assms(1,2) by (metis mod_eq_0_iff_dvd dvdE)
  then have "a + 1 \<le> b \<or> b + 1 \<le> a" using assms(3) by auto
  then have "PGSIZE * (a + 1) \<le> PGSIZE * b \<or> PGSIZE * (b + 1) \<le> PGSIZE * a" by (metis mult_le_mono2)
  then show ?thesis using assms(4,5) ab by auto
qed

end
