(* ===== verification/Process_Args.thy ===== *)
theory Process_Args
  imports Machine_Memory
begin

text \<open>
  The arguments of a new process, \<^verbatim>\<open>userprog/process.c\<close>: \<open>parse_args\<close> cuts the command line into tokens, and
  \<open>start_process\<close> lays them out on the user stack as the C calling convention for \<^verbatim>\<open>main (argc, argv)\<close> wants them.
  Kernel and user addresses belong to one address space while the process's page directory is active, so both
  steps work on the same memory. A write outside the array \<^verbatim>\<open>argv\<close> is \<^term>\<open>None\<close>. The address of the string
  literal that holds one space is a parameter.
\<close>

subsection \<open>The code\<close>

partial_function (option) parse_args_loop :: "mem \<Rightarrow> ptr \<Rightarrow> ptr \<Rightarrow> ptr \<Rightarrow> ptr list \<Rightarrow> nat \<Rightarrow> (mem \<times> ptr list \<times> nat) option" where
  "parse_args_loop m space token save_ptr argv argc =
     (if token \<noteq> NULL then do {
        ASSERT (argc < length argv);
        let argv = argv[argc := token];
        (m, token, save_ptr) \<leftarrow> strtok_r m NULL space save_ptr;
        parse_args_loop m space token save_ptr argv (argc + 1) }
      else do {
        ASSERT (argc < length argv);
        Some (m, argv[argc := NULL], argc) })"

definition parse_args :: "mem \<Rightarrow> ptr \<Rightarrow> ptr \<Rightarrow> ptr list \<Rightarrow> (mem \<times> ptr list \<times> nat) option" where
  "parse_args m space cmd_line argv = do {
     (m, token, save_ptr) \<leftarrow> strtok_r m cmd_line space NULL;
     parse_args_loop m space token save_ptr argv 0 }"

text \<open>The three parts of the stack set-up in \<open>start_process\<close>: the strings, the pointers to them, the frame of \<^verbatim>\<open>main\<close>.\<close>

fun push_strings :: "mem \<Rightarrow> ptr list \<Rightarrow> ptr list \<Rightarrow> nat \<Rightarrow> ptr \<Rightarrow> (mem \<times> ptr list \<times> ptr) option" where
  "push_strings m argv user_argv_ptrs 0 esp = Some (m, user_argv_ptrs, esp)"
| "push_strings m argv user_argv_ptrs (Suc i) esp = do {
     n \<leftarrow> strlen m (argv ! i);
     let len = n + 1;
     let esp = esp - len;
     (m, _) \<leftarrow> memcpy m esp (argv ! i) len;
     push_strings m argv (user_argv_ptrs[i := esp]) i esp }"

fun push_pointers :: "mem \<Rightarrow> ptr list \<Rightarrow> nat \<Rightarrow> ptr \<Rightarrow> mem \<times> ptr" where
  "push_pointers m user_argv_ptrs 0 esp = (m, esp)"
| "push_pointers m user_argv_ptrs (Suc i) esp =
     (let esp = esp - 4 in push_pointers (store32 m esp (user_argv_ptrs ! i)) user_argv_ptrs i esp)"

definition push_padding :: "mem \<Rightarrow> ptr \<Rightarrow> (mem \<times> ptr) option" where
  "push_padding m esp =
     (let padding = esp mod 4 in
      if padding \<noteq> 0
      then do { let esp = esp - padding; (m, _) \<leftarrow> memset m esp 0 padding; Some (m, esp) }
      else Some (m, esp))"

definition push_args :: "mem \<Rightarrow> ptr list \<Rightarrow> nat \<Rightarrow> ptr \<Rightarrow> (mem \<times> ptr) option" where
  "push_args m argv argc esp = do {
     (m, user_argv_ptrs, esp) \<leftarrow> push_strings m argv (replicate argc 0) argc esp;
     (m, esp) \<leftarrow> push_padding m esp;
     let esp = esp - 4;
     let m = store32 m esp NULL;
     let (m, esp) = push_pointers m user_argv_ptrs argc esp;
     let user_argv = esp;
     let esp = esp - 4;
     let m = store32 m esp user_argv;
     let esp = esp - 4;
     let m = store32 m esp argc;
     let esp = esp - 4;
     let m = store32 m esp 0;
     Some (m, esp) }"

text \<open>
  \<open>loaded\<close> is the result of \<^verbatim>\<open>load (argv[0], ...)\<close>, which runs between the two parts and leaves the page with the command
  line alone: the stack pointer it sets, or \<^term>\<open>None\<close> when it fails, also for the null pointer \<^verbatim>\<open>argv[0]\<close> of a
  command line without a token. \<open>Process_Load\<close> models it. Without success no frame is built.
\<close>

definition start_arguments :: "mem \<Rightarrow> ptr \<Rightarrow> ptr \<Rightarrow> ptr option \<Rightarrow> (mem \<times> ptr option) option" where
  "start_arguments m space file_name loaded = do {
     (m, argv, argc) \<leftarrow> parse_args m space file_name (replicate 128 0);
     case loaded of
       None \<Rightarrow> Some (m, None)
     | Some esp \<Rightarrow> do { (m, esp) \<leftarrow> push_args m argv argc esp; Some (m, Some esp) } }"

subsection \<open>Parsing\<close>

text \<open>The tokens of a string: the maximal runs of characters that are not delimiters.\<close>

function tokens :: "byte set \<Rightarrow> byte list \<Rightarrow> byte list list" where
  "tokens D xs = (let ys = dropWhile (\<lambda>x. x \<in> D) xs in
     if ys = [] then [] else takeWhile (\<lambda>x. x \<notin> D) ys # tokens D (tl (dropWhile (\<lambda>x. x \<notin> D) ys)))"
  by auto
termination
proof (relation "measure (\<lambda>(D, xs). length xs)")
  fix D :: "byte set" and xs ys :: "byte list"
  assume y: "ys = dropWhile (\<lambda>x. x \<in> D) xs" "ys \<noteq> []"
  have "length (tl (dropWhile (\<lambda>x. x \<notin> D) ys)) < length ys"
    using y(2) length_dropWhile_le [of "\<lambda>x. x \<notin> D" ys] by (cases ys) auto
  also have "\<dots> \<le> length xs" unfolding y(1) by (rule length_dropWhile_le)
  finally show "((D, tl (dropWhile (\<lambda>x. x \<notin> D) ys)), D, xs) \<in> measure (\<lambda>(D, xs). length xs)" by simp
qed simp

declare tokens.simps [simp del]

text \<open>What the rest of the loop does from a saved position \<open>s\<close> with the rest \<open>xs\<close> of the string.\<close>

definition rest_of :: "mem \<Rightarrow> ptr \<Rightarrow> ptr \<Rightarrow> ptr \<Rightarrow> ptr list \<Rightarrow> nat \<Rightarrow> (mem \<times> ptr list \<times> nat) option" where
  "rest_of m d s sv argv argc = do { (m, token, save) \<leftarrow> strtok_r m s d sv; parse_args_loop m d token save argv argc }"

definition placed :: "mem \<Rightarrow> ptr \<Rightarrow> nat \<Rightarrow> ptr \<Rightarrow> byte list \<Rightarrow> bool" where
  "placed m lo n p t = (cstr m p t \<and> lo \<le> p \<and> p + length t \<le> lo + n)"

lemma strtok_r_NULL: "s \<noteq> NULL \<Longrightarrow> strtok_r m NULL d s = strtok_r m s d NULL"
  by (simp add: strtok_r_def)

lemma rest_of_step:
  assumes d: "cstr m d [32]" "d \<noteq> NULL" and s: "cstr m s xs" "s \<noteq> NULL" "d + 1 < s \<or> s + length xs < d"
    and ys: "ys = dropWhile (\<lambda>x. x \<in> {32}) xs" "ys \<noteq> []"
  defines "t \<equiv> takeWhile (\<lambda>x. x \<notin> {32}) ys" and "r \<equiv> dropWhile (\<lambda>x. x \<notin> {32}) ys"
  obtains m' p s' where "rest_of m d s sv argv argc =
      (if argc < length argv then rest_of m' d s' NULL (argv[argc := p]) (argc + 1) else None)"
    "cstr m' d [32]" "cstr m' s' (tl r)" "placed m' s (length xs) p t" "p + length t \<le> s'" "s \<le> s'"
    "s' + length (tl r) = s + length xs" "p \<noteq> 0" "\<And>q. q < s \<or> s + length xs \<le> q \<Longrightarrow> m' q = m q"
    "p + length t < s' \<or> r = []"
proof -
  define sk where "sk = takeWhile (\<lambda>x. x \<in> {32}) xs"
  have "hd ys \<noteq> 32" using hd_dropWhile [of "\<lambda>x. x \<in> {32}" xs] ys by simp
  then have "t \<noteq> []" unfolding t_def using ys(2) by (cases ys) auto
  moreover have "r = [] \<or> hd r = 32" using hd_dropWhile [of "\<lambda>x. x \<notin> {32}" ys] by (auto simp: r_def)
  moreover have "set sk \<subseteq> {32}" "set t \<inter> {32} = {}" by (auto simp: sk_def t_def dest: set_takeWhileD)
  moreover have "xs = sk @ t @ r" by (simp add: sk_def t_def r_def ys(1))
  ultimately have xs: "xs = sk @ t @ r" "set sk \<subseteq> set [32]" "t \<noteq> []" "set t \<inter> set [32] = {}" "r = [] \<or> hd r \<in> set [32]"
    by auto
  define p where "p = s + length sk"
  define m' where "m' = (if r = [] then m else m(p + length t := 0))"
  define s' where "s' = p + length t + (if r = [] then 0 else 1)"
  note st = strtok_r_token [OF d s(1,2) xs, folded p_def, folded m'_def s'_def]
  have p: "cstr m p (t @ r)" using cstr_append [of m s sk "t @ r"] s(1) xs(1) by (simp add: p_def)
  have pr: "cstr m (p + length t) r" using cstr_append [OF p] .
  have pt: "cstr m' p t" using p cstr_cut [OF p] by (cases r) (auto simp: m'_def)
  have s': "cstr m' s' (tl r)" using pr by (cases r) (auto simp: m'_def s'_def cstr_upd)
  have len: "length xs = length sk + length t + length r" using xs(1) by simp
  have fr: "m' q = m q" if "q < s \<or> s + length xs \<le> q" for q using that len by (cases r) (auto simp: m'_def p_def)
  have d': "cstr m' d [32]" using d(1) fr [of d] fr [of "d + 1"] s(3) by auto
  have f1: "rest_of m d s sv argv argc = (if argc < length argv then rest_of m' d s' NULL (argv[argc := p]) (argc + 1) else None)"
    unfolding rest_of_def st(1) using s(2) strtok_r_NULL [of s' m' d]
    by (subst parse_args_loop.simps) (simp add: p_def s'_def)
  have f2: "placed m' s (length xs) p t" using pt len by (simp add: placed_def p_def)
  have f3: "p + length t \<le> s'" "s \<le> s'" "p \<noteq> 0" "p + length t < s' \<or> r = []" using s(2) by (auto simp: s'_def p_def)
  have f4: "s' + length (tl r) = s + length xs" using len by (cases r) (auto simp: s'_def p_def)
  show ?thesis by (rule that [OF f1 d' s' f2 f3(1,2) f4 f3(3) fr f3(4)])
qed

lemma rest_of_tokens:
  assumes "cstr m d [32]" "d \<noteq> NULL" "cstr m s xs" "s \<noteq> NULL" "d + 1 < s \<or> s + length xs < d"
  shows "(argc + length (tokens {32} xs) < length argv \<longrightarrow>
      (\<exists>m' argv' ps. rest_of m d s NULL argv argc = Some (m', argv', argc + length (tokens {32} xs)) \<and>
        length argv' = length argv \<and> take (argc + length (tokens {32} xs)) argv' = take argc argv @ ps \<and>
        argv' ! (argc + length (tokens {32} xs)) = NULL \<and>
        list_all2 (placed m' s (length xs)) ps (tokens {32} xs) \<and>
        (\<forall>q. q < s \<or> s + length xs \<le> q \<longrightarrow> m' q = m q))) \<and>
    (length argv \<le> argc + length (tokens {32} xs) \<longrightarrow> rest_of m d s NULL argv argc = None)"
  using assms
proof (induction "length xs" arbitrary: m s xs argv argc rule: less_induct)
  case less
  note d = less.prems(1,2) and s = less.prems(3-5)
  define ys where "ys = dropWhile (\<lambda>x. x \<in> {32}) xs"
  show ?case
  proof (cases "ys = []")
    case True
    then have "set xs \<subseteq> set [32]" by (auto simp: ys_def)
    note st = strtok_r_none [OF d s(1,2) this]
    have tk: "tokens {32} xs = []" using True by (simp add: tokens.simps ys_def)
    have "rest_of m d s NULL argv argc = (if argc < length argv then Some (m, argv[argc := NULL], argc) else None)"
      unfolding rest_of_def st(1) by (subst parse_args_loop.simps) simp
    then show ?thesis by (auto simp: tk)
  next
    case False
    define t where "t = takeWhile (\<lambda>x. x \<notin> {32}) ys"
    define r where "r = dropWhile (\<lambda>x. x \<notin> {32}) ys"
    obtain m' p s' where st: "rest_of m d s NULL argv argc =
        (if argc < length argv then rest_of m' d s' NULL (argv[argc := p]) (argc + 1) else None)"
      "cstr m' d [32]" "cstr m' s' (tl r)" "placed m' s (length xs) p t" "p + length t \<le> s'" "s \<le> s'"
      "s' + length (tl r) = s + length xs" "p \<noteq> 0" "\<And>q. q < s \<or> s + length xs \<le> q \<Longrightarrow> m' q = m q" "p + length t < s' \<or> r = []"
      by (rule rest_of_step [OF d s ys_def False, where sv = NULL and argv = argv and argc = argc, folded t_def r_def]) blast
    have tk: "tokens {32} xs = t # tokens {32} (tl r)"
      using False by (subst tokens.simps) (simp add: Let_def ys_def t_def r_def)
    have lt: "length (tl r) < length xs"
    proof -
      have "t \<noteq> []" using hd_dropWhile [of "\<lambda>x. x \<in> {32}" xs] False by (cases ys) (auto simp: ys_def t_def)
      then have "p < s'" using st(5) by (cases t) auto
      moreover have "s \<le> p" using st(4) by (simp add: placed_def)
      ultimately show ?thesis using st(7) by linarith
    qed
    have s': "s' \<noteq> NULL" "d + 1 < s' \<or> s' + length (tl r) < d" using st(6,7) s(2,3) by auto
    note IH = less.hyps [OF lt st(2) d(2) st(3) s', where argc = "argc + 1" and argv = "argv[argc := p]"]
    show ?thesis
    proof (intro conjI impI)
      assume a: "argc + length (tokens {32} xs) < length argv"
      then obtain m2 argv' ps where r2: "rest_of m' d s' NULL (argv[argc := p]) (argc + 1) = Some (m2, argv', argc + length (tokens {32} xs))"
        "length argv' = length argv" "take (argc + length (tokens {32} xs)) argv' = take (argc + 1) (argv[argc := p]) @ ps"
        "argv' ! (argc + length (tokens {32} xs)) = NULL" "list_all2 (placed m2 s' (length (tl r))) ps (tokens {32} (tl r))"
        "\<forall>q. q < s' \<or> s' + length (tl r) \<le> q \<longrightarrow> m2 q = m' q"
        using IH by (auto simp: tk)
      have "cstr m2 p t"
      proof -
        have "m2 q = m' q" if "p \<le> q" "q \<le> p + length t" for q
          using that st(5,10) r2(6) by (cases "r = []") auto
        then show ?thesis using st(4) cstr_cong [of p t m2 m'] by (simp add: placed_def)
      qed
      then have "placed m2 s (length xs) p t" using st(4) by (simp add: placed_def)
      moreover have "list_all2 (placed m2 s (length xs)) ps (tokens {32} (tl r))"
        using r2(5) by (rule list_all2_mono) (use st(6,7) in \<open>auto simp: placed_def\<close>)
      ultimately have "list_all2 (placed m2 s (length xs)) (p # ps) (tokens {32} xs)" by (simp add: tk)
      moreover have "take (argc + 1) (argv[argc := p]) @ ps = take argc argv @ p # ps"
        using a by (simp add: take_Suc_conv_app_nth)
      moreover have "\<forall>q. q < s \<or> s + length xs \<le> q \<longrightarrow> m2 q = m q" using r2(6) st(6,7,9) by auto
      ultimately show "\<exists>m' argv' ps. rest_of m d s NULL argv argc = Some (m', argv', argc + length (tokens {32} xs)) \<and>
        length argv' = length argv \<and> take (argc + length (tokens {32} xs)) argv' = take argc argv @ ps \<and>
        argv' ! (argc + length (tokens {32} xs)) = NULL \<and> list_all2 (placed m' s (length xs)) ps (tokens {32} xs) \<and>
        (\<forall>q. q < s \<or> s + length xs \<le> q \<longrightarrow> m' q = m q)"
        using a st(1) r2 by auto
    next
      assume "length argv \<le> argc + length (tokens {32} xs)"
      then show "rest_of m d s NULL argv argc = None" using IH st(1) by (auto simp: tk)
    qed
  qed
qed

lemma parse_args_rest: "parse_args m d s argv = rest_of m d s NULL argv 0"
  by (simp add: parse_args_def rest_of_def)

text \<open>
  C18. \<open>parse_args\<close> on a command line stores in \<open>argv\<close> pointers to its tokens, in order, each a terminated string in
  place, followed by a null pointer, and changes no byte outside the command line. It writes outside the array
  exactly when there are as many tokens as the array has elements or more.
\<close>

theorem parse_args_tokens:
  assumes "cstr m space [32]" "space \<noteq> NULL" "cstr m cmd xs" "cmd \<noteq> NULL" "space + 1 < cmd \<or> cmd + length xs < space"
  shows "(length (tokens {32} xs) < length argv \<longrightarrow>
      (\<exists>m' argv'. parse_args m space cmd argv = Some (m', argv', length (tokens {32} xs)) \<and>
        argv' ! length (tokens {32} xs) = NULL \<and>
        (\<forall>i < length (tokens {32} xs). cstr m' (argv' ! i) (tokens {32} xs ! i)) \<and>
        (\<forall>q. q < cmd \<or> cmd + length xs \<le> q \<longrightarrow> m' q = m q))) \<and>
    (length argv \<le> length (tokens {32} xs) \<longrightarrow> parse_args m space cmd argv = None)"
proof (intro conjI impI)
  let ?ts = "tokens {32} xs"
  note rt = rest_of_tokens [OF assms, of 0 argv, folded parse_args_rest]
  show "parse_args m space cmd argv = None" if "length argv \<le> length ?ts" using rt that by simp
  assume "length ?ts < length argv"
  then obtain m' argv' ps where r: "parse_args m space cmd argv = Some (m', argv', length ?ts)" "length argv' = length argv"
    "take (length ?ts) argv' = ps" "argv' ! length ?ts = NULL" "list_all2 (placed m' cmd (length xs)) ps ?ts"
    "\<forall>q. q < cmd \<or> cmd + length xs \<le> q \<longrightarrow> m' q = m q"
    using rt by auto
  have "cstr m' (argv' ! i) (?ts ! i)" if "i < length ?ts" for i
    using list_all2_nthD2 [OF r(5) that] that r(3) by (auto simp: placed_def)
  then show "\<exists>m' argv'. parse_args m space cmd argv = Some (m', argv', length ?ts) \<and> argv' ! length ?ts = NULL \<and>
        (\<forall>i < length ?ts. cstr m' (argv' ! i) (?ts ! i)) \<and> (\<forall>q. q < cmd \<or> cmd + length xs \<le> q \<longrightarrow> m' q = m q)"
    using r by blast
qed

theorem parse_args_tokens_witness:
  "parse_args ((\<lambda>_. 0)(4 := 32, 10 := 97, 11 := 32, 12 := 98)) 4 10 [0, 0] = None \<and>
   (\<exists>m' argv'. parse_args ((\<lambda>_. 0)(4 := 32, 10 := 97, 11 := 32, 12 := 98)) 4 10 [0, 0, 0] = Some (m', argv', 2))"
proof -
  have tk: "tokens {32} [97, 32, 98] = [[97], [98 :: byte]]" by (simp add: tokens.simps Let_def)
  show ?thesis
    using parse_args_tokens [of "(\<lambda>_. 0)(4 := 32, 10 := 97, 11 := 32, 12 := 98)" 4 10 "[97, 32, 98]" "[0, 0]", unfolded tk]
      parse_args_tokens [of "(\<lambda>_. 0)(4 := 32, 10 := 97, 11 := 32, 12 := 98)" 4 10 "[97, 32, 98]" "[0, 0, 0]", unfolded tk]
    by auto
qed

subsection \<open>The stack\<close>

definition space_for :: "byte list list \<Rightarrow> nat" where
  "space_for ts = sum_list (map (\<lambda>t. length t + 1) ts)"

lemma space_for_take_Suc: "i < length ts \<Longrightarrow> space_for (take (Suc i) ts) = space_for (take i ts) + length (ts ! i) + 1"
  by (simp add: space_for_def take_Suc_conv_app_nth)

lemma push_strings_ok:
  assumes "i \<le> length ts" "length ts \<le> length argv" "\<And>k. k < i \<Longrightarrow> cstr m (argv ! k) (ts ! k) \<and> esp \<le> argv ! k"
    and "space_for (take i ts) < esp" "length up = length ts"
  shows "\<exists>m' up'. push_strings m argv up i esp = Some (m', up', esp - space_for (take i ts)) \<and> length up' = length ts \<and>
    (\<forall>k < i. cstr m' (up' ! k) (ts ! k) \<and> esp - space_for (take i ts) \<le> up' ! k \<and> up' ! k + length (ts ! k) < esp) \<and>
    (\<forall>k. i \<le> k \<longrightarrow> up' ! k = up ! k) \<and>
    (\<forall>q. q < esp - space_for (take i ts) \<or> esp \<le> q \<longrightarrow> m' q = m q)"
  using assms
proof (induction i arbitrary: m up esp)
  case 0
  then show ?case by (simp add: space_for_def)
next
  case (Suc i)
  define e where "e = esp - (length (ts ! i) + 1)"
  define m1 where "m1 = blit m e (argv ! i) (length (ts ! i) + 1)"
  have i: "i < length ts" using Suc.prems(1) by simp
  note sp = space_for_take_Suc [OF i]
  have e: "e + length (ts ! i) + 1 = esp" "space_for (take i ts) < e" using Suc.prems(4) sp by (auto simp: e_def)
  have s: "cstr m (argv ! i) (ts ! i)" "esp \<le> argv ! i" using Suc.prems(3) by auto
  have len: "strlen m (argv ! i) = Some (length (ts ! i))" using strlen_cstr [OF s(1)] s(2) e by simp
  have cpy: "memcpy m e (argv ! i) (length (ts ! i) + 1) = Some (m1, e)"
    unfolding m1_def using e s(2) by (intro memcpy_blit) auto
  have fr: "m1 q = m q" if "q < e \<or> esp \<le> q" for q using that e(1) by (auto simp: m1_def blit_def)
  have st: "cstr m1 (argv ! k) (ts ! k) \<and> e \<le> argv ! k" if "k < i" for k
    using Suc.prems(3) [of k] that fr e(1) cstr_cong [of "argv ! k" "ts ! k" m1 m] by auto
  obtain m' up' where r: "push_strings m1 argv (up[i := e]) i e = Some (m', up', e - space_for (take i ts))" "length up' = length ts"
    "\<forall>k < i. cstr m' (up' ! k) (ts ! k) \<and> e - space_for (take i ts) \<le> up' ! k \<and> up' ! k + length (ts ! k) < e"
    "\<forall>k. i \<le> k \<longrightarrow> up' ! k = up[i := e] ! k" "\<forall>q. q < e - space_for (take i ts) \<or> e \<le> q \<longrightarrow> m' q = m1 q"
    using Suc.IH [of m1 e "up[i := e]"] st e(2) Suc.prems(1,2,5) by auto
  have "cstr m1 e (ts ! i)"
  proof (rule cstrI)
    show "0 \<notin> set (ts ! i)" using cstr_nonzero [OF s(1)] by metis
    show "m1 (e + length (ts ! i)) = 0" using cstr_end [OF s(1)] by (simp add: m1_def blit_def)
    show "m1 (e + j) = ts ! i ! j" if "j < length (ts ! i)" for j using cstr_nth [OF s(1) that] that by (simp add: m1_def blit_def)
  qed
  moreover have "up' ! i = e" using r(4) Suc.prems(5) i by simp
  moreover have "cstr m' e (ts ! i) = cstr m1 e (ts ! i)" using r(5) by (intro cstr_cong) auto
  ultimately have "\<forall>k < Suc i. cstr m' (up' ! k) (ts ! k) \<and> e - space_for (take i ts) \<le> up' ! k \<and> up' ! k + length (ts ! k) < esp"
    using r(3) e(1) by (auto simp: less_Suc_eq)
  moreover have "push_strings m argv up (Suc i) esp = Some (m', up', e - space_for (take i ts))"
    using len cpy r(1) by (simp add: e_def)
  moreover have "\<forall>q. q < e - space_for (take i ts) \<or> esp \<le> q \<longrightarrow> m' q = m q"
  proof (intro allI impI)
    fix q assume q: "q < e - space_for (take i ts) \<or> esp \<le> q"
    then have "q < e \<or> esp \<le> q" "q < e - space_for (take i ts) \<or> e \<le> q" using e(1) by linarith+
    then show "m' q = m q" using r(5) fr by metis
  qed
  moreover have "e - space_for (take i ts) = esp - space_for (take (Suc i) ts)" using sp e(1) by linarith
  moreover have "\<forall>k. Suc i \<le> k \<longrightarrow> up' ! k = up ! k" using r(4) by simp
  ultimately show ?case using r(2) by auto
qed

lemma push_pointers_ok:
  "4 * i \<le> esp \<Longrightarrow> (\<And>k. k < i \<Longrightarrow> up ! k < 2 ^ 32) \<Longrightarrow>
   \<exists>m'. push_pointers m up i esp = (m', esp - 4 * i) \<and> (\<forall>k < i. load32 m' (esp - 4 * i + 4 * k) = up ! k) \<and>
     (\<forall>q. q < esp - 4 * i \<or> esp \<le> q \<longrightarrow> m' q = m q)"
proof (induction i arbitrary: m esp)
  case (Suc i)
  define m1 where "m1 = store32 m (esp - 4) (up ! i)"
  have i4: "4 * i \<le> esp - 4" using Suc.prems(1) by simp
  have e4: "esp - 4 - 4 * i = esp - 4 * Suc i" by simp
  obtain m' where r: "push_pointers m1 up i (esp - 4) = (m', esp - 4 * Suc i)"
    "\<forall>k < i. load32 m' (esp - 4 * Suc i + 4 * k) = up ! k" "\<forall>q. q < esp - 4 * Suc i \<or> esp - 4 \<le> q \<longrightarrow> m' q = m1 q"
    using Suc.IH [OF i4, of m1, unfolded e4] Suc.prems(2) less_SucI by blast
  have "load32 m' (esp - 4) = load32 m1 (esp - 4)" using r(3) by (intro load32_cong) auto
  also have "\<dots> = up ! i" unfolding m1_def using Suc.prems(2) by (intro load32_store32) auto
  finally have l: "load32 m' (esp - 4 * Suc i + 4 * i) = up ! i" using Suc.prems(1) by (simp add: e4 [symmetric])
  have "\<forall>q. q < esp - 4 * Suc i \<or> esp \<le> q \<longrightarrow> m' q = m q"
  proof (intro allI impI)
    fix q assume "q < esp - 4 * Suc i \<or> esp \<le> q"
    then have "q < esp - 4 \<or> esp - 4 + 4 \<le> q" "q < esp - 4 * Suc i \<or> esp - 4 \<le> q" using Suc.prems(1) by auto
    then show "m' q = m q" using r(3) store32_outside [of q "esp - 4" m "up ! i"] unfolding m1_def by metis
  qed
  then show ?case using r l by (auto simp: less_Suc_eq m1_def Let_def)
qed simp

lemma memset_loop_outside: "q < p \<or> p + n \<le> q \<Longrightarrow> memset_loop m p v n q = m q"
  by (induction n arbitrary: m p) auto

lemma space_for_tokens: "space_for (tokens D xs) \<le> length xs + 1"
proof (induction "length xs" arbitrary: xs rule: less_induct)
  case less
  define ys where "ys = dropWhile (\<lambda>x. x \<in> D) xs"
  define t where "t = takeWhile (\<lambda>x. x \<notin> D) ys"
  define r where "r = dropWhile (\<lambda>x. x \<notin> D) ys"
  show ?case
  proof (cases "ys = []")
    case True
    then show ?thesis by (simp add: tokens.simps ys_def space_for_def)
  next
    case False
    have tk: "tokens D xs = t # tokens D (tl r)" using False by (subst tokens.simps) (simp add: Let_def ys_def t_def r_def)
    have ys: "length t + length r = length ys" "length ys \<le> length xs"
      unfolding t_def r_def by (metis length_append takeWhile_dropWhile_id) (simp add: ys_def length_dropWhile_le)
    show ?thesis
    proof (cases "r = []")
      case True
      then show ?thesis using ys tk by (simp add: space_for_def tokens.simps)
    next
      case False
      then have lt: "length (tl r) + 1 = length r" by (cases r) auto
      then have "space_for (tokens D (tl r)) \<le> length r" using less [of "tl r"] ys by simp
      then show ?thesis using ys tk by (simp add: space_for_def)
    qed
  qed
qed

text \<open>The frame of \<^verbatim>\<open>main\<close> below the strings: what \<open>push_args\<close> does once the strings are on the stack.\<close>

definition main_frame :: "mem \<Rightarrow> ptr \<Rightarrow> ptr list \<Rightarrow> bool" where
  "main_frame m e up = (e mod 4 = 0 \<and> load32 m e = 0 \<and> load32 m (e + 4) = length up \<and> load32 m (e + 8) = e + 12 \<and>
     (\<forall>i < length up. load32 m (e + 12 + 4 * i) = up ! i) \<and> load32 m (e + 12 + 4 * length up) = NULL)"

lemma push_frame:
  assumes "length up = n" "16 + 4 * n \<le> e" "e mod 4 = 0" "e < 2 ^ 32" "\<And>k. k < n \<Longrightarrow> up ! k < 2 ^ 32"
  defines "b \<equiv> e - 4 - 4 * n"
  shows "\<exists>m1 m'. push_pointers (store32 m (e - 4) NULL) up n (e - 4) = (m1, b) \<and>
    m' = store32 (store32 (store32 m1 (b - 4) b) (b - 8) n) (b - 12) 0 \<and> main_frame m' (b - 12) up \<and>
    (\<forall>q. q < b - 12 \<or> e \<le> q \<longrightarrow> m' q = m q)"
proof -
  have b: "b + 4 * n + 4 = e" "12 \<le> b" using assms(2) by (auto simp: b_def)
  have n4: "4 * n \<le> e - 4" using assms(2) by simp
  obtain m1 where p: "push_pointers (store32 m (e - 4) NULL) up n (e - 4) = (m1, b)"
    "\<forall>k < n. load32 m1 (b + 4 * k) = up ! k" "\<forall>q. q < b \<or> e - 4 \<le> q \<longrightarrow> m1 q = store32 m (e - 4) NULL q"
    using push_pointers_ok [OF n4 assms(5), of "store32 m (e - 4) NULL"] unfolding b_def by blast
  define m' where "m' = store32 (store32 (store32 m1 (b - 4) b) (b - 8) n) (b - 12) 0"
  have fr: "m' q = m1 q" if "q < b - 12 \<or> b \<le> q" for q
  proof -
    have "q < b - 12 \<or> b - 12 + 4 \<le> q" "q < b - 8 \<or> b - 8 + 4 \<le> q" "q < b - 4 \<or> b - 4 + 4 \<le> q" using that b(2) by auto
    then show ?thesis by (simp only: m'_def store32_outside)
  qed
  have up: "load32 m' (b + 4 * k) = up ! k" if "k < n" for k
    using p(2) that load32_cong [of m' "b + 4 * k" m1] fr by simp
  have e4: "b + 4 * n = e - 4" using b(1) by simp
  have "load32 m' (b + 4 * n) = load32 (store32 m (e - 4) NULL) (e - 4)"
    unfolding e4 by (rule load32_cong) (use fr p(3) b in auto)
  then have nl: "load32 m' (b + 4 * n) = NULL" by (simp add: load32_store32)
  have d: "b - 12 + 4 \<le> b - 4" "b - 8 + 4 \<le> b - 4" "b - 12 + 4 \<le> b - 8" using b(2) by auto
  have "load32 m' (b - 4) = load32 (store32 m1 (b - 4) b) (b - 4)"
    unfolding m'_def using d(1,2) by (simp only: load32_store32_other [OF disjI1])
  moreover have "load32 m' (b - 8) = load32 (store32 (store32 m1 (b - 4) b) (b - 8) n) (b - 8)"
    unfolding m'_def using d(3) by (simp only: load32_store32_other [OF disjI1])
  moreover have "b < 2 ^ 32" "n < 2 ^ 32" using b assms(4) by auto
  ultimately have "load32 m' (b - 4) = b" "load32 m' (b - 8) = n" "load32 m' (b - 12) = 0"
    by (simp_all add: load32_store32 m'_def)
  moreover have "b - 12 + 4 = b - 8" "b - 12 + 8 = b - 4" "b - 12 + 12 = b" "b - 12 + 12 + 4 * n = b + 4 * n" using b(2) by auto
  moreover have "(b - 12) mod 4 = 0"
  proof -
    have "b = e - 4 * (n + 1)" using b(1) by simp
    then have "b - 12 = e - 4 * (n + 4)" by simp
    moreover have "4 dvd e" using assms(3) by (simp add: dvd_eq_mod_eq_0)
    ultimately show ?thesis by (metis dvd_diff_nat dvd_eq_mod_eq_0 dvd_triv_left)
  qed
  ultimately have mf: "main_frame m' (b - 12) up" using up nl assms(1) by (simp add: main_frame_def)
  have "m' q = m q" if "q < b - 12 \<or> e \<le> q" for q
  proof -
    have "q < b - 12 \<or> b \<le> q" "q < b \<or> e - 4 \<le> q" "q < e - 4 \<or> e - 4 + 4 \<le> q" using that b assms(2) by linarith+
    then show ?thesis using fr p(3) store32_outside [of q "e - 4" m NULL] by metis
  qed
  then show ?thesis using p(1) mf m'_def by blast
qed

lemma push_args_ok:
  assumes "length ts \<le> length argv" "\<And>k. k < length ts \<Longrightarrow> cstr m (argv ! k) (ts ! k) \<and> esp \<le> argv ! k"
    and "space_for ts + 4 * length ts + 19 < esp" "esp < 2 ^ 32"
  obtains m' e up where "push_args m argv (length ts) esp = Some (m', e)" "length up = length ts" "main_frame m' e up"
    "\<And>k. k < length ts \<Longrightarrow> cstr m' (up ! k) (ts ! k) \<and> e \<le> up ! k \<and> up ! k + length (ts ! k) < esp"
    "e < esp" "esp \<le> e + space_for ts + 4 * length ts + 19" "\<And>q. q < e \<or> esp \<le> q \<Longrightarrow> m' q = m q"
proof -
  let ?n = "length ts" and ?e1 = "esp - space_for ts"
  obtain m1 up where s: "push_strings m argv (replicate ?n 0) ?n esp = Some (m1, up, ?e1)" "length up = ?n"
    "\<forall>k < ?n. cstr m1 (up ! k) (ts ! k) \<and> ?e1 \<le> up ! k \<and> up ! k + length (ts ! k) < esp"
    "\<forall>q. q < ?e1 \<or> esp \<le> q \<longrightarrow> m1 q = m q"
    using push_strings_ok [of ?n ts argv m esp "replicate ?n 0"] assms by auto
  define e2 where "e2 = ?e1 - ?e1 mod 4"
  define m2 where "m2 = (if ?e1 mod 4 \<noteq> 0 then memset_loop m1 e2 0 (?e1 mod 4) else m1)"
  have e2: "e2 + ?e1 mod 4 = ?e1" "?e1 mod 4 < 4" by (simp_all add: e2_def)
  have "e2 = 4 * (?e1 div 4)" unfolding e2_def by (rule minus_mod_eq_mult_div)
  then have e20: "e2 \<noteq> 0" "e2 mod 4 = 0" "e2 < 2 ^ 32" "16 + 4 * ?n \<le> e2" using e2 assms(3,4) by auto
  have m2: "m2 q = m1 q" if "q < e2 \<or> ?e1 \<le> q" for q using that e2(1) by (auto simp: m2_def memset_loop_outside)
  define b where "b = e2 - 4 - 4 * ?n"
  have "up ! k < 2 ^ 32" if "k < ?n" for k using s(3) [rule_format, OF that] assms(4) by simp
  then obtain m3 m' where f: "push_pointers (store32 m2 (e2 - 4) NULL) up ?n (e2 - 4) = (m3, b)"
    "m' = store32 (store32 (store32 m3 (b - 4) b) (b - 8) ?n) (b - 12) 0" "main_frame m' (b - 12) up"
    "\<And>q. q < b - 12 \<or> e2 \<le> q \<Longrightarrow> m' q = m2 q"
    using push_frame [OF s(2) e20(4,2,3), of m2, folded b_def] by blast
  have b: "b + 4 * ?n + 4 = e2" "12 \<le> b" using e20(4) by (auto simp: b_def)
  have "push_padding m1 ?e1 = Some (m2, e2)"
    using e20(1) by (auto simp: push_padding_def Let_def memset_def m2_def e2_def)
  then have "push_args m argv ?n esp = Some (m', b - 12)"
    unfolding push_args_def s(1) f(2) by (simp add: f(1) Let_def)
  moreover have "cstr m' (up ! k) (ts ! k) \<and> b - 12 \<le> up ! k \<and> up ! k + length (ts ! k) < esp" if k: "k < ?n" for k
  proof -
    have "cstr m' (up ! k) (ts ! k) = cstr m1 (up ! k) (ts ! k)"
      using s(3) [rule_format, OF k] f(4) m2 e2(1) by (intro cstr_cong) simp
    moreover have "b - 12 \<le> ?e1" using b e2(1) by linarith
    ultimately show ?thesis using s(3) [rule_format, OF k] by (meson le_trans)
  qed
  moreover have "m' q = m q" if "q < b - 12 \<or> esp \<le> q" for q
  proof -
    have "q < b - 12 \<or> e2 \<le> q" "q < e2 \<or> ?e1 \<le> q" "q < ?e1 \<or> esp \<le> q" using that b e2(1) by linarith+
    then show ?thesis using f(4) m2 s(4) by metis
  qed
  moreover have "b - 12 < esp" "esp \<le> b - 12 + space_for ts + 4 * ?n + 19" using b e2 assms(3) by linarith+
  ultimately show ?thesis using that [of m' "b - 12" up] s(2) f(3) by blast
qed

text \<open>
  C12. The arguments of a new process whose executable was loaded: from the command line, \<open>start_process\<close> builds on the user stack a word-aligned
  frame for \<^verbatim>\<open>main\<close> with a null return address, the number of tokens, and the address of an array of
  pointers which are the addresses of copies of the tokens, in order, followed by a null pointer. The frame takes at
  most the length of the command line, four bytes per token and 20 bytes, and nothing else changes but the
  delimiters inside the command line.
\<close>

theorem start_arguments_layout:
  assumes "cstr m space [32]" "space \<noteq> NULL" "cstr m cmd xs" "space + 1 < cmd \<or> cmd + length xs < space"
    and "length (tokens {32} xs) < 128" "length xs + 4 * length (tokens {32} xs) + 20 < esp" "esp < 2 ^ 32" "esp \<le> cmd"
  shows "\<exists>m' e. start_arguments m space cmd (Some esp) = Some (m', Some e) \<and> e mod 4 = 0 \<and> e < esp \<and>
    esp \<le> e + length xs + 4 * length (tokens {32} xs) + 20 \<and>
    load32 m' e = 0 \<and> load32 m' (e + 4) = length (tokens {32} xs) \<and>
    (\<forall>i < length (tokens {32} xs). cstr m' (load32 m' (load32 m' (e + 8) + 4 * i)) (tokens {32} xs ! i)) \<and>
    load32 m' (load32 m' (e + 8) + 4 * length (tokens {32} xs)) = NULL \<and>
    (\<forall>q. (q < e \<or> esp \<le> q) \<and> (q < cmd \<or> cmd + length xs \<le> q) \<longrightarrow> m' q = m q)"
proof -
  let ?ts = "tokens {32} xs"
  have c0: "cmd \<noteq> NULL" using assms(6,8) by simp
  note rt = rest_of_tokens [OF assms(1-3) c0 assms(4), of 0 "replicate 128 0", folded parse_args_rest]
  obtain m1 argv ps where r: "parse_args m space cmd (replicate 128 0) = Some (m1, argv, length ?ts)" "length argv = 128"
    "take (length ?ts) argv = ps" "list_all2 (placed m1 cmd (length xs)) ps ?ts"
    "\<forall>q. q < cmd \<or> cmd + length xs \<le> q \<longrightarrow> m1 q = m q"
    using rt assms(5) by auto
  have ag: "cstr m1 (argv ! k) (?ts ! k) \<and> esp \<le> argv ! k" if "k < length ?ts" for k
    using list_all2_nthD2 [OF r(4) that] that r(3) assms(8) by (auto simp: placed_def)
  have sp: "space_for ?ts + 4 * length ?ts + 19 < esp" using space_for_tokens [of "{32}" xs] assms(6) by simp
  have la: "length ?ts \<le> length argv" using assms(5) r(2) by simp
  obtain m' e up where p: "push_args m1 argv (length ?ts) esp = Some (m', e)" "length up = length ?ts" "main_frame m' e up"
    "\<And>k. k < length ?ts \<Longrightarrow> cstr m' (up ! k) (?ts ! k) \<and> e \<le> up ! k \<and> up ! k + length (?ts ! k) < esp"
    "e < esp" "esp \<le> e + space_for ?ts + 4 * length ?ts + 19" "\<And>q. q < e \<or> esp \<le> q \<Longrightarrow> m' q = m1 q"
    by (rule push_args_ok [OF la ag sp assms(7)]) blast+
  have "start_arguments m space cmd (Some esp) = Some (m', Some e)" by (simp add: start_arguments_def r(1) p(1))
  moreover have "esp \<le> e + length xs + 4 * length ?ts + 20" using p(6) space_for_tokens [of "{32}" xs] by simp
  moreover have "\<forall>q. (q < e \<or> esp \<le> q) \<and> (q < cmd \<or> cmd + length xs \<le> q) \<longrightarrow> m' q = m q" using p(7) r(5) by metis
  ultimately show ?thesis using p(2,3,4,5) by (auto simp: main_frame_def)
qed

theorem start_arguments_layout_witness:
  "\<exists>m' e. start_arguments ((\<lambda>_. 0)(4 := 32, 5000 := 97, 5001 := 32, 5002 := 98)) 4 5000 (Some 4096) = Some (m', Some e) \<and>
     load32 m' (e + 4) = 2 \<and> cstr m' (load32 m' (load32 m' (e + 8) + 4)) [98]"
proof -
  have tk: "tokens {32} [97, 32, 98] = [[97], [98 :: byte]]" by (simp add: tokens.simps Let_def)
  show ?thesis
    using start_arguments_layout [of "(\<lambda>_. 0)(4 := 32, 5000 := 97, 5001 := 32, 5002 := 98)" 4 5000 "[97, 32, 98]" 4096, unfolded tk]
    by (auto dest: spec [of _ 1])
qed

end
