(* ===== verification/Page_Allocator.thy ===== *)
theory Page_Allocator
  imports Machine_Memory
begin

unbundle bit_operations_syntax

text \<open>
  The page allocator, \<^verbatim>\<open>threads/palloc.c\<close>: two pools of pages, each with a bitmap of the pages in use.
  \<open>allocated s\<close> is the set of the addresses of all pages in use; getting a page adds a new element to it and freeing
  one removes it.
\<close>

subsection \<open>The code\<close>

abbreviation (input) PAL_ASSERT :: nat where "PAL_ASSERT \<equiv> 1"
abbreviation (input) PAL_ZERO :: nat where "PAL_ZERO \<equiv> 2"
abbreviation (input) PAL_USER :: nat where "PAL_USER \<equiv> 4"

definition get_pool :: "bool \<Rightarrow> 'a machine_scheme \<Rightarrow> pool" where
  "get_pool user s = (if user then user_pool s else kernel_pool s)"

definition set_pool :: "bool \<Rightarrow> pool \<Rightarrow> 'a machine_scheme \<Rightarrow> 'a machine_scheme" where
  "set_pool user p s = (if user then s\<lparr>user_pool := p\<rparr> else s\<lparr>kernel_pool := p\<rparr>)"

text \<open>
  The bitmap of a pool lies in the first pages of the pool's memory. Here it is the field \<open>used_map\<close>, and \<open>ram\<close> is not used
  for it: these pages belong to no pool, so that nobody is given them.
\<close>

definition init_pool :: "bool \<Rightarrow> ptr \<Rightarrow> nat \<Rightarrow> 'a machine_scheme \<Rightarrow> 'a machine_scheme option" where
  "init_pool user base page_cnt s = do {
     let bm_pages = DIV_ROUND_UP (bitmap_buf_size page_cnt) PGSIZE;
     ASSERT (bm_pages \<le> page_cnt);
     let page_cnt = page_cnt - bm_pages;
     let s = s\<lparr>locks_held := locks_held s - {Pool_Lock user}\<rparr>;
     let buf = map (\<lambda>i. of_nat (load32 (ram s) (base + 8 + 4 * i))) [0..<(bm_pages * PGSIZE - 8) div 4];
     used \<leftarrow> bitmap_create_in_buf page_cnt buf (bm_pages * PGSIZE);
     Some (set_pool user \<lparr>used_map = used, pool_base = base + bm_pages * PGSIZE\<rparr> s) }"

definition palloc_init :: "nat \<Rightarrow> 'a machine_scheme \<Rightarrow> 'a machine_scheme option" where
  "palloc_init user_page_limit s = do {
     free_start \<leftarrow> ptov (1024 * 1024);
     free_end \<leftarrow> ptov (init_ram_pages s * PGSIZE);
     let free_pages = (free_end - free_start) div PGSIZE;
     let user_pages = free_pages div 2;
     let user_pages = (if user_pages > user_page_limit then user_page_limit else user_pages);
     let kernel_pages = free_pages - user_pages;
     s \<leftarrow> init_pool False free_start kernel_pages s;
     init_pool True (free_start + kernel_pages * PGSIZE) user_pages s }"

definition palloc_get_multiple :: "nat \<Rightarrow> nat \<Rightarrow> 'a machine_scheme \<Rightarrow> ('a machine_scheme \<times> ptr) option" where
  "palloc_get_multiple flags page_cnt s =
     (let user = (flags AND PAL_USER \<noteq> 0) in
      if page_cnt = 0 then Some (s, NULL) else do {
        s \<leftarrow> mutex_acquire (Pool_Lock user) s;
        (used, page_idx) \<leftarrow> bitmap_scan_and_flip (used_map (get_pool user s)) 0 page_cnt False;
        let s = set_pool user ((get_pool user s)\<lparr>used_map := used\<rparr>) s;
        s \<leftarrow> mutex_release (Pool_Lock user) s;
        let pages = (if page_idx \<noteq> BITMAP_ERROR then pool_base (get_pool user s) + PGSIZE * page_idx else NULL);
        if pages \<noteq> NULL then
          if flags AND PAL_ZERO \<noteq> 0
          then do { (m, _) \<leftarrow> memset (ram s) pages 0 (PGSIZE * page_cnt); Some (s\<lparr>ram := m\<rparr>, pages) }
          else Some (s, pages)
        else do { ASSERT (flags AND PAL_ASSERT = 0); Some (s, pages) } })"

definition palloc_get_page :: "nat \<Rightarrow> 'a machine_scheme \<Rightarrow> ('a machine_scheme \<times> ptr) option" where
  "palloc_get_page flags s = palloc_get_multiple flags 1 s"

definition page_from_pool :: "pool \<Rightarrow> ptr \<Rightarrow> bool" where
  "page_from_pool pool page =
     (let page_no = pg_no page; start_page = pg_no (pool_base pool); end_page = start_page + bitmap_size (used_map pool)
      in page_no \<ge> start_page \<and> page_no < end_page)"

definition palloc_free_multiple :: "ptr \<Rightarrow> nat \<Rightarrow> 'a machine_scheme \<Rightarrow> 'a machine_scheme option" where
  "palloc_free_multiple pages page_cnt s = do {
     ASSERT (pg_ofs pages = 0);
     if pages = NULL \<or> page_cnt = 0 then Some s else do {
       user \<leftarrow> (if page_from_pool (kernel_pool s) pages then Some False
               else if page_from_pool (user_pool s) pages then Some True else None);
       let pool = get_pool user s;
       let page_idx = pg_no pages - pg_no (pool_base pool);
       (m, _) \<leftarrow> memset (ram s) pages 0xcc (PGSIZE * page_cnt);
       let s = s\<lparr>ram := m\<rparr>;
       a \<leftarrow> bitmap_all (used_map pool) page_idx page_cnt;
       ASSERT a;
       used \<leftarrow> bitmap_set_multiple (used_map pool) page_idx page_cnt False;
       Some (set_pool user (pool\<lparr>used_map := used\<rparr>) s) } }"

definition palloc_free_page :: "ptr \<Rightarrow> 'a machine_scheme \<Rightarrow> 'a machine_scheme option" where
  "palloc_free_page page s = palloc_free_multiple page 1 s"

subsection \<open>Pages in use\<close>

definition pool_ok :: "pool \<Rightarrow> bool" where
  "pool_ok p \<longleftrightarrow> bm_wf (used_map p) \<and> pg_ofs (pool_base p) = 0 \<and> PHYS_BASE \<le> pool_base p \<and>
     pool_base p + PGSIZE * bit_cnt (used_map p) \<le> 2 ^ 32"

definition pages_of :: "pool \<Rightarrow> ptr set" where
  "pages_of p = {pool_base p + PGSIZE * i | i. i < bit_cnt (used_map p)}"

definition used_of :: "pool \<Rightarrow> ptr set" where
  "used_of p = {pool_base p + PGSIZE * i | i. i < bit_cnt (used_map p) \<and> bm_bit (used_map p) i}"

definition allocated :: "'a machine_scheme \<Rightarrow> ptr set" where
  "allocated s = used_of (kernel_pool s) \<union> used_of (user_pool s)"

definition palloc_inv :: "'a machine_scheme \<Rightarrow> bool" where
  "palloc_inv s \<longleftrightarrow> pool_ok (kernel_pool s) \<and> pool_ok (user_pool s) \<and>
     pool_base (kernel_pool s) + PGSIZE * bit_cnt (used_map (kernel_pool s)) \<le> pool_base (user_pool s)"

lemma get_set_pool [simp]: "get_pool u (set_pool u p s) = p" "locks_held (set_pool u p s) = locks_held s" "ram (set_pool u p s) = ram s"
  by (simp_all add: get_pool_def set_pool_def)

lemma pool_ok_get: "palloc_inv s \<Longrightarrow> pool_ok (get_pool u s)"
  by (simp add: palloc_inv_def get_pool_def)

lemma used_of_cong: "pool_base p' = pool_base p \<Longrightarrow> bit_cnt (used_map p') = bit_cnt (used_map p) \<Longrightarrow>
    bm_bit (used_map p') = bm_bit (used_map p) \<Longrightarrow> used_of p' = used_of p"
  by (simp add: used_of_def)

lemma used_sub_pages: "used_of p \<subseteq> pages_of p"
  by (auto simp: used_of_def pages_of_def)

lemma pages_disjoint: "palloc_inv s \<Longrightarrow> pages_of (kernel_pool s) \<inter> pages_of (user_pool s) = {}"
proof -
  assume a: "palloc_inv s"
  have "x \<noteq> y" if x: "x \<in> pages_of (kernel_pool s)" and y: "y \<in> pages_of (user_pool s)" for x y
  proof -
    obtain i where i: "x = pool_base (kernel_pool s) + PGSIZE * i" "i < bit_cnt (used_map (kernel_pool s))"
      using x by (auto simp: pages_of_def)
    then have "PGSIZE * i < PGSIZE * bit_cnt (used_map (kernel_pool s))" by (intro mult_strict_left_mono) (auto simp: PGSIZE_def)
    moreover have "pool_base (user_pool s) \<le> y" using y by (auto simp: pages_of_def)
    ultimately show ?thesis using a i(1) unfolding palloc_inv_def by linarith
  qed
  then show ?thesis by blast
qed

lemma page_index_inj: "(pool_base p + PGSIZE * i = pool_base p + PGSIZE * j) = (i = j)"
  by (simp add: PGSIZE_def)

lemma allocated_set_pool:
  assumes "palloc_inv s" "pool_ok p" "pool_base p = pool_base (get_pool u s)" "bit_cnt (used_map p) = bit_cnt (used_map (get_pool u s))"
  shows "palloc_inv (set_pool u p s)" "allocated (set_pool u p s) = used_of p \<union> (allocated s - pages_of p)"
proof -
  show "palloc_inv (set_pool u p s)" using assms by (auto simp: palloc_inv_def set_pool_def get_pool_def)
  have pg: "pages_of p = pages_of (get_pool u s)" using assms(3,4) by (simp add: pages_of_def)
  show "allocated (set_pool u p s) = used_of p \<union> (allocated s - pages_of p)"
    unfolding pg using pages_disjoint [OF assms(1)] used_sub_pages [of "kernel_pool s"] used_sub_pages [of "user_pool s"]
    by (auto simp: allocated_def set_pool_def get_pool_def)
qed

subsection \<open>Getting and freeing a page\<close>

text \<open>What the allocator may change.\<close>

definition palloc_frame :: "'a machine_scheme \<Rightarrow> 'a machine_scheme \<Rightarrow> bool" where
  "palloc_frame s s' \<longleftrightarrow> s' = s\<lparr>ram := ram s', kernel_pool := kernel_pool s', user_pool := user_pool s'\<rparr>"

lemma palloc_frameI: "palloc_frame s (s\<lparr>ram := m, kernel_pool := k, user_pool := u\<rparr>)"
  by (simp add: palloc_frame_def)

lemma palloc_frame_ram: "palloc_frame s s' \<Longrightarrow> palloc_frame s (s'\<lparr>ram := m\<rparr>)"
  unfolding palloc_frame_def by (drule arg_cong [where f = "\<lambda>x. x\<lparr>ram := m\<rparr>"]) simp

definition zeroed :: "mem \<Rightarrow> ptr \<Rightarrow> mem" where
  "zeroed m p = (\<lambda>q. if p \<le> q \<and> q < p + PGSIZE then 0 else m q)"

lemma palloc_get_page_spec:
  assumes inv: "palloc_inv s" and l: "Pool_Lock (flags AND PAL_USER \<noteq> 0) \<notin> locks_held s" and f: "flags AND PAL_ASSERT = 0"
  shows "\<exists>s' p. palloc_get_page flags s = Some (s', p) \<and> palloc_inv s' \<and> palloc_frame s s' \<and>
    (if p = NULL then ram s' = ram s \<and> allocated s' = allocated s \<and> pages_of (get_pool (flags AND PAL_USER \<noteq> 0) s) \<subseteq> allocated s
     else p \<in> pages_of (get_pool (flags AND PAL_USER \<noteq> 0) s) \<and> p \<notin> allocated s \<and> allocated s' = insert p (allocated s) \<and>
       ram s' = (if flags AND PAL_ZERO \<noteq> 0 then zeroed (ram s) p else ram s))"
proof -
  define u where "u = (flags AND PAL_USER \<noteq> 0)"
  define P where "P = get_pool u s"
  have ok: "pool_ok P" unfolding P_def using inv by (rule pool_ok_get)
  then have wf: "bm_wf (used_map P)" and b0: "pool_base P \<noteq> 0" by (auto simp: pool_ok_def PHYS_BASE_def)
  obtain b r where sc: "bitmap_scan_and_flip (used_map P) 0 1 False = Some (b, r)" "bm_wf b" "bit_cnt b = bit_cnt (used_map P)"
     "if r = BITMAP_ERROR then b = used_map P \<and> (\<forall>j\<ge>0. \<not> run_at (used_map P) False 1 j)
      else 0 \<le> r \<and> run_at (used_map P) False 1 r \<and> (\<forall>j. 0 \<le> j \<and> j < r \<longrightarrow> \<not> run_at (used_map P) False 1 j) \<and>
           bm_bit b = (\<lambda>j. if r \<le> j \<and> j < r + 1 then \<not> False else bm_bit (used_map P) j)"
    using bitmap_scan_and_flip_abs [OF wf, of 0 1 False] by auto
  define P' where "P' = P\<lparr>used_map := b\<rparr>"
  define p where "p = (if r \<noteq> BITMAP_ERROR then pool_base P + PGSIZE * r else NULL)"
  define s1 where "s1 = set_pool u P' s"
  have ok': "pool_ok P'" using ok sc(2,3) by (simp add: pool_ok_def P'_def)
  have s1: "palloc_inv s1" "allocated s1 = used_of P' \<union> (allocated s - pages_of P')"
    unfolding s1_def using allocated_set_pool [OF inv ok', of u] sc(3) by (auto simp: P'_def P_def)
  have pg: "pages_of P' = pages_of P" using sc(3) by (simp add: pages_of_def P'_def)
  have Pa: "allocated s \<inter> pages_of P = used_of P"
    using pages_disjoint [OF inv] used_sub_pages [of "kernel_pool s"] used_sub_pages [of "user_pool s"]
    by (auto simp: allocated_def P_def get_pool_def)
  have p0: "p = NULL \<longleftrightarrow> r = BITMAP_ERROR" using b0 by (simp add: p_def)
  have lk: "(set_pool u P' (s\<lparr>locks_held := insert (Pool_Lock u) (locks_held s)\<rparr>))\<lparr>locks_held := locks_held s\<rparr> = s1"
    by (simp add: s1_def set_pool_def)
  have gp: "get_pool u (s\<lparr>locks_held := h\<rparr>) = P" for h by (simp add: P_def get_pool_def)
  have ra: "ram s1 = ram s" by (simp add: s1_def)
  have gp1: "pool_base (get_pool u s1) = pool_base P" by (simp add: s1_def P'_def)
  have "palloc_get_page flags s = (if p \<noteq> NULL then
        if flags AND PAL_ZERO \<noteq> 0 then do { (m, _) \<leftarrow> memset (ram s1) p 0 PGSIZE; Some (s1\<lparr>ram := m\<rparr>, p) } else Some (s1, p)
      else do { ASSERT (flags AND PAL_ASSERT = 0); Some (s1, p) })"
    using l [folded u_def] unfolding palloc_get_page_def palloc_get_multiple_def u_def [symmetric] Let_def
    by (simp add: mutex_acquire_def mutex_release_def gp sc(1) [simplified] P'_def [symmetric] lk gp1 ra p_def cong: if_cong)
  then have ru: "palloc_get_page flags s = Some (if p \<noteq> NULL \<and> flags AND PAL_ZERO \<noteq> 0 then s1\<lparr>ram := zeroed (ram s1) p\<rparr> else s1, p)"
    using f by (auto simp: memset_def memset_loop_eq zeroed_def)
  define s' where "s' = (if p \<noteq> NULL \<and> flags AND PAL_ZERO \<noteq> 0 then s1\<lparr>ram := zeroed (ram s1) p\<rparr> else s1)"
  have "palloc_inv s' \<and> allocated s' = allocated s1 \<and> ram s' = (if p \<noteq> NULL \<and> flags AND PAL_ZERO \<noteq> 0 then zeroed (ram s) p else ram s)"
    using s1(1) by (simp add: s'_def palloc_inv_def allocated_def ra)
  moreover have "palloc_frame s s'" by (simp add: s'_def s1_def palloc_frame_def set_pool_def)
  moreover have "if p = NULL then allocated s1 = allocated s \<and> pages_of P \<subseteq> allocated s
      else p \<in> pages_of P \<and> p \<notin> allocated s \<and> allocated s1 = insert p (allocated s)"
  proof (cases "r = BITMAP_ERROR")
    case True
    then have "b = used_map P" "\<And>j. j < bit_cnt (used_map P) \<Longrightarrow> bm_bit (used_map P) j" using sc(4) by (auto simp: run_at_def) (metis le_antisym less_Suc_eq_le Suc_leI)
    then have "used_of P' = pages_of P" "used_of P = pages_of P" by (auto simp: used_of_def pages_of_def P'_def)
    then show ?thesis using True p0 s1(2) pg Pa by auto
  next
    case False
    then have r: "r < bit_cnt (used_map P)" "\<not> bm_bit (used_map P) r" "bm_bit b = (\<lambda>j. j = r \<or> bm_bit (used_map P) j)"
      using sc(4) by (auto simp: run_at_def fun_eq_iff)
    have "used_of P' = insert p (used_of P)"
      using r False sc(3) by (auto simp: used_of_def P'_def p_def)
    moreover have "p \<in> pages_of P" "p \<notin> used_of P"
      using r False by (auto simp: pages_of_def used_of_def p_def PGSIZE_def)
    ultimately show ?thesis using False p0 s1(2) pg Pa by auto
  qed
  ultimately show ?thesis using ru unfolding s'_def [symmetric] u_def [symmetric] P_def [symmetric] by (intro exI [of _ s'] exI [of _ p]) auto
qed

lemma page_from_pool_iff:
  assumes "pool_ok p" "pg_ofs page = 0"
  shows "page_from_pool p page \<longleftrightarrow> page \<in> pages_of p"
    "page \<in> pages_of p \<Longrightarrow> page = pool_base p + PGSIZE * (pg_no page - pg_no (pool_base p)) \<and>
       pg_no page - pg_no (pool_base p) < bit_cnt (used_map p)"
proof -
  have b: "pool_base p = PGSIZE * pg_no (pool_base p)" "page = PGSIZE * pg_no page"
    using assms by (auto simp: pool_ok_def pg_ofs_def pg_no_def PGSIZE_def)
  have in_iff: "page \<in> pages_of p \<longleftrightarrow> (\<exists>i < bit_cnt (used_map p). pg_no page = pg_no (pool_base p) + i)"
  proof -
    have "page = pool_base p + PGSIZE * i \<longleftrightarrow> pg_no page = pg_no (pool_base p) + i" for i
      using b by (metis (no_types) distrib_left mult_left_cancel PGSIZE_def zero_neq_numeral)
    then show ?thesis by (auto simp: pages_of_def)
  qed
  show "page_from_pool p page \<longleftrightarrow> page \<in> pages_of p"
    unfolding in_iff by (auto simp: page_from_pool_def Let_def bitmap_size_def less_diff_conv2 intro!: exI [of _ "pg_no page - pg_no (pool_base p)"])
  assume "page \<in> pages_of p"
  then obtain i where i: "i < bit_cnt (used_map p)" "pg_no page = pg_no (pool_base p) + i" using in_iff by auto
  then show "page = pool_base p + PGSIZE * (pg_no page - pg_no (pool_base p)) \<and> pg_no page - pg_no (pool_base p) < bit_cnt (used_map p)"
    using b by (metis add_diff_cancel_left' distrib_left)
qed

lemma pages_of_aligned: "pool_ok p \<Longrightarrow> page \<in> pages_of p \<Longrightarrow> pg_ofs page = 0 \<and> PHYS_BASE \<le> page \<and> page + PGSIZE \<le> 2 ^ 32"
proof -
  assume a: "pool_ok p" "page \<in> pages_of p"
  then obtain i where i: "i < bit_cnt (used_map p)" "page = pool_base p + PGSIZE * i" by (auto simp: pages_of_def)
  then have "PGSIZE * (i + 1) \<le> PGSIZE * bit_cnt (used_map p)" by (intro mult_le_mono2) simp
  then show ?thesis using a(1) i(2) by (simp add: pool_ok_def pg_ofs_def)
qed

lemma allocated_aligned: "palloc_inv s \<Longrightarrow> p \<in> allocated s \<Longrightarrow> pg_ofs p = 0 \<and> PHYS_BASE \<le> p \<and> p + PGSIZE \<le> 2 ^ 32"
  using pages_of_aligned used_sub_pages unfolding allocated_def palloc_inv_def by blast

definition filled :: "byte \<Rightarrow> mem \<Rightarrow> ptr \<Rightarrow> mem" where
  "filled v m p = (\<lambda>q. if p \<le> q \<and> q < p + PGSIZE then v else m q)"

lemma palloc_free_page_pool:
  assumes inv: "palloc_inv s" and P: "P = get_pool u s" "p \<in> pages_of P" "i = pg_no p - pg_no (pool_base P)"
    and b: "bitmap_set_multiple (used_map P) i 1 False = Some b"
  shows "palloc_free_page p s = (if bm_bit (used_map P) i
      then Some (set_pool u (P\<lparr>used_map := b\<rparr>) (s\<lparr>ram := filled 0xcc (ram s) p\<rparr>)) else None)"
    "bm_bit (used_map P) i \<longleftrightarrow> p \<in> allocated s" "p = pool_base P + PGSIZE * i" "i < bit_cnt (used_map P)"
proof -
  have ok: "pool_ok P" unfolding P(1) using inv by (rule pool_ok_get)
  note al = pages_of_aligned [OF ok P(2)]
  show i: "p = pool_base P + PGSIZE * i" "i < bit_cnt (used_map P)" using page_from_pool_iff [OF ok] al P(2,3) by auto
  have pl: "(if page_from_pool (kernel_pool s) p then Some False else if page_from_pool (user_pool s) p then Some True else None) = Some u"
    using P(1,2) pages_disjoint [OF inv] inv al by (auto simp: page_from_pool_iff palloc_inv_def get_pool_def split: if_splits)
  have "bitmap_all (used_map P) i 1 = Some (bm_bit (used_map P) i)"
    using ok i(2) bitmap_contains_abs [of "used_map P" i 1 False] unfolding bitmap_all_def pool_ok_def
    by (auto simp: less_Suc_eq_le dest: le_antisym)
  then show "palloc_free_page p s = (if bm_bit (used_map P) i
    then Some (set_pool u (P\<lparr>used_map := b\<rparr>) (s\<lparr>ram := filled 0xcc (ram s) p\<rparr>)) else None)"
    using al P pl b by (simp add: palloc_free_page_def palloc_free_multiple_def Let_def memset_def memset_loop_eq filled_def PHYS_BASE_def)
  show "bm_bit (used_map P) i \<longleftrightarrow> p \<in> allocated s"
    using P(1,2) i pages_disjoint [OF inv] used_sub_pages [of "kernel_pool s"] used_sub_pages [of "user_pool s"]
    by (auto simp: allocated_def used_of_def get_pool_def PGSIZE_def split: if_splits)
qed

lemma free_bit:
  assumes "palloc_inv s" "p \<in> pages_of (get_pool u s)"
  obtains b where "bitmap_set_multiple (used_map (get_pool u s)) (pg_no p - pg_no (pool_base (get_pool u s))) 1 False = Some b" "bm_wf b"
    "bit_cnt b = bit_cnt (used_map (get_pool u s))"
    "bm_bit b = (\<lambda>j. j \<noteq> pg_no p - pg_no (pool_base (get_pool u s)) \<and> bm_bit (used_map (get_pool u s)) j)"
proof -
  have ok: "pool_ok (get_pool u s)" using assms(1) by (rule pool_ok_get)
  let ?i = "pg_no p - pg_no (pool_base (get_pool u s))"
  have "?i < bit_cnt (used_map (get_pool u s))" using page_from_pool_iff [OF ok] pages_of_aligned [OF ok assms(2)] assms(2) by auto
  then have le: "?i + 1 \<le> bit_cnt (used_map (get_pool u s))" by simp
  have wf: "bm_wf (used_map (get_pool u s))" using ok by (simp add: pool_ok_def)
  have eq: "(\<lambda>j. if i \<le> j \<and> j < i + 1 then False else f j) = (\<lambda>j. j \<noteq> i \<and> f j)" for i :: nat and f :: "nat \<Rightarrow> bool" by (rule ext) auto
  obtain b where "bitmap_set_multiple (used_map (get_pool u s)) ?i 1 False = Some b" "bm_wf b" "bit_cnt b = bit_cnt (used_map (get_pool u s))"
    "bm_bit b = (\<lambda>j. if ?i \<le> j \<and> j < ?i + 1 then False else bm_bit (used_map (get_pool u s)) j)"
    using bitmap_set_multiple_abs [OF wf le, of False] by blast
  then show ?thesis unfolding eq by (rule that)
qed

lemma palloc_free_page_ok:
  assumes inv: "palloc_inv s" and p: "p \<in> allocated s"
  shows "\<exists>s'. palloc_free_page p s = Some s' \<and> palloc_inv s' \<and> palloc_frame s s' \<and>
      allocated s' = allocated s - {p} \<and> ram s' = filled 0xcc (ram s) p"
proof -
  define u where "u = (p \<in> used_of (user_pool s))"
  have u: "p \<in> pages_of (get_pool u s)" using p used_sub_pages by (auto simp: allocated_def get_pool_def u_def)
  let ?P = "get_pool u s"
  obtain b where b: "bitmap_set_multiple (used_map ?P) (pg_no p - pg_no (pool_base ?P)) 1 False = Some b" "bm_wf b"
    "bit_cnt b = bit_cnt (used_map ?P)" "bm_bit b = (\<lambda>j. j \<noteq> pg_no p - pg_no (pool_base ?P) \<and> bm_bit (used_map ?P) j)"
    by (rule free_bit [OF inv u])
  note fr = palloc_free_page_pool [OF inv refl u refl b(1)]
  define s1 where "s1 = s\<lparr>ram := filled 0xcc (ram s) p\<rparr>"
  define Q where "Q = ?P\<lparr>used_map := b\<rparr>"
  have g1: "get_pool u s1 = ?P" by (simp add: s1_def get_pool_def)
  have i1: "palloc_inv s1" "allocated s1 = allocated s" using inv by (simp_all add: s1_def palloc_inv_def allocated_def)
  have Q: "pool_ok Q" using pool_ok_get [OF inv, of u] b(2,3) by (simp add: Q_def pool_ok_def)
  have "palloc_inv (set_pool u Q s1)" "allocated (set_pool u Q s1) = used_of Q \<union> (allocated s - pages_of Q)"
    using allocated_set_pool [OF i1(1) Q, of u] i1(2) b(3) g1 by (simp_all add: Q_def)
  moreover have "used_of Q \<union> (allocated s - pages_of Q) = allocated s - {p}"
  proof -
    have "pages_of Q = pages_of ?P" using b(3) by (simp add: Q_def pages_of_def)
    moreover have "used_of Q = used_of ?P - {p}" unfolding used_of_def Q_def using b(3,4) fr(3) page_index_inj by auto
    moreover have "allocated s \<inter> pages_of ?P = used_of ?P"
      using pages_disjoint [OF inv] used_sub_pages [of "kernel_pool s"] used_sub_pages [of "user_pool s"]
      by (auto simp: allocated_def get_pool_def)
    ultimately show ?thesis using u by blast
  qed
  moreover have "palloc_free_page p s = Some (set_pool u Q s1)" using fr(1,2) p by (simp add: Q_def s1_def)
  moreover have "palloc_frame s (set_pool u Q s1)" by (simp add: palloc_frame_def s1_def set_pool_def)
  ultimately show ?thesis by (auto simp: s1_def)
qed

lemma palloc_free_page_bad:
  assumes inv: "palloc_inv s" and p: "p \<notin> allocated s" "p \<noteq> NULL"
  shows "palloc_free_page p s = None"
proof (cases "\<exists>u. p \<in> pages_of (get_pool u s)")
  case True
  then obtain u where u: "p \<in> pages_of (get_pool u s)" by blast
  obtain b where "bitmap_set_multiple (used_map (get_pool u s)) (pg_no p - pg_no (pool_base (get_pool u s))) 1 False = Some b"
    by (rule free_bit [OF inv u])
  from palloc_free_page_pool [OF inv refl u refl this] show ?thesis using p(1) by simp
next
  case False
  then have "p \<notin> pages_of (kernel_pool s)" "p \<notin> pages_of (user_pool s)" by (auto simp: get_pool_def split: if_splits)
  then show ?thesis
    using inv p(2) page_from_pool_iff [of "kernel_pool s" p] page_from_pool_iff [of "user_pool s" p]
    by (auto simp: palloc_free_page_def palloc_free_multiple_def palloc_inv_def)
qed

text \<open>
  C8. The page allocator: a page obtained is page-aligned kernel memory that was not in use, it is filled with zeros
  if asked, and nothing else changes; the allocator fails exactly when the pool is exhausted. Freeing the page gives it
  back, and freeing it twice panics.
\<close>

theorem palloc_fresh_page:
  assumes "palloc_inv s" "Pool_Lock (flags AND PAL_USER \<noteq> 0) \<notin> locks_held s" "flags AND PAL_ASSERT = 0"
  shows "\<exists>s' p. palloc_get_page flags s = Some (s', p) \<and> palloc_inv s' \<and>
    (p = NULL \<longleftrightarrow> pages_of (get_pool (flags AND PAL_USER \<noteq> 0) s) \<subseteq> allocated s) \<and>
    (p \<noteq> NULL \<longrightarrow> p \<notin> allocated s \<and> allocated s' = insert p (allocated s) \<and> pg_ofs p = 0 \<and> is_kernel_vaddr p \<and>
      (\<forall>q. ram s' q = (if p \<le> q \<and> q < p + PGSIZE \<and> flags AND PAL_ZERO \<noteq> 0 then 0 else ram s q)) \<and>
      (\<exists>s''. palloc_free_page p s' = Some s'' \<and> palloc_inv s'' \<and> allocated s'' = allocated s \<and> palloc_free_page p s'' = None))"
proof -
  let ?P = "get_pool (flags AND PAL_USER \<noteq> 0) s"
  obtain s' p where g: "palloc_get_page flags s = Some (s', p)" "palloc_inv s'"
    "if p = NULL then ram s' = ram s \<and> allocated s' = allocated s \<and> pages_of ?P \<subseteq> allocated s
     else p \<in> pages_of ?P \<and> p \<notin> allocated s \<and> allocated s' = insert p (allocated s) \<and>
       ram s' = (if flags AND PAL_ZERO \<noteq> 0 then zeroed (ram s) p else ram s)"
    using palloc_get_page_spec [OF assms] by blast
  have "\<exists>s''. palloc_free_page p s' = Some s'' \<and> palloc_inv s'' \<and> allocated s'' = allocated s \<and> palloc_free_page p s'' = None" if p: "p \<noteq> NULL"
  proof -
    have pa: "p \<in> allocated s'" "p \<notin> allocated s" "allocated s' - {p} = allocated s" using g(3) p by auto
    obtain s'' where f: "palloc_free_page p s' = Some s''" "palloc_inv s''" "allocated s'' = allocated s" 
      using palloc_free_page_ok [OF g(2) pa(1)] pa(3) by auto
    then show ?thesis using palloc_free_page_bad [OF f(2) _ p] pa(2) by auto
  qed
  moreover have "pg_ofs p = 0" "is_kernel_vaddr p" if "p \<noteq> NULL"
    using pages_of_aligned [OF pool_ok_get [OF assms(1)]] g(3) that by (auto simp: is_kernel_vaddr_def)
  ultimately show ?thesis using g by (auto simp: zeroed_def split: if_splits)
qed

text \<open>A small machine: a kernel pool of four pages, the first of them in use, and a user pool of two.\<close>

definition small_machine :: machine where
  "small_machine = \<lparr>ram = (\<lambda>_. 0xaa), kernel_pool = \<lparr>used_map = \<lparr>bit_cnt = 4, bits = [1]\<rparr>, pool_base = 0xc0100000\<rparr>,
     user_pool = \<lparr>used_map = \<lparr>bit_cnt = 2, bits = [0]\<rparr>, pool_base = 0xc0200000\<rparr>,
     init_ram_pages = 1024, init_page_dir = 0xc0100000, cr3 = 0x100000, locks_held = {}\<rparr>"

lemma small_machine_inv: "palloc_inv small_machine"
  by (simp add: small_machine_def palloc_inv_def pool_ok_def bm_wf_def elem_cnt_def ELEM_BITS_def pg_ofs_def PGSIZE_def PHYS_BASE_def)

theorem palloc_fresh_page_witness:
  "\<exists>s' p. palloc_get_page PAL_ZERO small_machine = Some (s', p) \<and> p \<noteq> NULL \<and> p \<notin> allocated small_machine"
proof -
  have "0xc0101000 \<in> pages_of (get_pool False small_machine)"
    unfolding pages_of_def by (simp add: get_pool_def small_machine_def PGSIZE_def)
  moreover have "0xc0101000 \<notin> allocated small_machine"
    by (auto simp: allocated_def used_of_def small_machine_def PGSIZE_def bm_bit_def)
  ultimately show ?thesis
    using palloc_fresh_page [of small_machine PAL_ZERO] small_machine_inv by (auto simp: small_machine_def)
qed

subsection \<open>Initialization\<close>

lemma init_pool_ok:
  assumes "1 \<le> n" "n \<le> 16384" "pg_ofs base = 0" "PHYS_BASE \<le> base" "base + PGSIZE * n \<le> 2 ^ 32"
  shows "\<exists>P. init_pool u base n s = Some (set_pool u P (s\<lparr>locks_held := locks_held s - {Pool_Lock u}\<rparr>)) \<and> pool_ok P \<and>
    pool_base P = base + PGSIZE \<and> bit_cnt (used_map P) = n - 1 \<and> used_of P = {}"
proof -
  have ec: "elem_cnt n \<le> 512" "byte_cnt n \<le> 2048" "elem_cnt (n - 1) \<le> 512" using assms(1,2)
    by (auto simp: elem_cnt_def ELEM_BITS_def byte_cnt_def)
  then have bs: "bitmap_buf_size n \<le> 2056" "8 \<le> bitmap_buf_size n" "bitmap_buf_size (n - 1) \<le> 4096"
    by (auto simp: bitmap_buf_size_def byte_cnt_def)
  then have one: "DIV_ROUND_UP (bitmap_buf_size n) PGSIZE = 1"
    unfolding DIV_ROUND_UP_def PGSIZE_def by (intro div_nat_eqI) auto
  define buf :: "u32 list" where "buf = map (\<lambda>i. of_nat (load32 (ram s) (base + 8 + 4 * i))) [0..<(1 * PGSIZE - 8) div 4]"
  have wf: "bm_wf \<lparr>bit_cnt = n - 1, bits = buf\<rparr>" using assms(2) ec(3) by (simp add: bm_wf_def buf_def PGSIZE_def)
  obtain b where b: "bitmap_set_all \<lparr>bit_cnt = n - 1, bits = buf\<rparr> False = Some b" "bm_wf b" "bit_cnt b = n - 1" "\<forall>j<n - 1. \<not> bm_bit b j"
    using bitmap_set_all_abs [OF wf, of False] by auto
  define P where "P = \<lparr>used_map = b, pool_base = base + PGSIZE\<rparr>"
  have "PGSIZE + PGSIZE * (n - 1) = PGSIZE * n" using assms(1) by (cases n) auto
  then have "pool_ok P" using assms b by (simp add: pool_ok_def P_def pg_ofs_def)
  moreover have "bitmap_create_in_buf (n - 1) buf PGSIZE = Some b" using bs b(1) by (simp add: bitmap_create_in_buf_def PGSIZE_def)
  then have "init_pool u base n s = Some (set_pool u P (s\<lparr>locks_held := locks_held s - {Pool_Lock u}\<rparr>))"
    unfolding init_pool_def Let_def one using assms(1) by (simp add: buf_def P_def)
  moreover have "used_of P = {}" using b by (auto simp: used_of_def P_def)
  ultimately show ?thesis using b(3) by (auto simp: P_def)
qed

lemma shift_pages: "{PHYS_BASE + PGSIZE * (i + c) | i. a < i + c \<and> i + c < b} = {PHYS_BASE + PGSIZE * i | i. a < i \<and> i < b}" if "c \<le> Suc a" for a b c
proof -
  have "\<exists>j. i = j + c" if "a < i" for i using that \<open>c \<le> Suc a\<close> by (intro exI [of _ "i - c"]) simp
  then show ?thesis by auto
qed

text \<open>
  C16. Starting the allocator on a machine with at least 258 and at most 16384 pages of memory (64 MB, the most the
  loader reports) and a nonzero limit for the user pool. The memory above the first megabyte is divided: half of it, but at
  most the limit, is the user pool at the end of memory, and the rest is the kernel pool. The first page of each holds its bitmap;
  all other pages up to the end of memory are in the pools, each in exactly one of them, and none is in use.
\<close>

theorem palloc_init_establishes:
  assumes "258 \<le> init_ram_pages s" "init_ram_pages s \<le> 16384" "1 \<le> limit"
  defines "u \<equiv> min ((init_ram_pages s - 256) div 2) limit"
  shows "\<exists>s'. palloc_init limit s = Some s' \<and> palloc_inv s' \<and> allocated s' = {} \<and>
    Pool_Lock True \<notin> locks_held s' \<and> Pool_Lock False \<notin> locks_held s' \<and>
    pages_of (kernel_pool s') = {PHYS_BASE + PGSIZE * i | i. 256 < i \<and> i < init_ram_pages s - u} \<and>
    pages_of (user_pool s') = {PHYS_BASE + PGSIZE * i | i. init_ram_pages s - u < i \<and> i < init_ram_pages s}"
proof -
  define k where "k = init_ram_pages s"
  have ud: "u = (if (k - 256) div 2 > limit then limit else (k - 256) div 2)" by (simp add: u_def k_def min_def)
  define n where "n = k - 256 - u"
  have k: "258 \<le> k" "k \<le> 16384" using assms(1,2) by (auto simp: k_def)
  have u: "1 \<le> u" "u \<le> 16384" "u \<le> limit" "u + n = k - 256" "1 \<le> n" "n \<le> 16384" using k assms(3) by (auto simp: ud n_def)
  let ?b = "0xc0100000 :: nat"
  have f: "ptov (1024 * 1024) = Some ?b" "ptov (k * PGSIZE) = Some (PHYS_BASE + k * PGSIZE)"
    using k by (simp_all add: ptov_def PHYS_BASE_def PGSIZE_def)
  have fp: "(PHYS_BASE + k * PGSIZE - ?b) div PGSIZE = k - 256"
  proof -
    have "PHYS_BASE + k * PGSIZE - ?b = PGSIZE * (k - 256)" using k by (simp add: PHYS_BASE_def PGSIZE_def)
    then show ?thesis by (simp add: PGSIZE_def)
  qed
  obtain P where P: "init_pool False ?b n s = Some (set_pool False P (s\<lparr>locks_held := locks_held s - {Pool_Lock False}\<rparr>))" "pool_ok P"
    "pool_base P = ?b + PGSIZE" "bit_cnt (used_map P) = n - 1" "used_of P = {}"
    using init_pool_ok [of n ?b False s] u(5,6) by (auto simp: pg_ofs_def PGSIZE_def PHYS_BASE_def)
  define s1 where "s1 = set_pool False P (s\<lparr>locks_held := locks_held s - {Pool_Lock False}\<rparr>)"
  have un: "n + u \<le> 16128" using u(4) k by simp
  obtain Q where Q: "init_pool True (?b + n * PGSIZE) u s1 = Some (set_pool True Q (s1\<lparr>locks_held := locks_held s1 - {Pool_Lock True}\<rparr>))" "pool_ok Q"
    "pool_base Q = ?b + n * PGSIZE + PGSIZE" "bit_cnt (used_map Q) = u - 1" "used_of Q = {}"
    using init_pool_ok [of u "?b + n * PGSIZE" True s1] u un by (auto simp: pg_ofs_def PGSIZE_def PHYS_BASE_def)
  define s' where "s' = set_pool True Q (s1\<lparr>locks_held := locks_held s1 - {Pool_Lock True}\<rparr>)"
  have "palloc_init limit s = Some s'"
    unfolding palloc_init_def Let_def k_def [symmetric] f Option.bind.simps fp ud [symmetric] n_def [symmetric] P(1)
      s1_def [symmetric] s'_def by (rule Q(1))
  moreover have kp: "kernel_pool s' = P" "user_pool s' = Q" "locks_held s' = locks_held s - {Pool_Lock False} - {Pool_Lock True}"
    by (simp_all add: s'_def s1_def set_pool_def)
  moreover have "palloc_inv s'" using P Q u(5) kp by (simp add: palloc_inv_def PGSIZE_def)
  moreover have "pages_of P = {PHYS_BASE + PGSIZE * i | i. 256 < i \<and> i < k - u}" (is "_ = ?A")
  proof -
    have base: "pool_base P + PGSIZE * i = PHYS_BASE + PGSIZE * (i + 257)" for i using P(3) by (simp add: PHYS_BASE_def PGSIZE_def)
    have "i < n - 1 \<longleftrightarrow> 256 < i + 257 \<and> i + 257 < k - u" for i using u k by (auto simp: n_def)
    then have "pages_of P = {PHYS_BASE + PGSIZE * (i + 257) | i. 256 < i + 257 \<and> i + 257 < k - u}" unfolding pages_of_def P(4) base by simp
    also have "\<dots> = ?A" by (rule shift_pages) simp
    finally show ?thesis .
  qed
  moreover have "pages_of Q = {PHYS_BASE + PGSIZE * i | i. k - u < i \<and> i < k}" (is "_ = ?B")
  proof -
    have base: "pool_base Q + PGSIZE * i = PHYS_BASE + PGSIZE * (i + (n + 257))" for i using Q(3) by (simp add: PHYS_BASE_def PGSIZE_def)
    have "i < u - 1 \<longleftrightarrow> n + 256 < i + (n + 257) \<and> i + (n + 257) < k" for i using u k by auto
    then have "pages_of Q = {PHYS_BASE + PGSIZE * (i + (n + 257)) | i. n + 256 < i + (n + 257) \<and> i + (n + 257) < k}"
      unfolding pages_of_def Q(4) base by simp
    also have "\<dots> = {PHYS_BASE + PGSIZE * i | i. n + 256 < i \<and> i < k}" using shift_pages [of "n + 257" "n + 256" k] by simp
    also have "n + 256 = k - u" using u k by (simp add: n_def)
    finally show ?thesis .
  qed
  ultimately show ?thesis using P(5) Q(5) by (intro exI [of _ s']) (auto simp: allocated_def k_def)
qed

theorem palloc_init_establishes_witness:
  "\<exists>s'. palloc_init 100 small_machine = Some s' \<and> allocated s' = {} \<and>
     pages_of (user_pool s') = {PHYS_BASE + PGSIZE * i | i. 924 < i \<and> i < 1024}"
  using palloc_init_establishes [of small_machine 100] by (auto simp: small_machine_def)

end
