(* ===== verification/Swap.thy ===== *)
theory Swap
  imports Page_Allocator Block_Device
begin

text \<open>
  The swap partition, \<^verbatim>\<open>vm/swap.c\<close>: slots of eight sectors, and a bitmap of the slots in use. The global
  pointers are null until \<open>swap_init\<close> has run, which is the value \<^term>\<open>None\<close>.
\<close>

record swapm = machine +
  swap_block :: "block option"
  swap_table :: "bitmap option"

definition SECTORS_PER_PAGE :: nat where
  "SECTORS_PER_PAGE = PGSIZE div BLOCK_SECTOR_SIZE"

text \<open>The arguments \<open>m1\<close> and \<open>m2\<close> are the results of the two allocations in \<open>bitmap_create\<close>.\<close>

definition swap_init :: "blocks \<Rightarrow> bool \<Rightarrow> u32 list option \<Rightarrow> 'a swapm_scheme \<Rightarrow> 'a swapm_scheme option" where
  "swap_init bs m1 m2 s = do {
     p \<leftarrow> block_get_role BLOCK_SWAP bs;
     if p = NULL then Some (s\<lparr>swap_block := None\<rparr>) else do {
       b \<leftarrow> block_at bs p;
       let swap_size = block_size b div SECTORS_PER_PAGE;
       t \<leftarrow> bitmap_create swap_size m1 m2;
       t \<leftarrow> (case t of None \<Rightarrow> Some None | Some t \<Rightarrow> map_option Some (bitmap_set_all t False));
       Some (s\<lparr>swap_block := Some b, swap_table := t, locks_held := locks_held s - {Swap_Lock}\<rparr>) } }"

fun write_slot :: "mem \<Rightarrow> ptr \<Rightarrow> nat \<Rightarrow> nat \<Rightarrow> nat \<Rightarrow> block \<Rightarrow> block option" where
  "write_slot m kpage slot i 0 b = Some b"
| "write_slot m kpage slot i (Suc n) b = do {
     let sector = usz (slot * SECTORS_PER_PAGE + i);
     let p = kpage + i * BLOCK_SECTOR_SIZE;
     b \<leftarrow> block_write b sector (map m [p..<p + BLOCK_SECTOR_SIZE]);
     write_slot m kpage slot (i + 1) n b }"

definition put_bytes :: "mem \<Rightarrow> ptr \<Rightarrow> byte list \<Rightarrow> mem" where
  "put_bytes m p bs = (\<lambda>q. if p \<le> q \<and> q < p + length bs then bs ! (q - p) else m q)"

fun read_slot :: "mem \<Rightarrow> ptr \<Rightarrow> nat \<Rightarrow> nat \<Rightarrow> nat \<Rightarrow> block \<Rightarrow> (mem \<times> block) option" where
  "read_slot m kpage slot i 0 b = Some (m, b)"
| "read_slot m kpage slot i (Suc n) b = do {
     let sector = usz (slot * SECTORS_PER_PAGE + i);
     (b, bytes) \<leftarrow> block_read b sector;
     read_slot (put_bytes m (kpage + i * BLOCK_SECTOR_SIZE) bytes) kpage slot (i + 1) n b }"

definition swap_out :: "ptr \<Rightarrow> 'a swapm_scheme \<Rightarrow> ('a swapm_scheme \<times> nat) option" where
  "swap_out kpage s = do {
     s \<leftarrow> mutex_acquire Swap_Lock s;
     t \<leftarrow> swap_table s;
     (t, slot) \<leftarrow> bitmap_scan_and_flip t 0 1 False;
     ASSERT (slot \<noteq> BITMAP_ERROR);
     b \<leftarrow> swap_block s;
     b \<leftarrow> write_slot (ram s) kpage slot 0 SECTORS_PER_PAGE b;
     s \<leftarrow> mutex_release Swap_Lock (s\<lparr>swap_table := Some t, swap_block := Some b\<rparr>);
     Some (s, slot) }"

definition swap_in :: "nat \<Rightarrow> ptr \<Rightarrow> 'a swapm_scheme \<Rightarrow> 'a swapm_scheme option" where
  "swap_in slot kpage s = do {
     s \<leftarrow> mutex_acquire Swap_Lock s;
     t \<leftarrow> swap_table s;
     used \<leftarrow> bitmap_test t slot;
     ASSERT used;
     b \<leftarrow> swap_block s;
     (m, b) \<leftarrow> read_slot (ram s) kpage slot 0 SECTORS_PER_PAGE b;
     t \<leftarrow> bitmap_set t slot False;
     mutex_release Swap_Lock (s\<lparr>ram := m, swap_block := Some b, swap_table := Some t\<rparr>) }"

definition swap_free :: "nat \<Rightarrow> 'a swapm_scheme \<Rightarrow> 'a swapm_scheme option" where
  "swap_free slot s = do {
     s \<leftarrow> mutex_acquire Swap_Lock s;
     t \<leftarrow> swap_table s;
     used \<leftarrow> bitmap_test t slot;
     t \<leftarrow> (if used then bitmap_set t slot False else Some t);
     mutex_release Swap_Lock (s\<lparr>swap_table := Some t\<rparr>) }"

subsection \<open>Slots\<close>

text \<open>The contents of a slot, and the invariant: every slot of the table lies on the device.\<close>

definition slot_data :: "block \<Rightarrow> nat \<Rightarrow> byte list" where
  "slot_data b slot = map (\<lambda>i. b_disk b (slot * SECTORS_PER_PAGE + i div BLOCK_SECTOR_SIZE) ! (i mod BLOCK_SECTOR_SIZE)) [0..<PGSIZE]"

definition swap_ok :: "'a swapm_scheme \<Rightarrow> bool" where
  "swap_ok s \<longleftrightarrow> (\<exists>b t. swap_block s = Some b \<and> swap_table s = Some t \<and> bm_wf t \<and> disk_wf b \<and>
     bit_cnt t * SECTORS_PER_PAGE \<le> b_size b \<and> b_size b < 2 ^ 32)"

definition slot_used :: "'a swapm_scheme \<Rightarrow> nat \<Rightarrow> bool" where
  "slot_used s j \<longleftrightarrow> (case swap_table s of None \<Rightarrow> False | Some t \<Rightarrow> j < bit_cnt t \<and> bm_bit t j)"

definition slots :: "'a swapm_scheme \<Rightarrow> nat" where
  "slots s = (case swap_table s of None \<Rightarrow> 0 | Some t \<Rightarrow> bit_cnt t)"

definition data_of :: "'a swapm_scheme \<Rightarrow> nat \<Rightarrow> byte list" where
  "data_of s j = (case swap_block s of None \<Rightarrow> [] | Some b \<Rightarrow> slot_data b j)"

lemma spp: "SECTORS_PER_PAGE = 8"
  by (simp add: SECTORS_PER_PAGE_def PGSIZE_def BLOCK_SECTOR_SIZE_def)

lemma write_slot_ok:
  assumes "disk_wf b" "b_size b < 2 ^ 32" "slot * 8 + i + n \<le> b_size b"
  shows "\<exists>b'. write_slot m kpage slot i n b = Some b' \<and> disk_wf b' \<and> b_size b' = b_size b \<and>
    (\<forall>x. b_disk b' x = (if slot * 8 + i \<le> x \<and> x < slot * 8 + i + n
       then map m [kpage + (x - slot * 8) * 512..<kpage + (x - slot * 8) * 512 + 512] else b_disk b x))"
  using assms
proof (induction n arbitrary: i b)
  case (Suc n)
  let ?x = "slot * 8 + i" and ?d = "map m [kpage + i * 512..<kpage + i * 512 + 512]"
  define b1 where "b1 = b\<lparr>b_disk := (b_disk b)(?x := ?d), write_cnt := (write_cnt b + 1) mod 2 ^ 64\<rparr>"
  have w: "block_write b (usz ?x) ?d = Some b1"
    using Suc.prems by (simp add: block_write_def check_sector_def b1_def disk_wf_def)
  have b1: "disk_wf b1" "b_size b1 = b_size b" using Suc.prems(1) by (auto simp: disk_wf_def b1_def BLOCK_SECTOR_SIZE_def)
  obtain b' where b': "write_slot m kpage slot (i + 1) n b1 = Some b'" "disk_wf b'" "b_size b' = b_size b"
    "\<forall>x. b_disk b' x = (if slot * 8 + (i + 1) \<le> x \<and> x < slot * 8 + (i + 1) + n
       then map m [kpage + (x - slot * 8) * 512..<kpage + (x - slot * 8) * 512 + 512] else b_disk b1 x)"
    using Suc.IH [of b1 "i + 1"] b1 Suc.prems by auto
  have "write_slot m kpage slot i (Suc n) b = Some b'"
    using w b'(1) by (simp add: spp BLOCK_SECTOR_SIZE_def)
  moreover have "b_disk b' x = (if slot * 8 + i \<le> x \<and> x < slot * 8 + i + Suc n
       then map m [kpage + (x - slot * 8) * 512..<kpage + (x - slot * 8) * 512 + 512] else b_disk b x)" for x
    using b'(4) by (cases "x = ?x") (auto simp: b1_def)
  ultimately show ?case using b'(2,3) by blast
qed auto

lemma read_slot_ok:
  assumes "disk_wf b" "b_size b < 2 ^ 32" "slot * 8 + i + n \<le> b_size b"
  shows "\<exists>m' c. read_slot m kpage slot i n b = Some (m', b\<lparr>read_cnt := c\<rparr>) \<and>
    (\<forall>q. m' q = (if kpage + i * 512 \<le> q \<and> q < kpage + (i + n) * 512
       then b_disk b (slot * 8 + (q - kpage) div 512) ! ((q - kpage) mod 512) else m q))"
  using assms
proof (induction n arbitrary: i b m)
  case (Suc n)
  let ?x = "slot * 8 + i"
  define b1 where "b1 = b\<lparr>read_cnt := (read_cnt b + 1) mod 2 ^ 64\<rparr>"
  define m1 where "m1 = put_bytes m (kpage + i * 512) (b_disk b ?x)"
  have r: "block_read b (usz ?x) = Some (b1, b_disk b ?x)" using Suc.prems by (simp add: block_read_def check_sector_def b1_def)
  have len: "length (b_disk b ?x) = 512" using Suc.prems by (simp add: disk_wf_def BLOCK_SECTOR_SIZE_def)
  have b1: "disk_wf b1" "b_size b1 = b_size b" "b_disk b1 = b_disk b" using Suc.prems(1) by (auto simp: disk_wf_def b1_def)
  obtain m' c where m': "read_slot m1 kpage slot (i + 1) n b1 = Some (m', b1\<lparr>read_cnt := c\<rparr>)"
    "\<forall>q. m' q = (if kpage + (i + 1) * 512 \<le> q \<and> q < kpage + (i + 1 + n) * 512
       then b_disk b (slot * 8 + (q - kpage) div 512) ! ((q - kpage) mod 512) else m1 q)"
    using Suc.IH [of b1 "i + 1" m1] b1 Suc.prems by auto
  have "read_slot m kpage slot i (Suc n) b = Some (m', b\<lparr>read_cnt := c\<rparr>)"
    using r m'(1) by (simp add: spp BLOCK_SECTOR_SIZE_def m1_def b1_def)
  moreover have "m' q = (if kpage + i * 512 \<le> q \<and> q < kpage + (i + Suc n) * 512
       then b_disk b (slot * 8 + (q - kpage) div 512) ! ((q - kpage) mod 512) else m q)" for q
  proof (cases "kpage + i * 512 \<le> q \<and> q < kpage + i * 512 + 512")
    case True
    then obtain j where j: "q = kpage + i * 512 + j" "j < 512" using le_Suc_ex by fastforce
    then have "(q - kpage) div 512 = i" "(q - kpage) mod 512 = j" "q - (kpage + i * 512) = j" by simp_all
    then show ?thesis using True m'(2) len by (simp add: m1_def put_bytes_def)
  next
    case False
    then show ?thesis using m'(2) len by (auto simp: m1_def put_bytes_def)
  qed
  ultimately show ?case by blast
next
  case 0
  have "b = b\<lparr>read_cnt := read_cnt b\<rparr>" by simp
  then show ?case by (intro exI [of _ m] exI [of _ "read_cnt b"]) auto
qed

lemma slot_written:
  assumes "\<And>x. b_disk b' x = (if slot * 8 \<le> x \<and> x < slot * 8 + 8
       then map m [kpage + (x - slot * 8) * 512..<kpage + (x - slot * 8) * 512 + 512] else b_disk b x)"
  shows "slot_data b' slot = page_at m kpage" "j \<noteq> slot \<Longrightarrow> slot_data b' j = slot_data b j"
proof -
  have "b_disk b' (slot * 8 + i div 512) ! (i mod 512) = m (kpage + i)" if "i < 4096" for i
  proof -
    have "i div 512 < 8" using that by (simp add: div_less_iff_less_mult)
    moreover have "kpage + i div 512 * 512 + i mod 512 = kpage + i" by simp
    ultimately show ?thesis using assms [of "slot * 8 + i div 512"] by (simp add: add.commute)
  qed
  then show "slot_data b' slot = page_at m kpage"
    by (intro nth_equalityI) (simp_all add: slot_data_def page_at_def spp BLOCK_SECTOR_SIZE_def PGSIZE_def)
  assume j: "j \<noteq> slot"
  have "b_disk b' (j * 8 + i div 512) = b_disk b (j * 8 + i div 512)" if "i < 4096" for i
  proof -
    have "i div 512 < 8" using that by (simp add: div_less_iff_less_mult)
    then have "\<not> (slot * 8 \<le> j * 8 + i div 512 \<and> j * 8 + i div 512 < slot * 8 + 8)" using j by linarith
    then show ?thesis unfolding assms [of "j * 8 + i div 512"] by (rule if_not_P)
  qed
  then show "slot_data b' j = slot_data b j" by (simp add: slot_data_def spp BLOCK_SECTOR_SIZE_def PGSIZE_def)
qed

lemma swap_out_ok:
  assumes ok: "swap_ok s" and l: "Swap_Lock \<notin> locks_held s" and free: "\<exists>j < slots s. \<not> slot_used s j"
  shows "\<exists>s1 slot b t. swap_out kpage s = Some (s1, slot) \<and> s1 = s\<lparr>swap_block := Some b, swap_table := Some t\<rparr> \<and> swap_ok s1 \<and>
    slots s1 = slots s \<and> slot < slots s \<and> \<not> slot_used s slot \<and> (\<forall>j. slot_used s1 j \<longleftrightarrow> j = slot \<or> slot_used s j) \<and>
    data_of s1 slot = page_at (ram s) kpage \<and> (\<forall>j. j \<noteq> slot \<longrightarrow> data_of s1 j = data_of s j)"
proof -
  obtain b t where bt: "swap_block s = Some b" "swap_table s = Some t" "bm_wf t" "disk_wf b" "bit_cnt t * 8 \<le> b_size b" "b_size b < 2 ^ 32"
    using ok by (auto simp: swap_ok_def spp)
  obtain t' r where sc: "bitmap_scan_and_flip t 0 1 False = Some (t', r)" "bm_wf t'" "bit_cnt t' = bit_cnt t"
     "if r = BITMAP_ERROR then t' = t \<and> (\<forall>j\<ge>0. \<not> run_at t False 1 j)
      else 0 \<le> r \<and> run_at t False 1 r \<and> (\<forall>j. 0 \<le> j \<and> j < r \<longrightarrow> \<not> run_at t False 1 j) \<and>
           bm_bit t' = (\<lambda>j. if r \<le> j \<and> j < r + 1 then \<not> False else bm_bit t j)"
    using bitmap_scan_and_flip_abs [OF bt(3), of 0 1 False] by auto
  have "r \<noteq> BITMAP_ERROR"
  proof
    assume "r = BITMAP_ERROR"
    then have "\<not> run_at t False 1 j" for j using sc(4) by simp
    moreover obtain j where "j < bit_cnt t" "\<not> bm_bit t j" using free bt(2) by (auto simp: slots_def slot_used_def)
    then have "run_at t False 1 j" by (auto simp: run_at_def less_Suc_eq_le dest: le_antisym)
    ultimately show False by blast
  qed
  then have r: "r < bit_cnt t" "\<not> bm_bit t r" "bm_bit t' = (\<lambda>j. j = r \<or> bm_bit t j)" "r \<noteq> BITMAP_ERROR"
    using sc(4) by (auto simp: run_at_def fun_eq_iff)
  have "r * 8 + 0 + 8 \<le> b_size b" using r(1) bt(5) by simp
  from write_slot_ok [OF bt(4,6) this, of "ram s" kpage] obtain b' where b': "write_slot (ram s) kpage r 0 8 b = Some b'" "disk_wf b'"
    "b_size b' = b_size b" "\<And>x. b_disk b' x = (if r * 8 \<le> x \<and> x < r * 8 + 8
       then map (ram s) [kpage + (x - r * 8) * 512..<kpage + (x - r * 8) * 512 + 512] else b_disk b x)" by auto
  define s1 where "s1 = s\<lparr>swap_block := Some b', swap_table := Some t'\<rparr>"
  have "swap_out kpage s = Some (s1, r)"
    using l bt(1,2) sc(1) r(4) b'(1) by (simp add: swap_out_def mutex_acquire_def mutex_release_def spp s1_def)
  moreover have "swap_ok s1" using bt b' sc by (simp add: swap_ok_def s1_def spp)
  moreover have "\<forall>j. slot_used s1 j \<longleftrightarrow> j = r \<or> slot_used s j" using r sc(3) bt(2) by (auto simp: slot_used_def s1_def)
  moreover have "slots s1 = slots s" "r < slots s" "\<not> slot_used s r" using r sc(3) bt(2) by (simp_all add: slots_def s1_def slot_used_def)
  moreover have "data_of s1 r = page_at (ram s) kpage" "\<forall>j. j \<noteq> r \<longrightarrow> data_of s1 j = data_of s j"
    using slot_written [OF b'(4)] bt(1) by (simp_all add: data_of_def s1_def)
  ultimately show ?thesis unfolding s1_def by blast
qed

lemma swap_in_ok:
  assumes ok: "swap_ok s" and l: "Swap_Lock \<notin> locks_held s" and u: "slot_used s slot"
  shows "\<exists>s' b t. swap_in slot kpage s = Some s' \<and> s' = s\<lparr>ram := put_bytes (ram s) kpage (data_of s slot), swap_block := Some b, swap_table := Some t\<rparr> \<and>
    swap_ok s' \<and> slots s' = slots s \<and> (\<forall>j. slot_used s' j \<longleftrightarrow> j \<noteq> slot \<and> slot_used s j) \<and> (\<forall>j. data_of s' j = data_of s j)"
proof -
  obtain b t where bt: "swap_block s = Some b" "swap_table s = Some t" "bm_wf t" "disk_wf b" "bit_cnt t * 8 \<le> b_size b" "b_size b < 2 ^ 32"
    using ok by (auto simp: swap_ok_def spp)
  have i: "slot < bit_cnt t" "bm_bit t slot" using u bt(2) by (auto simp: slot_used_def)
  have "slot * 8 + 0 + 8 \<le> b_size b" using i(1) bt(5) by simp
  from read_slot_ok [OF bt(4,6) this, of "ram s" kpage] obtain m' c where m': "read_slot (ram s) kpage slot 0 8 b = Some (m', b\<lparr>read_cnt := c\<rparr>)"
    "\<And>q. m' q = (if kpage \<le> q \<and> q < kpage + 4096 then b_disk b (slot * 8 + (q - kpage) div 512) ! ((q - kpage) mod 512) else ram s q)" by auto
  have "m' = put_bytes (ram s) kpage (data_of s slot)"
  proof
    fix q show "m' q = put_bytes (ram s) kpage (data_of s slot) q"
      using m'(2) [of q] bt(1) nth_map [of "q - kpage" "[0..<4096]"]
      by (auto simp: put_bytes_def data_of_def slot_data_def spp BLOCK_SECTOR_SIZE_def PGSIZE_def less_diff_conv2)
  qed
  moreover obtain t' where t': "bitmap_set t slot False = Some t'" "bm_wf t'" "bit_cnt t' = bit_cnt t" "bm_bit t' = (bm_bit t)(slot := False)"
    using bitmap_set_abs [OF bt(3) i(1), of False] by auto
  moreover have "bitmap_test t slot = Some True" using bitmap_test_abs [OF bt(3)] i by simp
  moreover define s' where "s' = s\<lparr>ram := m', swap_block := Some (b\<lparr>read_cnt := c\<rparr>), swap_table := Some t'\<rparr>"
  ultimately have "swap_in slot kpage s = Some s'"
    using l bt(1,2) m'(1) by (simp add: swap_in_def mutex_acquire_def mutex_release_def spp)
  moreover have "swap_ok s'" using bt t' by (auto simp: swap_ok_def s'_def spp disk_wf_def)
  moreover have "\<forall>j. slot_used s' j \<longleftrightarrow> j \<noteq> slot \<and> slot_used s j" "slots s' = slots s"
    using t'(3,4) bt(2) by (auto simp: slot_used_def s'_def slots_def)
  moreover have "\<forall>j. data_of s' j = data_of s j" using bt(1) by (simp add: data_of_def s'_def slot_data_def)
  ultimately show ?thesis using \<open>m' = _\<close> unfolding s'_def by blast
qed

lemma swap_out_full:
  assumes ok: "swap_ok s" and l: "Swap_Lock \<notin> locks_held s" and full: "\<forall>j < slots s. slot_used s j"
  shows "swap_out kpage s = None"
proof -
  obtain b t where bt: "swap_block s = Some b" "swap_table s = Some t" "bm_wf t" using ok by (auto simp: swap_ok_def)
  have "\<not> run_at t False 1 j" for j using full bt(2) by (auto simp: slots_def slot_used_def run_at_def)
  moreover obtain t' r where sc: "bitmap_scan_and_flip t 0 1 False = Some (t', r)"
     "if r = BITMAP_ERROR then t' = t \<and> (\<forall>j\<ge>0. \<not> run_at t False 1 j)
      else 0 \<le> r \<and> run_at t False 1 r \<and> (\<forall>j. 0 \<le> j \<and> j < r \<longrightarrow> \<not> run_at t False 1 j) \<and>
           bm_bit t' = (\<lambda>j. if r \<le> j \<and> j < r + 1 then \<not> False else bm_bit t j)"
    using bitmap_scan_and_flip_abs [OF bt(3), of 0 1 False] by auto
  ultimately have "r = BITMAP_ERROR" by (auto split: if_splits)
  then show ?thesis using l bt sc(1) by (simp add: swap_out_def mutex_acquire_def)
qed

text \<open>
  C7. A page written to swap is stored in a slot that was free, no other slot changes, and reading the slot into any
  frame, whatever happened to the memory meanwhile, restores the page there, changes no other byte and frees exactly
  that slot. When all slots are in use writing a page panics.
\<close>

theorem swap_roundtrip:
  assumes "swap_ok s" "Swap_Lock \<notin> locks_held s"
  shows "if \<forall>j < slots s. slot_used s j then swap_out kpage s = None
    else \<exists>s1 slot. swap_out kpage s = Some (s1, slot) \<and> \<not> slot_used s slot \<and>
      (\<forall>j. slot_used s1 j \<longleftrightarrow> j = slot \<or> slot_used s j) \<and> (\<forall>j. j \<noteq> slot \<longrightarrow> data_of s1 j = data_of s j) \<and>
      (\<forall>m frame. \<exists>s2. swap_in slot frame (s1\<lparr>ram := m\<rparr>) = Some s2 \<and> page_at (ram s2) frame = page_at (ram s) kpage \<and>
        (\<forall>q. q < frame \<or> frame + PGSIZE \<le> q \<longrightarrow> ram s2 q = m q) \<and> (\<forall>j. slot_used s2 j \<longleftrightarrow> slot_used s j))"
proof (cases "\<forall>j < slots s. slot_used s j")
  case True
  then show ?thesis using swap_out_full [OF assms True] by simp
next
  case False
  then have free: "\<exists>j < slots s. \<not> slot_used s j" by blast
  obtain s1 slot b t where o: "swap_out kpage s = Some (s1, slot)" "s1 = s\<lparr>swap_block := Some b, swap_table := Some t\<rparr>" "swap_ok s1"
    "\<not> slot_used s slot" "\<forall>j. slot_used s1 j \<longleftrightarrow> j = slot \<or> slot_used s j" "data_of s1 slot = page_at (ram s) kpage"
    "\<forall>j. j \<noteq> slot \<longrightarrow> data_of s1 j = data_of s j"
    using swap_out_ok [OF assms free, of kpage] by metis
  have "\<exists>s2. swap_in slot frame (s1\<lparr>ram := m\<rparr>) = Some s2 \<and> page_at (ram s2) frame = page_at (ram s) kpage \<and>
        (\<forall>q. q < frame \<or> frame + PGSIZE \<le> q \<longrightarrow> ram s2 q = m q) \<and> (\<forall>j. slot_used s2 j \<longleftrightarrow> slot_used s j)" for m frame
  proof -
    let ?s = "s1\<lparr>ram := m\<rparr>"
    have l: "Swap_Lock \<notin> locks_held ?s" "slot_used ?s slot" "swap_ok ?s" "data_of ?s slot = page_at (ram s) kpage"
      using assms(2) o by (simp_all add: slot_used_def swap_ok_def data_of_def)
    obtain s2 b' t' where i: "swap_in slot frame ?s = Some s2"
      "s2 = ?s\<lparr>ram := put_bytes m frame (page_at (ram s) kpage), swap_block := Some b', swap_table := Some t'\<rparr>"
      "\<forall>j. slot_used s2 j \<longleftrightarrow> j \<noteq> slot \<and> slot_used ?s j"
      using swap_in_ok [OF l(3,1,2), of frame] l(4) by auto
    have "\<forall>j. slot_used s2 j \<longleftrightarrow> slot_used s j" using i(3) o(4,5) by (auto simp: slot_used_def)
    moreover have "page_at (put_bytes m frame (page_at (ram s) kpage)) frame = page_at (ram s) kpage"
      by (rule nth_equalityI) (simp_all add: page_at_def put_bytes_def)
    ultimately show ?thesis using i(1,2) by (auto simp: put_bytes_def)
  qed
  then show ?thesis using False o(1,4,5,7) by auto
qed

definition small_swap :: swapm where
  "small_swap = machine.extend small_machine \<lparr>swap_block = Some \<lparr>b_name = ''hdd1'', b_type = BLOCK_SWAP, b_size = 16, b_disk = (\<lambda>_. replicate 512 0),
     read_cnt = 0, write_cnt = 0\<rparr>, swap_table = Some \<lparr>bit_cnt = 2, bits = [1]\<rparr>\<rparr>"

theorem swap_roundtrip_witness: "\<exists>s1 slot. swap_out 0xc0200000 small_swap = Some (s1, slot) \<and> \<not> slot_used small_swap slot"
proof -
  have "swap_ok small_swap" "Swap_Lock \<notin> locks_held small_swap"
    by (simp_all add: small_swap_def small_machine_def machine.defs swap_ok_def spp bm_wf_def elem_cnt_def ELEM_BITS_def disk_wf_def BLOCK_SECTOR_SIZE_def)
  moreover have "\<not> slot_used small_swap 1" "1 < slots small_swap"
    by (simp_all add: small_swap_def machine.defs small_machine_def slot_used_def slots_def bm_bit_def)
  ultimately show ?thesis using swap_roundtrip [of small_swap "0xc0200000"] by (auto split: if_splits)
qed

end
