(* ===== verification/Page_Dir.thy ===== *)
theory Page_Dir
  imports Page_Allocator
begin

unbundle bit_operations_syntax

text \<open>
  Page directories, \<^verbatim>\<open>userprog/pagedir.c\<close> with the entry formats of \<^verbatim>\<open>threads/pte.h\<close>: two levels of tables
  stored as words in pages of the kernel pool. The hardware reads the same words, which is why the entries are kept
  bit by bit. \<open>entry m pd va\<close> is the page table entry that the tables hold for an address; the operations are shown to
  change exactly the entry of one page, and so to maintain a map from user pages to frames. The translation lookaside
  buffer is not modelled: reloading \<open>cr3\<close> is what flushes it.
\<close>

subsection \<open>Entries\<close>

definition PTE_ADDR :: u32 where "PTE_ADDR = 0xfffff000"
definition PTE_P :: u32 where "PTE_P = 0x1"
definition PTE_W :: u32 where "PTE_W = 0x2"
definition PTE_U :: u32 where "PTE_U = 0x4"
definition PTE_A :: u32 where "PTE_A = 0x20"
definition PTE_D :: u32 where "PTE_D = 0x40"

lemmas PTE_defs = PTE_ADDR_def PTE_P_def PTE_W_def PTE_U_def PTE_A_def PTE_D_def

definition pt_no :: "ptr \<Rightarrow> nat" where
  "pt_no va = va div 2 ^ 12 mod 2 ^ 10"

definition pd_no :: "ptr \<Rightarrow> nat" where
  "pd_no va = va div 2 ^ 22"

definition pde_create :: "ptr \<Rightarrow> u32 option" where
  "pde_create pt = do { ASSERT (pg_ofs pt = 0); p \<leftarrow> vtop pt; Some (of_nat p OR PTE_U OR PTE_P OR PTE_W) }"

definition pde_get_pt :: "u32 \<Rightarrow> ptr option" where
  "pde_get_pt pde = do { ASSERT (pde AND PTE_P \<noteq> 0); ptov (unat (pde AND PTE_ADDR)) }"

definition pte_create_kernel :: "ptr \<Rightarrow> bool \<Rightarrow> u32 option" where
  "pte_create_kernel page writable = do {
     ASSERT (pg_ofs page = 0);
     p \<leftarrow> vtop page;
     Some (of_nat p OR PTE_P OR (if writable then PTE_W else 0)) }"

definition pte_create_user :: "ptr \<Rightarrow> bool \<Rightarrow> u32 option" where
  "pte_create_user page writable = do { e \<leftarrow> pte_create_kernel page writable; Some (e OR PTE_U) }"

definition pte_get_page :: "u32 \<Rightarrow> ptr option" where
  "pte_get_page pte = ptov (unat (pte AND PTE_ADDR))"

definition load_word :: "mem \<Rightarrow> ptr \<Rightarrow> u32" where
  "load_word m p = of_nat (load32 m p)"

definition store_word :: "mem \<Rightarrow> ptr \<Rightarrow> u32 \<Rightarrow> mem" where
  "store_word m p w = store32 m p (unat w)"

subsection \<open>The code\<close>

text \<open>
  The translation cache of the processor is not part of the machine: translations are always those of the tables in memory, and
  \<open>invalidate_pagedir\<close>, which loads \<^verbatim>\<open>CR3\<close> again to empty the cache, has no other effect.
\<close>

definition pagedir_activate :: "ptr \<Rightarrow> 'a machine_scheme \<Rightarrow> 'a machine_scheme option" where
  "pagedir_activate pd s = do {
     let pd = (if pd = NULL then init_page_dir s else pd);
     p \<leftarrow> vtop pd;
     Some (s\<lparr>cr3 := p\<rparr>) }"

definition active_pd :: "'a machine_scheme \<Rightarrow> ptr option" where
  "active_pd s = ptov (cr3 s)"

definition invalidate_pagedir :: "ptr \<Rightarrow> 'a machine_scheme \<Rightarrow> 'a machine_scheme option" where
  "invalidate_pagedir pd s = do {
     a \<leftarrow> active_pd s;
     if a = pd then pagedir_activate pd s else Some s }"

definition pagedir_create :: "'a machine_scheme \<Rightarrow> ('a machine_scheme \<times> ptr) option" where
  "pagedir_create s = do {
     (s, pd) \<leftarrow> palloc_get_page 0 s;
     if pd \<noteq> NULL
     then do { (m, _) \<leftarrow> memcpy (ram s) pd (init_page_dir s) PGSIZE; Some (s\<lparr>ram := m\<rparr>, pd) }
     else Some (s, pd) }"

text \<open>The loops of \<open>pagedir_destroy\<close>; the last argument is the number of entries left.\<close>

fun free_pages_loop :: "ptr \<Rightarrow> nat \<Rightarrow> 'a machine_scheme \<Rightarrow> 'a machine_scheme option" where
  "free_pages_loop pte 0 s = Some s"
| "free_pages_loop pte (Suc n) s = do {
     let e = load_word (ram s) pte;
     s \<leftarrow> (if e AND PTE_P \<noteq> 0 then do { p \<leftarrow> pte_get_page e; palloc_free_page p s } else Some s);
     free_pages_loop (pte + 4) n s }"

fun free_tables_loop :: "ptr \<Rightarrow> nat \<Rightarrow> 'a machine_scheme \<Rightarrow> 'a machine_scheme option" where
  "free_tables_loop pde 0 s = Some s"
| "free_tables_loop pde (Suc n) s = do {
     let e = load_word (ram s) pde;
     s \<leftarrow> (if e AND PTE_P \<noteq> 0
           then do { pt \<leftarrow> pde_get_pt e; s \<leftarrow> free_pages_loop pt (PGSIZE div 4) s; palloc_free_page pt s }
           else Some s);
     free_tables_loop (pde + 4) n s }"

definition pagedir_destroy :: "ptr \<Rightarrow> 'a machine_scheme \<Rightarrow> 'a machine_scheme option" where
  "pagedir_destroy pd s =
     (if pd = NULL then Some s else do {
        ASSERT (pd \<noteq> init_page_dir s);
        s \<leftarrow> free_tables_loop pd (pd_no PHYS_BASE) s;
        palloc_free_page pd s })"

definition lookup_page :: "ptr \<Rightarrow> ptr \<Rightarrow> bool \<Rightarrow> 'a machine_scheme \<Rightarrow> ('a machine_scheme \<times> ptr) option" where
  "lookup_page pd vaddr create s = do {
     ASSERT (pd \<noteq> NULL);
     ASSERT (\<not> create \<or> is_user_vaddr vaddr);
     let pde = pd + 4 * pd_no vaddr;
     (s, ok) \<leftarrow> (if load_word (ram s) pde = 0
        then if create
          then do {
            (s, pt) \<leftarrow> palloc_get_page PAL_ZERO s;
            if pt = NULL then Some (s, False)
            else do { e \<leftarrow> pde_create pt; Some (s\<lparr>ram := store_word (ram s) pde e\<rparr>, True) } }
          else Some (s, False)
        else Some (s, True));
     if \<not> ok then Some (s, NULL)
     else do { pt \<leftarrow> pde_get_pt (load_word (ram s) pde); Some (s, pt + 4 * pt_no vaddr) } }"

definition pagedir_set_page :: "ptr \<Rightarrow> ptr \<Rightarrow> ptr \<Rightarrow> bool \<Rightarrow> 'a machine_scheme \<Rightarrow> ('a machine_scheme \<times> bool) option" where
  "pagedir_set_page pd upage kpage writable s = do {
     ASSERT (pg_ofs upage = 0);
     ASSERT (pg_ofs kpage = 0);
     ASSERT (is_user_vaddr upage);
     f \<leftarrow> vtop kpage;
     ASSERT (f div 2 ^ 12 < init_ram_pages s);
     ASSERT (pd \<noteq> init_page_dir s);
     (s, pte) \<leftarrow> lookup_page pd upage True s;
     if pte \<noteq> NULL then do {
       ASSERT (load_word (ram s) pte AND PTE_P = 0);
       e \<leftarrow> pte_create_user kpage writable;
       Some (s\<lparr>ram := store_word (ram s) pte e\<rparr>, True) }
     else Some (s, False) }"

definition pagedir_get_page :: "ptr \<Rightarrow> ptr \<Rightarrow> 'a machine_scheme \<Rightarrow> ptr option" where
  "pagedir_get_page pd uaddr s = do {
     ASSERT (is_user_vaddr uaddr);
     (s, pte) \<leftarrow> lookup_page pd uaddr False s;
     if pte \<noteq> NULL \<and> load_word (ram s) pte AND PTE_P \<noteq> 0
     then do { p \<leftarrow> pte_get_page (load_word (ram s) pte); Some (p + pg_ofs uaddr) }
     else Some NULL }"

definition pagedir_clear_page :: "ptr \<Rightarrow> ptr \<Rightarrow> 'a machine_scheme \<Rightarrow> 'a machine_scheme option" where
  "pagedir_clear_page pd upage s = do {
     ASSERT (pg_ofs upage = 0);
     ASSERT (is_user_vaddr upage);
     (s, pte) \<leftarrow> lookup_page pd upage False s;
     if pte \<noteq> NULL \<and> load_word (ram s) pte AND PTE_P \<noteq> 0
     then invalidate_pagedir pd (s\<lparr>ram := store_word (ram s) pte (load_word (ram s) pte AND NOT PTE_P)\<rparr>)
     else Some s }"

definition pagedir_is_dirty :: "ptr \<Rightarrow> ptr \<Rightarrow> 'a machine_scheme \<Rightarrow> bool option" where
  "pagedir_is_dirty pd vpage s = do {
     (s, pte) \<leftarrow> lookup_page pd vpage False s;
     Some (pte \<noteq> NULL \<and> load_word (ram s) pte AND PTE_D \<noteq> 0) }"

definition pagedir_set_dirty :: "ptr \<Rightarrow> ptr \<Rightarrow> bool \<Rightarrow> 'a machine_scheme \<Rightarrow> 'a machine_scheme option" where
  "pagedir_set_dirty pd vpage dirty s = do {
     (s, pte) \<leftarrow> lookup_page pd vpage False s;
     if pte \<noteq> NULL then
       if dirty then Some (s\<lparr>ram := store_word (ram s) pte (load_word (ram s) pte OR PTE_D)\<rparr>)
       else invalidate_pagedir pd (s\<lparr>ram := store_word (ram s) pte (load_word (ram s) pte AND NOT PTE_D)\<rparr>)
     else Some s }"

definition pagedir_is_accessed :: "ptr \<Rightarrow> ptr \<Rightarrow> 'a machine_scheme \<Rightarrow> bool option" where
  "pagedir_is_accessed pd vpage s = do {
     (s, pte) \<leftarrow> lookup_page pd vpage False s;
     Some (pte \<noteq> NULL \<and> load_word (ram s) pte AND PTE_A \<noteq> 0) }"

definition pagedir_set_accessed :: "ptr \<Rightarrow> ptr \<Rightarrow> bool \<Rightarrow> 'a machine_scheme \<Rightarrow> 'a machine_scheme option" where
  "pagedir_set_accessed pd vpage accessed s = do {
     (s, pte) \<leftarrow> lookup_page pd vpage False s;
     if pte \<noteq> NULL then
       if accessed then Some (s\<lparr>ram := store_word (ram s) pte (load_word (ram s) pte OR PTE_A)\<rparr>)
       else invalidate_pagedir pd (s\<lparr>ram := store_word (ram s) pte (load_word (ram s) pte AND NOT PTE_A)\<rparr>)
     else Some s }"

subsection \<open>Words and entries\<close>

lemma load32_less: "load32 m p < 2 ^ 32"
proof -
  have "unat (m q) < 256" for q using unsigned_less [of "m q"] by simp
  then have "unat (m p) \<le> 255" "unat (m (p + 1)) \<le> 255" "unat (m (p + 2)) \<le> 255" "unat (m (p + 3)) \<le> 255"
    by (simp_all add: less_Suc_eq_le [symmetric])
  then show ?thesis unfolding load32_def by simp
qed

lemma load_store_word: "load_word (store_word m p w) p = w"
proof -
  have "unat w < 2 ^ 32" using unsigned_less [of w] by simp
  then show ?thesis by (simp add: load_word_def store_word_def load32_store32)
qed

lemma load_store_word_other: "p + 4 \<le> q \<or> q + 4 \<le> p \<Longrightarrow> load_word (store_word m p w) q = load_word m q"
  by (simp add: load_word_def store_word_def load32_store32_other)

lemma load_word_cong: "(\<And>x. p \<le> x \<Longrightarrow> x < p + 4 \<Longrightarrow> m' x = m x) \<Longrightarrow> load_word m' p = load_word m p"
  unfolding load_word_def by (rule arg_cong [where f = of_nat], rule load32_cong) auto

lemma PTE_ADDR_mask: "PTE_ADDR = NOT (mask 12)"
  by (simp add: PTE_ADDR_def mask_eq_exp_minus_1)

lemma aligned_bit: "p mod 4096 = 0 \<Longrightarrow> n < 12 \<Longrightarrow> \<not> bit (p :: nat) n"
proof -
  assume a: "p mod 4096 = 0" "n < 12"
  then have "p = push_bit 12 (p div 4096)" by (simp add: push_bit_eq_mult) (metis add_0_right div_mult_mod_eq)
  then show ?thesis using a(2) by (metis bit_push_bit_iff_nat not_le)
qed

lemma aligned_or_addr:
  fixes f :: u32
  assumes p: "p mod 4096 = 0" and f: "f AND NOT (mask 12) = 0"
  shows "(of_nat p OR f) AND PTE_ADDR = of_nat p"
proof (rule bit_word_eqI)
  fix n assume n: "n < LENGTH(32)"
  have "\<not> bit f n" if "12 \<le> n"
  proof -
    have "\<not> bit (f AND NOT (mask 12)) n" using f by simp
    then show ?thesis using n that by (simp add: bit_simps)
  qed
  then show "bit ((of_nat p OR f) AND PTE_ADDR) n = bit (of_nat p :: u32) n"
    using n aligned_bit [OF p, of n] by (auto simp: PTE_ADDR_mask bit_simps)
qed

text \<open>A page of kernel memory, and the entries that point to it.\<close>

definition kpg :: "ptr \<Rightarrow> bool" where
  "kpg p \<longleftrightarrow> pg_ofs p = 0 \<and> PHYS_BASE \<le> p \<and> p + PGSIZE \<le> 2 ^ 32"

definition pde_word :: "ptr \<Rightarrow> u32" where
  "pde_word pt = of_nat (pt - PHYS_BASE) OR PTE_U OR PTE_P OR PTE_W"

definition pte_word :: "ptr \<Rightarrow> bool \<Rightarrow> u32" where
  "pte_word p w = of_nat (p - PHYS_BASE) OR PTE_P OR (if w then PTE_W else 0) OR PTE_U"

lemma kpg_frame:
  assumes "kpg p"
  shows "(p - PHYS_BASE) mod 4096 = 0" "unat (of_nat (p - PHYS_BASE) :: u32) = p - PHYS_BASE" "p - PHYS_BASE < PHYS_BASE" "vtop p = Some (p - PHYS_BASE)"
    "ptov (p - PHYS_BASE) = Some p"
proof -
  have "PHYS_BASE mod 4096 = 0" by (simp add: PHYS_BASE_def)
  then show "(p - PHYS_BASE) mod 4096 = 0" using assms by (metis kpg_def pg_ofs_def PGSIZE_def dvd_eq_mod_eq_0 dvd_diff_nat)
  show lt: "p - PHYS_BASE < PHYS_BASE" "vtop p = Some (p - PHYS_BASE)" "ptov (p - PHYS_BASE) = Some p"
    using assms by (auto simp: kpg_def vtop_def ptov_def is_kernel_vaddr_def PHYS_BASE_def PGSIZE_def)
  then show "unat (of_nat (p - PHYS_BASE) :: u32) = p - PHYS_BASE" by (simp add: unat_of_nat PHYS_BASE_def)
qed

lemma PTE_P_bit: "w AND PTE_P \<noteq> 0 \<longleftrightarrow> bit w 0"
  by (simp add: PTE_P_def and_exp_eq_0_iff_not_bit [of w 0, simplified])

lemma flags_small: "(PTE_U OR PTE_P OR PTE_W) AND NOT (mask 12) = 0" "(PTE_P OR (if w then PTE_W else 0) OR PTE_U) AND NOT (mask 12) = 0"
  by (simp_all add: PTE_defs mask_eq_exp_minus_1)

lemma pde_word_props:
  assumes "kpg pt"
  shows "pde_create pt = Some (pde_word pt)" "pde_get_pt (pde_word pt) = Some pt" "pde_word pt \<noteq> 0"
proof -
  note f = kpg_frame [OF assms]
  show "pde_create pt = Some (pde_word pt)" using assms f(4) by (simp add: pde_create_def pde_word_def kpg_def)
  have b: "bit (pde_word pt) 0" by (simp add: pde_word_def PTE_defs bit_simps)
  then show "pde_word pt \<noteq> 0" by auto
  have "pde_word pt AND PTE_ADDR = of_nat (pt - PHYS_BASE)"
    unfolding pde_word_def using aligned_or_addr [OF f(1) flags_small(1)] by (simp add: or.assoc)
  then show "pde_get_pt (pde_word pt) = Some pt" using b f by (simp add: pde_get_pt_def PTE_P_bit)
qed

lemma pte_word_props:
  assumes "kpg p"
  shows "pte_create_user p w = Some (pte_word p w)" "pte_get_page (pte_word p w) = Some p" "bit (pte_word p w) 0"
proof -
  note f = kpg_frame [OF assms]
  show "pte_create_user p w = Some (pte_word p w)"
    using assms f(4) by (simp add: pte_create_user_def pte_create_kernel_def pte_word_def kpg_def or.assoc)
  show "bit (pte_word p w) 0" by (simp add: pte_word_def PTE_defs bit_simps)
  have "pte_word p w AND PTE_ADDR = of_nat (p - PHYS_BASE)"
    unfolding pte_word_def using aligned_or_addr [OF f(1) flags_small(2)] by (simp add: or.assoc)
  then show "pte_get_page (pte_word p w) = Some p" using f by (simp add: pte_get_page_def)
qed

subsection \<open>The two levels of tables\<close>

text \<open>
  \<open>pd_ok A m pd T\<close>: the user part of the page directory \<open>pd\<close> is empty where \<open>T\<close> has no table and refers to the
  table that \<open>T\<close> has otherwise; the directory and the tables are different pages of the set \<open>A\<close>.
\<close>

definition pd_ok :: "ptr set \<Rightarrow> mem \<Rightarrow> ptr \<Rightarrow> (nat \<Rightarrow> ptr option) \<Rightarrow> bool" where
  "pd_ok A m pd T \<longleftrightarrow> pd \<in> A \<and> (\<forall>p \<in> A. kpg p) \<and>
     (\<forall>i < 768. load_word m (pd + 4 * i) = (case T i of None \<Rightarrow> 0 | Some pt \<Rightarrow> pde_word pt)) \<and>
     (\<forall>i < 768. \<forall>pt. T i = Some pt \<longrightarrow> pt \<in> A \<and> pt \<noteq> pd) \<and>
     (\<forall>i < 768. \<forall>j < 768. i \<noteq> j \<longrightarrow> T i \<noteq> None \<longrightarrow> T i \<noteq> T j)"

definition entry :: "mem \<Rightarrow> (nat \<Rightarrow> ptr option) \<Rightarrow> ptr \<Rightarrow> u32" where
  "entry m T va = (case T (pd_no va) of None \<Rightarrow> 0 | Some pt \<Rightarrow> load_word m (pt + 4 * pt_no va))"

lemma user_pd_no: "is_user_vaddr va \<Longrightarrow> pd_no va < 768"
  by (simp add: is_user_vaddr_def pd_no_def PHYS_BASE_def div_less_iff_less_mult)

lemma pt_no_less: "pt_no va < 1024"
  by (simp add: pt_no_def)

lemma same_page: "pg_round_down a = pg_round_down b \<longleftrightarrow> pd_no a = pd_no b \<and> pt_no a = pt_no b"
proof -
  have r: "pg_round_down x = 4096 * (x div 4096)" for x by (simp add: pg_round_down_def PGSIZE_def minus_mod_eq_mult_div)
  have n: "pd_no x = x div 4096 div 1024" "pt_no x = x div 4096 mod 1024" for x
    by (simp_all add: pd_no_def pt_no_def div_mult2_eq [symmetric])
  have q: "x = y \<longleftrightarrow> x div 1024 = y div 1024 \<and> x mod 1024 = y mod 1024" for x y :: nat by (metis mult_div_mod_eq)
  have "pg_round_down a = pg_round_down b \<longleftrightarrow> a div 4096 = b div 4096" unfolding r by simp
  also have "\<dots> \<longleftrightarrow> pd_no a = pd_no b \<and> pt_no a = pt_no b" unfolding n by (rule q)
  finally show ?thesis .
qed

lemma lookup_page_read:
  assumes "pd_ok A (ram s) pd T" "is_user_vaddr va"
  shows "lookup_page pd va False s = Some (s, case T (pd_no va) of None \<Rightarrow> NULL | Some pt \<Rightarrow> pt + 4 * pt_no va)"
proof -
  have i: "pd_no va < 768" using assms(2) by (rule user_pd_no)
  have pd: "kpg pd" using assms(1) by (auto simp: pd_ok_def)
  show ?thesis
  proof (cases "T (pd_no va)")
    case None
    then have "load_word (ram s) (pd + 4 * pd_no va) = 0" using assms(1) i by (simp add: pd_ok_def)
    then show ?thesis using None pd by (simp add: lookup_page_def kpg_def PHYS_BASE_def)
  next
    case (Some pt)
    then have "load_word (ram s) (pd + 4 * pd_no va) = pde_word pt" "kpg pt" using assms(1) i by (auto simp: pd_ok_def)
    then show ?thesis using Some pd pde_word_props [of pt] by (simp add: lookup_page_def kpg_def PHYS_BASE_def)
  qed
qed

lemma page_range: "kpg p \<Longrightarrow> kpg q \<Longrightarrow> p \<noteq> q \<Longrightarrow> i < 1024 \<Longrightarrow> j < 1024 \<Longrightarrow> p + 4 * i + 4 \<le> q + 4 * j \<or> q + 4 * j + 4 \<le> p + 4 * i"
proof -
  assume a: "kpg p" "kpg q" "p \<noteq> q" "i < 1024" "j < 1024"
  have "p + PGSIZE \<le> q \<or> q + PGSIZE \<le> p"
    using aligned_disjoint [of p q q] aligned_disjoint [of q p p] a(1-3) by (auto simp: kpg_def pg_ofs_def PGSIZE_def)
  then show ?thesis using a(4,5) by (auto simp: PGSIZE_def)
qed

lemma store_entry:
  assumes ok: "pd_ok A m pd T" and pt: "T i = Some pt" "i < 768" and j: "j < 1024"
  shows "pd_ok A (store_word m (pt + 4 * j) w) pd T"
    "is_user_vaddr va \<Longrightarrow> entry (store_word m (pt + 4 * j) w) T va = (if pd_no va = i \<and> pt_no va = j then w else entry m T va)"
proof -
  have pd: "kpg pd" "kpg pt" "pt \<noteq> pd" using ok pt by (auto simp: pd_ok_def)
  have "load_word (store_word m (pt + 4 * j) w) (pd + 4 * k) = load_word m (pd + 4 * k)" if "k < 768" for k
    using page_range [OF pd(2,1,3) j, of k] that by (intro load_store_word_other) auto
  then show "pd_ok A (store_word m (pt + 4 * j) w) pd T" using ok by (simp add: pd_ok_def)
  assume va: "is_user_vaddr va"
  show "entry (store_word m (pt + 4 * j) w) T va = (if pd_no va = i \<and> pt_no va = j then w else entry m T va)"
  proof (cases "T (pd_no va)")
    case None
    then show ?thesis using pt(1) by (auto simp: entry_def)
  next
    case (Some pt')
    then have "pt' = pt \<longleftrightarrow> pd_no va = i" "kpg pt'" using ok pt user_pd_no [OF va] by (auto simp: pd_ok_def) metis+
    moreover have "load_word (store_word m (pt + 4 * j) w) (pt + 4 * pt_no va) = (if pt_no va = j then w else load_word m (pt + 4 * pt_no va))"
      by (auto simp: load_store_word intro!: load_store_word_other)
    moreover have "load_word (store_word m (pt + 4 * j) w) (pt' + 4 * pt_no va) = load_word m (pt' + 4 * pt_no va)" if "pt' \<noteq> pt"
      using page_range [OF pd(2) \<open>kpg pt'\<close> that [symmetric] j pt_no_less] by (intro load_store_word_other) auto
    ultimately show ?thesis using Some by (auto simp: entry_def)
  qed
qed

lemma new_table:
  assumes ok: "pd_ok A m pd T" and i: "T i = None" "i < 768" and pt: "kpg pt" "pt \<notin> A"
  defines "m' \<equiv> store_word (zeroed m pt) (pd + 4 * i) (pde_word pt)"
  shows "pd_ok (insert pt A) m' pd (T(i \<mapsto> pt))" "is_user_vaddr va \<Longrightarrow> entry m' (T(i \<mapsto> pt)) va = entry m T va"
proof -
  have pd: "kpg pd" "pt \<noteq> pd" "pd \<in> A" using ok pt by (auto simp: pd_ok_def)
  have z: "load_word (zeroed m pt) (q + 4 * k) = load_word m (q + 4 * k)" if q: "q \<in> A" and k: "k < 1024" for q k
  proof -
    have "kpg q" "q \<noteq> pt" using ok q pt by (auto simp: pd_ok_def)
    then show ?thesis
      using aligned_disjoint [of pt q] pt(1) k by (intro load_word_cong) (fastforce simp: zeroed_def kpg_def pg_ofs_def PGSIZE_def)
  qed
  have z0: "load_word (zeroed m pt) (pt + 4 * k) = 0" if "k < 1024" for k
    using that by (simp add: load_word_def load32_def zeroed_def PGSIZE_def)
  have "load_word m' (pd + 4 * k) = (if k = i then pde_word pt else load_word m (pd + 4 * k))" if "k < 768" for k
  proof (cases "k = i")
    case False
    then have "pd + 4 * i + 4 \<le> pd + 4 * k \<or> pd + 4 * k + 4 \<le> pd + 4 * i" by linarith
    then show ?thesis using z [OF pd(3), of k] that False load_store_word_other by (simp add: m'_def)
  qed (simp add: m'_def load_store_word)
  then show "pd_ok (insert pt A) m' pd (T(i \<mapsto> pt))"
    using ok i pt pd(2) by (auto simp: pd_ok_def split: if_splits)
  assume va: "is_user_vaddr va"
  show "entry m' (T(i \<mapsto> pt)) va = entry m T va"
  proof (cases "pd_no va = i")
    case True
    have "load_word m' (pt + 4 * pt_no va) = 0"
      unfolding m'_def using page_range [OF pd(1) pt(1) pd(2) [symmetric], of i "pt_no va"] pt_no_less [of va] i(2) z0
      by (subst load_store_word_other) auto
    then show ?thesis using True i(1) by (simp add: entry_def)
  next
    case False
    show ?thesis
    proof (cases "T (pd_no va)")
      case (Some pt')
      then have "pt' \<in> A" "kpg pt'" "pt' \<noteq> pd" using ok user_pd_no [OF va] by (auto simp: pd_ok_def)
      then have "load_word m' (pt' + 4 * pt_no va) = load_word m (pt' + 4 * pt_no va)"
        unfolding m'_def using page_range [OF pd(1) \<open>kpg pt'\<close>, of i "pt_no va"] pt_no_less [of va] i(2) z [of pt' "pt_no va"]
        by (subst load_store_word_other) auto
      then show ?thesis using Some False by (simp add: entry_def)
    qed (use False in \<open>simp add: entry_def\<close>)
  qed
qed

subsection \<open>The operations on entries\<close>

definition pd_wf :: "'a machine_scheme \<Rightarrow> ptr \<Rightarrow> (nat \<Rightarrow> ptr option) \<Rightarrow> bool" where
  "pd_wf s pd T \<longleftrightarrow> palloc_inv s \<and> pd_ok (allocated s) (ram s) pd T"

definition pte_at :: "(nat \<Rightarrow> ptr option) \<Rightarrow> ptr \<Rightarrow> ptr" where
  "pte_at T va = (case T (pd_no va) of None \<Rightarrow> NULL | Some pt \<Rightarrow> pt + 4 * pt_no va)"

lemma lookup_page_entry:
  assumes "pd_wf s pd T" "is_user_vaddr va"
  shows "lookup_page pd va False s = Some (s, pte_at T va)" "pte_at T va = NULL \<Longrightarrow> entry (ram s) T va = 0"
    "pte_at T va \<noteq> NULL \<Longrightarrow> load_word (ram s) (pte_at T va) = entry (ram s) T va"
proof -
  show "lookup_page pd va False s = Some (s, pte_at T va)"
    using lookup_page_read [of "allocated s" s pd T va] assms by (simp add: pd_wf_def pte_at_def)
  show "pte_at T va = NULL \<Longrightarrow> entry (ram s) T va = 0"
  proof (cases "T (pd_no va)")
    case (Some pt)
    then have "kpg pt" using assms user_pd_no [OF assms(2)] by (auto simp: pd_wf_def pd_ok_def)
    then show "pte_at T va = NULL \<Longrightarrow> entry (ram s) T va = 0" using Some by (simp add: pte_at_def kpg_def PHYS_BASE_def)
  qed (simp add: entry_def)
  show "pte_at T va \<noteq> NULL \<Longrightarrow> load_word (ram s) (pte_at T va) = entry (ram s) T va"
    by (auto simp: pte_at_def entry_def split: option.splits)
qed

lemma get_page_entry:
  assumes "pd_wf s pd T" "is_user_vaddr va"
  shows "pagedir_get_page pd va s =
    (if bit (entry (ram s) T va) 0 then map_option (\<lambda>p. p + pg_ofs va) (pte_get_page (entry (ram s) T va)) else Some NULL)"
  using lookup_page_entry [OF assms] assms(2)
  by (cases "pte_at T va = NULL") (auto simp: pagedir_get_page_def PTE_P_bit map_option_case Option.bind_map_option split: option.splits)

lemma store_pte:
  assumes wf: "pd_wf s pd T" and u: "is_user_vaddr u" "pte_at T u \<noteq> NULL"
  shows "pd_wf (s\<lparr>ram := store_word (ram s) (pte_at T u) w\<rparr>) pd T"
    "is_user_vaddr va \<Longrightarrow> entry (store_word (ram s) (pte_at T u) w) T va =
      (if pg_round_down va = pg_round_down u then w else entry (ram s) T va)"
proof -
  obtain pt where pt: "T (pd_no u) = Some pt" "pte_at T u = pt + 4 * pt_no u" using u(2) by (auto simp: pte_at_def split: option.splits)
  have ok: "pd_ok (allocated s) (ram s) pd T" using wf by (simp add: pd_wf_def)
  note se = store_entry [OF ok pt(1) user_pd_no [OF u(1)] pt_no_less [of u]]
  show "pd_wf (s\<lparr>ram := store_word (ram s) (pte_at T u) w\<rparr>) pd T"
    using wf se(1) by (simp add: pd_wf_def pt(2) palloc_inv_def allocated_def)
  show "is_user_vaddr va \<Longrightarrow> entry (store_word (ram s) (pte_at T u) w) T va =
      (if pg_round_down va = pg_round_down u then w else entry (ram s) T va)"
    using se(2) [of va w] by (auto simp: pt(2) same_page)
qed

lemma lookup_page_create:
  assumes wf: "pd_wf s pd T" and va: "is_user_vaddr va" and l: "Pool_Lock False \<notin> locks_held s"
  shows "\<exists>s' T'. lookup_page pd va True s = Some (s', pte_at T' va) \<and> pd_wf s' pd T' \<and> palloc_frame s s' \<and>
    (\<forall>v. is_user_vaddr v \<longrightarrow> entry (ram s') T' v = entry (ram s) T v) \<and>
    (pte_at T' va = NULL \<longrightarrow> pages_of (kernel_pool s) \<subseteq> allocated s) \<and> allocated s \<subseteq> allocated s'"
proof (cases "T (pd_no va)")
  case (Some pt)
  have pd: "kpg pd" "kpg pt" "load_word (ram s) (pd + 4 * pd_no va) = pde_word pt"
    using wf Some user_pd_no [OF va] by (auto simp: pd_wf_def pd_ok_def)
  then have "lookup_page pd va True s = Some (s, pte_at T va)"
    using Some pde_word_props [OF pd(2)] va by (simp add: lookup_page_def kpg_def PHYS_BASE_def pte_at_def)
  moreover have "pte_at T va \<noteq> NULL" using Some pd(2) by (simp add: pte_at_def kpg_def PHYS_BASE_def)
  ultimately show ?thesis using wf by (intro exI [of _ s] exI [of _ T]) (simp add: palloc_frame_def)
next
  case None
  have pd: "kpg pd" "load_word (ram s) (pd + 4 * pd_no va) = 0" and inv: "palloc_inv s"
    using wf None user_pd_no [OF va] by (auto simp: pd_wf_def pd_ok_def)
  have fl: "((PAL_ZERO :: nat) AND PAL_USER \<noteq> 0) = False" "((PAL_ZERO :: nat) AND PAL_ZERO \<noteq> 0) = True" by simp_all
  obtain s1 pt where g: "palloc_get_page PAL_ZERO s = Some (s1, pt)" "palloc_inv s1" "palloc_frame s s1"
    "if pt = NULL then ram s1 = ram s \<and> allocated s1 = allocated s \<and> pages_of (get_pool False s) \<subseteq> allocated s
     else pt \<in> pages_of (get_pool False s) \<and> pt \<notin> allocated s \<and> allocated s1 = insert pt (allocated s) \<and> ram s1 = zeroed (ram s) pt"
    using palloc_get_page_spec [OF inv, of PAL_ZERO, unfolded fl if_True] l by auto
  show ?thesis
  proof (cases "pt = NULL")
    case True
    then have "lookup_page pd va True s = Some (s1, NULL)" using pd va g(1) by (simp add: lookup_page_def kpg_def PHYS_BASE_def)
    moreover have "pd_wf s1 pd T" using True g(2,4) wf by (simp add: pd_wf_def)
    ultimately show ?thesis using True g None
      by (intro exI [of _ s1] exI [of _ T]) (simp add: pte_at_def get_pool_def)
  next
    case False
    have pt: "kpg pt" "pt \<notin> allocated s" using False g(4) pages_of_aligned [OF pool_ok_get [OF inv]] by (auto simp: kpg_def)
    define s' where "s' = s1\<lparr>ram := store_word (ram s1) (pd + 4 * pd_no va) (pde_word pt)\<rparr>"
    have r': "ram s' = store_word (zeroed (ram s) pt) (pd + 4 * pd_no va) (pde_word pt)" "allocated s' = insert pt (allocated s)"
      using g(4) False by (simp_all add: s'_def allocated_def)
    have ok: "pd_ok (allocated s) (ram s) pd T" using wf by (simp add: pd_wf_def)
    note nt = new_table [OF ok None user_pd_no [OF va] pt, folded r']
    have "lookup_page pd va True s = Some (s', pte_at (T(pd_no va \<mapsto> pt)) va)"
      using False pd va g(1) pde_word_props [OF pt(1)]
      by (simp add: lookup_page_def kpg_def PHYS_BASE_def pte_at_def s'_def load_store_word)
    moreover have "pd_wf s' pd (T(pd_no va \<mapsto> pt))" using nt(1) g(2) r' by (simp add: pd_wf_def s'_def palloc_inv_def)
    moreover have "palloc_frame s s'" unfolding s'_def using g(3) by (rule palloc_frame_ram)
    moreover have "pte_at (T(pd_no va \<mapsto> pt)) va \<noteq> NULL" using pt(1) by (simp add: pte_at_def kpg_def PHYS_BASE_def)
    ultimately show ?thesis using nt(2) r'(2) by (intro exI [of _ s'] exI [of _ "T(pd_no va \<mapsto> pt)"]) auto
  qed
qed

lemma invalidate_frame:
  assumes "cr3 s < PHYS_BASE" "is_kernel_vaddr pd"
  shows "\<exists>c. invalidate_pagedir pd s = Some (s\<lparr>cr3 := c\<rparr>)"
  using assms by (auto simp: invalidate_pagedir_def active_pd_def ptov_def pagedir_activate_def vtop_def is_kernel_vaddr_def PHYS_BASE_def
      intro: exI [of _ "cr3 s"])

lemma pd_wf_cr3: "pd_wf (s\<lparr>cr3 := c\<rparr>) pd T = pd_wf s pd T"
  by (simp add: pd_wf_def palloc_inv_def allocated_def)

lemma set_page_entry:
  assumes wf: "pd_wf s pd T" and l: "Pool_Lock False \<notin> locks_held s" and u: "pg_ofs upage = 0" "is_user_vaddr upage"
    and k: "kpg kpage" "(kpage - PHYS_BASE) div 4096 < init_ram_pages s" and pd: "pd \<noteq> init_page_dir s"
    and free: "\<not> bit (entry (ram s) T upage) 0"
  shows "\<exists>s' ok T'. pagedir_set_page pd upage kpage w s = Some (s', ok) \<and> pd_wf s' pd T' \<and> palloc_frame s s' \<and>
    (\<forall>v. is_user_vaddr v \<longrightarrow> entry (ram s') T' v = (if ok \<and> pg_round_down v = upage then pte_word kpage w else entry (ram s) T v)) \<and>
    (\<not> ok \<longrightarrow> pages_of (kernel_pool s) \<subseteq> allocated s) \<and> allocated s \<subseteq> allocated s'"
proof -
  obtain s1 T' where g: "lookup_page pd upage True s = Some (s1, pte_at T' upage)" "pd_wf s1 pd T'" "palloc_frame s s1"
    "\<forall>v. is_user_vaddr v \<longrightarrow> entry (ram s1) T' v = entry (ram s) T v"
    "pte_at T' upage = NULL \<longrightarrow> pages_of (kernel_pool s) \<subseteq> allocated s" "allocated s \<subseteq> allocated s1"
    using lookup_page_create [OF wf u(2) l] by metis
  note le = lookup_page_entry [OF g(2) u(2)] and kf = kpg_frame [OF k(1)] and pw = pte_word_props [OF k(1), of w]
  have k0: "pg_ofs kpage = 0" using k(1) by (simp add: kpg_def)
  show ?thesis
  proof (cases "pte_at T' upage = NULL")
    case True
    then have "pagedir_set_page pd upage kpage w s = Some (s1, False)"
      using u k0 kf(4) k(2) pd g(1) by (simp add: pagedir_set_page_def)
    then show ?thesis using True g by (intro exI [of _ s1] exI [of _ False] exI [of _ T']) simp
  next
    case False
    have "\<not> bit (load_word (ram s1) (pte_at T' upage)) 0" using le(3) [OF False] g(4) u(2) free by simp
    then have p0: "load_word (ram s1) (pte_at T' upage) AND PTE_P = 0" using PTE_P_bit by blast
    define s' where "s' = s1\<lparr>ram := store_word (ram s1) (pte_at T' upage) (pte_word kpage w)\<rparr>"
    have "pagedir_set_page pd upage kpage w s = Some (s', True)"
      using u k0 kf(4) k(2) pd g(1) False p0 pw(1) by (simp add: pagedir_set_page_def s'_def)
    moreover have "pd_wf s' pd T'" unfolding s'_def using store_pte(1) [OF g(2) u(2) False] .
    moreover have "palloc_frame s s'" unfolding s'_def using g(3) by (rule palloc_frame_ram)
    moreover have "allocated s' = allocated s1" by (simp add: s'_def allocated_def)
    moreover have "\<forall>v. is_user_vaddr v \<longrightarrow> entry (ram s') T' v = (if pg_round_down v = upage then pte_word kpage w else entry (ram s) T v)"
      using store_pte(2) [OF g(2) u(2) False] g(4) pg_round_down_aligned [OF u(1)] by (simp add: s'_def)
    ultimately show ?thesis using g(6) by (intro exI [of _ s'] exI [of _ True] exI [of _ T']) simp
  qed
qed

lemma clear_page_entry:
  assumes wf: "pd_wf s pd T" and c: "cr3 s < PHYS_BASE" and u: "pg_ofs upage = 0" "is_user_vaddr upage"
  shows "\<exists>s'. pagedir_clear_page pd upage s = Some s' \<and> pd_wf s' pd T \<and>
    (\<forall>v. is_user_vaddr v \<longrightarrow> entry (ram s') T v =
       (if pg_round_down v = upage \<and> bit (entry (ram s) T v) 0 then entry (ram s) T v AND NOT PTE_P else entry (ram s) T v))"
proof -
  note le = lookup_page_entry [OF wf u(2)]
  have sp: "entry (ram s) T v = entry (ram s) T upage" if "pg_round_down v = upage" for v
    using that same_page [of v upage] pg_round_down_aligned [OF u(1)] by (simp add: entry_def split: option.split)
  show ?thesis
  proof (cases "pte_at T upage \<noteq> NULL \<and> bit (entry (ram s) T upage) 0")
    case False
    then have "pagedir_clear_page pd upage s = Some s" using u le by (auto simp: pagedir_clear_page_def PTE_P_bit)
    moreover have "\<not> bit (entry (ram s) T upage) 0" using False le(2) by auto
    then have "\<not> bit (entry (ram s) T v) 0" if "pg_round_down v = upage" for v using sp [OF that] by (simp only: not_False_eq_True)
    ultimately show ?thesis using wf by (intro exI [of _ s]) auto
  next
    case True
    define s1 where "s1 = s\<lparr>ram := store_word (ram s) (pte_at T upage) (entry (ram s) T upage AND NOT PTE_P)\<rparr>"
    have "is_kernel_vaddr pd" using wf by (auto simp: pd_wf_def pd_ok_def kpg_def is_kernel_vaddr_def)
    then obtain c' where iv: "invalidate_pagedir pd s1 = Some (s1\<lparr>cr3 := c'\<rparr>)" using invalidate_frame [of s1 pd] c by (auto simp: s1_def)
    have "pagedir_clear_page pd upage s = Some (s1\<lparr>cr3 := c'\<rparr>)"
      using True u le iv by (simp add: pagedir_clear_page_def PTE_P_bit s1_def)
    moreover have "pd_wf (s1\<lparr>cr3 := c'\<rparr>) pd T" using store_pte(1) [OF wf u(2)] True by (simp add: s1_def pd_wf_cr3)
    moreover have "entry (ram (s1\<lparr>cr3 := c'\<rparr>)) T v = (if pg_round_down v = upage \<and> bit (entry (ram s) T v) 0
        then entry (ram s) T v AND NOT PTE_P else entry (ram s) T v)" if v: "is_user_vaddr v" for v
    proof (cases "pg_round_down v = upage")
      case True
      then show ?thesis
        using store_pte(2) [OF wf u(2) _ v] \<open>pte_at T upage \<noteq> NULL \<and> _\<close> pg_round_down_aligned [OF u(1)] by (simp add: s1_def sp [OF True])
    next
      case False
      then show ?thesis
        using store_pte(2) [OF wf u(2) _ v] \<open>pte_at T upage \<noteq> NULL \<and> _\<close> pg_round_down_aligned [OF u(1)] by (simp add: s1_def)
    qed
    ultimately show ?thesis by (intro exI [of _ "s1\<lparr>cr3 := c'\<rparr>"]) simp
  qed
qed

text \<open>
  C5. A page directory is a map from user pages to frames. Installing a page that is not mapped makes every address in
  it translate to the frame and keeps the translation of all other user addresses; it fails, changing no translation,
  only when the kernel pool is exhausted. Clearing the page restores the translations there were before.
\<close>

theorem pagedir_refines_map:
  assumes "pd_wf s pd T" "Pool_Lock False \<notin> locks_held s" "cr3 s < PHYS_BASE" "pg_ofs upage = 0" "is_user_vaddr upage"
    and "kpg kpage" "(kpage - PHYS_BASE) div 4096 < init_ram_pages s" "pd \<noteq> init_page_dir s" and free: "\<not> bit (entry (ram s) T upage) 0"
  shows "\<exists>s' ok. pagedir_set_page pd upage kpage w s = Some (s', ok) \<and>
    (\<forall>va. is_user_vaddr va \<longrightarrow> pagedir_get_page pd va s' =
       (if ok \<and> pg_round_down va = upage then Some (kpage + pg_ofs va) else pagedir_get_page pd va s)) \<and>
    (\<not> ok \<longrightarrow> pages_of (kernel_pool s) \<subseteq> allocated s) \<and>
    (\<exists>s''. pagedir_clear_page pd upage s' = Some s'' \<and> (\<forall>va. is_user_vaddr va \<longrightarrow> pagedir_get_page pd va s'' = pagedir_get_page pd va s))"
proof -
  obtain s' ok T' where s: "pagedir_set_page pd upage kpage w s = Some (s', ok)" "pd_wf s' pd T'" "palloc_frame s s'"
    "\<forall>v. is_user_vaddr v \<longrightarrow> entry (ram s') T' v = (if ok \<and> pg_round_down v = upage then pte_word kpage w else entry (ram s) T v)"
    "\<not> ok \<longrightarrow> pages_of (kernel_pool s) \<subseteq> allocated s"
    using set_page_entry [OF assms(1,2,4,5,6,7,8) free] by metis
  have c': "cr3 s' < PHYS_BASE" using arg_cong [where f = cr3, OF s(3) [unfolded palloc_frame_def]] assms(3) by simp
  obtain s'' where c: "pagedir_clear_page pd upage s' = Some s''" "pd_wf s'' pd T'"
    "\<forall>v. is_user_vaddr v \<longrightarrow> entry (ram s'') T' v =
       (if pg_round_down v = upage \<and> bit (entry (ram s') T' v) 0 then entry (ram s') T' v AND NOT PTE_P else entry (ram s') T' v)"
    using clear_page_entry [OF s(2) c' assms(4,5)] by blast
  note pw = pte_word_props [OF assms(6), of w]
  have "pagedir_get_page pd va s' = (if ok \<and> pg_round_down va = upage then Some (kpage + pg_ofs va) else pagedir_get_page pd va s)"
    if "is_user_vaddr va" for va
    using get_page_entry [OF s(2) that] get_page_entry [OF assms(1) that] s(4) that pw by auto
  moreover have "pagedir_get_page pd va s'' = pagedir_get_page pd va s" if "is_user_vaddr va" for va
  proof -
    have nb: "\<not> bit (x AND NOT PTE_P) 0" for x :: u32 by (simp add: PTE_P_def bit_simps)
    show ?thesis
    proof (cases "pg_round_down va = upage")
      case True
      then have "\<not> bit (entry (ram s) T va) 0"
        using free same_page [of va upage] pg_round_down_aligned [OF assms(4)] by (simp add: entry_def split: option.splits)
      then show ?thesis using get_page_entry [OF c(2) that] get_page_entry [OF assms(1) that] c(3) s(4) that True nb by auto
    next
      case False
      then show ?thesis using get_page_entry [OF c(2) that] get_page_entry [OF assms(1) that] c(3) s(4) that by auto
    qed
  qed
  ultimately show ?thesis using s(1,5) c(1) by blast
qed

text \<open>A machine whose only page in use holds an empty page directory.\<close>

definition empty_pd_machine :: machine where
  "empty_pd_machine = small_machine\<lparr>ram := \<lambda>_. 0, init_page_dir := 0xc0000000\<rparr>"

lemma empty_pd_wf: "pd_wf empty_pd_machine 0xc0100000 (\<lambda>_. None)"
proof -
  have "allocated empty_pd_machine = {0xc0100000}"
    by (auto simp: allocated_def used_of_def empty_pd_machine_def small_machine_def PGSIZE_def bm_bit_def bit_1_iff)
  then show ?thesis using small_machine_inv
    by (simp add: pd_wf_def pd_ok_def empty_pd_machine_def palloc_inv_def kpg_def pg_ofs_def PGSIZE_def PHYS_BASE_def load_word_def load32_def)
qed

theorem pagedir_refines_map_witness:
  "\<exists>s' ok. pagedir_set_page 0xc0100000 0x8048000 0xc0200000 True empty_pd_machine = Some (s', ok) \<and>
     (ok \<longrightarrow> pagedir_get_page 0xc0100000 0x8048010 s' = Some 0xc0200010)"
proof -
  have "pg_round_down 0x8048010 = 0x8048000" "pg_ofs 0x8048010 = 0x10" "is_user_vaddr 0x8048010"
    by (simp_all add: pg_round_down_def pg_ofs_def PGSIZE_def is_user_vaddr_def PHYS_BASE_def)
  then show ?thesis
    using pagedir_refines_map [OF empty_pd_wf, where upage = "0x8048000" and kpage = "0xc0200000" and w = True]
    by (auto simp: empty_pd_machine_def small_machine_def pg_ofs_def PGSIZE_def is_user_vaddr_def PHYS_BASE_def kpg_def entry_def)
qed

end
