(* ===== verification/Hash_Table.thy ===== *)
theory Hash_Table
  imports Kernel_List_Sort Machine_Memory
begin

unbundle bit_operations_syntax

text \<open>
  The hash tables of \<^verbatim>\<open>lib/kernel/hash.c\<close>. A table is an array of buckets, each the list of its elements; the
  linked lists themselves are the subject of \<open>Kernel_List\<close>. The outcome of the \<^verbatim>\<open>malloc\<close> in \<open>rehash\<close> is an argument. The
  locale \<open>hash_contract\<close> is what \<^verbatim>\<open>hash.h\<close> asks of the two functions a client supplies; under it a table is
  shown to be a set of elements with distinct keys, whatever the allocations return.
\<close>

subsection \<open>The code\<close>

record 'e hash =
  h_elem_cnt :: nat
  bucket_cnt :: nat
  buckets :: "'e list list"
  hash_fn :: "'e \<Rightarrow> nat"
  less_fn :: "'e \<Rightarrow> 'e \<Rightarrow> bool"

definition hash_clear :: "'e hash \<Rightarrow> 'e hash \<times> 'e list" where
  "hash_clear h = (h\<lparr>buckets := replicate (bucket_cnt h) [], h_elem_cnt := 0\<rparr>, concat (take (bucket_cnt h) (buckets h)))"

definition hash_init :: "bool \<Rightarrow> ('e \<Rightarrow> nat) \<Rightarrow> ('e \<Rightarrow> 'e \<Rightarrow> bool) \<Rightarrow> 'e hash \<times> bool" where
  "hash_init ok hf lf =
     (let h = \<lparr>h_elem_cnt = 0, bucket_cnt = 4, buckets = [], hash_fn = hf, less_fn = lf\<rparr>
      in if ok then (fst (hash_clear h), True) else (h, False))"

definition hash_destroy :: "'e hash \<Rightarrow> 'e list" where
  "hash_destroy h = snd (hash_clear h)"

definition find_bucket :: "'e hash \<Rightarrow> 'e \<Rightarrow> nat" where
  "find_bucket h e = hash_fn h e AND (bucket_cnt h - 1)"

definition find_elem :: "'e hash \<Rightarrow> nat \<Rightarrow> 'e \<Rightarrow> 'e option" where
  "find_elem h bucket e = List.find (\<lambda>hi. \<not> less_fn h hi e \<and> \<not> less_fn h e hi) (buckets h ! bucket)"

definition insert_elem :: "'e hash \<Rightarrow> nat \<Rightarrow> 'e \<Rightarrow> 'e hash" where
  "insert_elem h bucket e = h\<lparr>h_elem_cnt := h_elem_cnt h + 1, buckets := (buckets h)[bucket := e # buckets h ! bucket]\<rparr>"

text \<open>\<^verbatim>\<open>list_remove\<close> unlinks the element from the list it is in.\<close>

definition remove_elem :: "'e hash \<Rightarrow> 'e \<Rightarrow> 'e hash" where
  "remove_elem h e = h\<lparr>h_elem_cnt := h_elem_cnt h - 1, buckets := map (remove1 e) (buckets h)\<rparr>"

definition turn_off_least_1bit :: "nat \<Rightarrow> nat" where
  "turn_off_least_1bit x = x AND (x - 1)"

definition is_power_of_2 :: "nat \<Rightarrow> bool" where
  "is_power_of_2 x \<longleftrightarrow> x \<noteq> 0 \<and> turn_off_least_1bit x = 0"

lemma turn_off_less: "x \<noteq> 0 \<Longrightarrow> turn_off_least_1bit x < x"
proof -
  assume x: "x \<noteq> 0"
  have "int (x AND (x - 1)) \<le> int (x - 1)" unfolding of_nat_and_eq by (rule AND_upper2) simp
  then show ?thesis using x by (simp add: turn_off_least_1bit_def)
qed

function power_loop :: "nat \<Rightarrow> nat" where
  "power_loop n = (if n = 0 \<or> is_power_of_2 n then n else power_loop (turn_off_least_1bit n))"
  by auto
termination by (relation "measure id") (auto simp: turn_off_less)

declare power_loop.simps [simp del]

text \<open>The moves of \<open>rehash\<close>: the elements of the old buckets in order, each pushed on the front of its new bucket.\<close>

definition move_elem :: "'e \<Rightarrow> 'e hash \<Rightarrow> 'e hash" where
  "move_elem e h = h\<lparr>buckets := (buckets h)[find_bucket h e := e # buckets h ! find_bucket h e]\<rparr>"

definition rehash :: "bool \<Rightarrow> 'e hash \<Rightarrow> 'e hash" where
  "rehash ok h =
     (let old_buckets = buckets h;
          new_bucket_cnt = h_elem_cnt h div 2;
          new_bucket_cnt = (if new_bucket_cnt < 4 then 4 else new_bucket_cnt);
          new_bucket_cnt = power_loop new_bucket_cnt
      in if new_bucket_cnt = bucket_cnt h then h
         else if \<not> ok then h
         else fold move_elem (concat old_buckets) (h\<lparr>buckets := replicate new_bucket_cnt [], bucket_cnt := new_bucket_cnt\<rparr>))"

definition hash_insert :: "bool \<Rightarrow> 'e \<Rightarrow> 'e hash \<Rightarrow> 'e hash \<times> 'e option" where
  "hash_insert ok e h =
     (let bucket = find_bucket h e; old = find_elem h bucket e;
          h = (if old = None then insert_elem h bucket e else h)
      in (rehash ok h, old))"

definition hash_replace :: "bool \<Rightarrow> 'e \<Rightarrow> 'e hash \<Rightarrow> 'e hash \<times> 'e option" where
  "hash_replace ok e h =
     (let bucket = find_bucket h e; old = find_elem h bucket e;
          h = (case old of None \<Rightarrow> h | Some x \<Rightarrow> remove_elem h x);
          h = insert_elem h bucket e
      in (rehash ok h, old))"

definition hash_find :: "'e \<Rightarrow> 'e hash \<Rightarrow> 'e option" where
  "hash_find e h = find_elem h (find_bucket h e) e"

definition hash_delete :: "bool \<Rightarrow> 'e \<Rightarrow> 'e hash \<Rightarrow> 'e hash \<times> 'e option" where
  "hash_delete ok e h =
     (case find_elem h (find_bucket h e) e of
        None \<Rightarrow> (h, None)
      | Some found \<Rightarrow> (rehash ok (remove_elem h found), Some found))"

text \<open>The elements \<open>hash_apply\<close> calls its action for, in order.\<close>

definition hash_apply :: "'e hash \<Rightarrow> 'e list" where
  "hash_apply h = concat (take (bucket_cnt h) (buckets h))"

text \<open>
  An iterator is the index of its bucket and its position there: 0 is the head of the list, \<open>k + 1\<close> the element with
  index \<open>k\<close>.
\<close>

definition hash_first :: "'e hash \<Rightarrow> nat \<times> nat" where
  "hash_first h = (0, 0)"

function next_loop :: "'e hash \<Rightarrow> nat \<Rightarrow> nat \<Rightarrow> (nat \<times> nat) option" where
  "next_loop h b k =
     (if k > length (buckets h ! b)
      then if b + 1 \<ge> bucket_cnt h then None else next_loop h (b + 1) 1
      else Some (b, k))"
  by auto
termination by (relation "measure (\<lambda>(h, b, k). bucket_cnt h - b)") auto

declare next_loop.simps [simp del]

definition hash_next :: "'e hash \<Rightarrow> nat \<times> nat \<Rightarrow> (nat \<times> nat) option" where
  "hash_next h i = next_loop h (fst i) (snd i + 1)"

definition hash_cur :: "'e hash \<Rightarrow> nat \<times> nat \<Rightarrow> 'e" where
  "hash_cur h i = buckets h ! fst i ! (snd i - 1)"

definition hash_size :: "'e hash \<Rightarrow> nat" where
  "hash_size h = h_elem_cnt h"

definition hash_empty :: "'e hash \<Rightarrow> bool" where
  "hash_empty h \<longleftrightarrow> h_elem_cnt h = 0"

definition FNV_32_PRIME :: u32 where "FNV_32_PRIME = 16777619"
definition FNV_32_BASIS :: u32 where "FNV_32_BASIS = 2166136261"

fun hash_bytes_loop :: "mem \<Rightarrow> ptr \<Rightarrow> nat \<Rightarrow> u32 \<Rightarrow> u32" where
  "hash_bytes_loop m buf 0 hash = hash"
| "hash_bytes_loop m buf (Suc n) hash = hash_bytes_loop m (buf + 1) n ((hash * FNV_32_PRIME) XOR ucast (m buf))"

definition hash_bytes :: "mem \<Rightarrow> ptr \<Rightarrow> nat \<Rightarrow> u32 option" where
  "hash_bytes m buf n = do { ASSERT (buf \<noteq> NULL); Some (hash_bytes_loop m buf n FNV_32_BASIS) }"

partial_function (option) hash_string_loop :: "mem \<Rightarrow> ptr \<Rightarrow> u32 \<Rightarrow> u32 option" where
  "hash_string_loop m s hash =
     (if m s \<noteq> 0 then hash_string_loop m (s + 1) ((hash * FNV_32_PRIME) XOR ucast (m s)) else Some hash)"

definition hash_string :: "mem \<Rightarrow> ptr \<Rightarrow> u32 option" where
  "hash_string m s = do { ASSERT (s \<noteq> NULL); hash_string_loop m s FNV_32_BASIS }"

text \<open>The bytes of the local variable; its address does not matter.\<close>

definition hash_int :: "int \<Rightarrow> u32 option" where
  "hash_int i = hash_bytes (store32 (\<lambda>_. 0) 4 (u32_of i)) 4 4"

subsection \<open>Powers of two\<close>

lemma and_double: "(2 * a) AND (2 * b) = 2 * (a AND b)" "(2 * a + 1) AND (2 * b) = 2 * (a AND b)"
  "(2 * a) AND (2 * b + 1) = 2 * (a AND b)" for a b :: nat
  by (simp_all add: and_rec [of "2 * a"] and_rec [of "Suc (2 * a)"])

lemma turn_off_double: "turn_off_least_1bit (2 * y) = 2 * turn_off_least_1bit y" "turn_off_least_1bit (2 * y + 1) = 2 * y"
proof -
  show "turn_off_least_1bit (2 * y) = 2 * turn_off_least_1bit y"
  proof (cases y)
    case (Suc z)
    have "2 * y - 1 = 2 * z + 1" using Suc by simp
    then show ?thesis using and_double(3) [of y z] Suc by (simp add: turn_off_least_1bit_def)
  qed (simp add: turn_off_least_1bit_def)
  show "turn_off_least_1bit (2 * y + 1) = 2 * y" using and_double(2) [of y y] by (simp add: turn_off_least_1bit_def)
qed

lemma power_of_2_exp: "is_power_of_2 x \<Longrightarrow> \<exists>k. x = 2 ^ k"
proof (induction x rule: less_induct)
  case (less x)
  show ?case
  proof (cases "even x")
    case True
    then obtain y where y: "x = 2 * y" by (auto elim: evenE)
    then have "is_power_of_2 y" "y < x" using less.prems turn_off_double(1) [of y] by (auto simp: is_power_of_2_def)
    then obtain k where "y = 2 ^ k" using less.IH by blast
    then show ?thesis using y by (intro exI [of _ "Suc k"]) simp
  next
    case False
    then obtain y where y: "x = 2 * y + 1" by (auto elim: oddE)
    then have "y = 0" using less.prems turn_off_double(2) [of y] by (auto simp: is_power_of_2_def)
    then show ?thesis using y by (intro exI [of _ 0]) simp
  qed
qed

lemma turn_off_bound: "\<not> is_power_of_2 n \<Longrightarrow> 2 ^ k \<le> n \<Longrightarrow> 2 ^ k \<le> turn_off_least_1bit n"
proof (induction k arbitrary: n)
  case 0
  then show ?case by (auto simp: is_power_of_2_def)
next
  case (Suc k)
  show ?case
  proof (cases "even n")
    case True
    then obtain y where y: "n = 2 * y" by (auto elim: evenE)
    then have "\<not> is_power_of_2 y" "2 ^ k \<le> y" using Suc.prems turn_off_double(1) [of y] by (auto simp: is_power_of_2_def)
    then show ?thesis using Suc.IH [of y] y turn_off_double(1) [of y] by simp
  next
    case False
    then obtain y where y: "n = 2 * y + 1" by (auto elim: oddE)
    then have "2 ^ k \<le> y" using Suc.prems(2) by simp
    then show ?thesis using y turn_off_double(2) [of y] by simp
  qed
qed

lemma power_loop_exp: "4 \<le> n \<Longrightarrow> \<exists>k. power_loop n = 2 ^ k \<and> 2 \<le> k"
proof (induction n rule: less_induct)
  case (less n)
  show ?case
  proof (cases "is_power_of_2 n")
    case True
    then obtain k where k: "n = 2 ^ k" using power_of_2_exp by blast
    have "2 \<le> k" using less.prems k by (metis power_increasing_iff numeral_One one_less_numeral_iff power2_eq_square semiring_norm(76) numeral_times_numeral num_double)
    then show ?thesis using True k by (simp add: power_loop.simps)
  next
    case False
    have "4 \<le> turn_off_least_1bit n" using turn_off_bound [OF False, of 2] less.prems by simp
    moreover have "turn_off_least_1bit n < n" using turn_off_less less.prems by simp
    ultimately show ?thesis using less.IH False less.prems by (subst power_loop.simps) auto
  qed
qed

subsection \<open>A table is a set of elements with distinct keys\<close>

definition elems :: "'e hash \<Rightarrow> 'e list" where
  "elems h = concat (buckets h)"

text \<open>What \<^verbatim>\<open>hash.h\<close> asks of the client: an order on the keys, and a hash value that depends on the key only.\<close>

lemma concat_push:
  assumes "b < length bs"
  shows "mset (concat (bs[b := e # bs ! b])) = add_mset e (mset (concat bs))"
proof -
  have "concat bs = concat (take b bs) @ bs ! b @ concat (drop (Suc b) bs)" by (subst id_take_nth_drop [OF assms]) simp
  moreover have "concat (bs[b := e # bs ! b]) = concat (take b bs) @ (e # bs ! b) @ concat (drop (Suc b) bs)"
    by (simp add: upd_conv_take_nth_drop [OF assms])
  ultimately show ?thesis by simp
qed

locale hash_contract = strict_weak_order lessf for lessf :: "'e \<Rightarrow> 'e \<Rightarrow> bool" +
  fixes hashf :: "'e \<Rightarrow> nat"
  assumes hash_key: "\<not> lessf a b \<Longrightarrow> \<not> lessf b a \<Longrightarrow> hashf a = hashf b"
begin

definition same_key :: "'e \<Rightarrow> 'e \<Rightarrow> bool" where
  "same_key a b \<longleftrightarrow> \<not> lessf a b \<and> \<not> lessf b a"

lemma same_key_refl [simp]: "same_key a a"
  by (simp add: same_key_def)

lemma same_key_sym: "same_key a b \<Longrightarrow> same_key b a"
  by (simp add: same_key_def)

lemma same_key_trans: "same_key a b \<Longrightarrow> same_key b c \<Longrightarrow> same_key a c"
  using negtrans by (auto simp: same_key_def)

definition hinv :: "'e hash \<Rightarrow> bool" where
  "hinv h \<longleftrightarrow> hash_fn h = hashf \<and> less_fn h = lessf \<and> length (buckets h) = bucket_cnt h \<and> (\<exists>k\<ge>2. bucket_cnt h = 2 ^ k) \<and>
     h_elem_cnt h = length (elems h) \<and> (\<forall>b < bucket_cnt h. \<forall>e \<in> set (buckets h ! b). find_bucket h e = b) \<and>
     distinct (elems h) \<and> (\<forall>x \<in> set (elems h). \<forall>y \<in> set (elems h). same_key x y \<longrightarrow> x = y)"

text \<open>The arrangement in buckets, and what it means for the elements to have distinct keys.\<close>

definition hshape :: "'e hash \<Rightarrow> bool" where
  "hshape h \<longleftrightarrow> hash_fn h = hashf \<and> less_fn h = lessf \<and> length (buckets h) = bucket_cnt h \<and> (\<exists>k\<ge>2. bucket_cnt h = 2 ^ k) \<and>
     (\<forall>b < bucket_cnt h. \<forall>e \<in> set (buckets h ! b). find_bucket h e = b)"

definition uniq :: "'e multiset \<Rightarrow> bool" where
  "uniq M \<longleftrightarrow> (\<forall>x. count M x \<le> 1) \<and> (\<forall>x \<in># M. \<forall>y \<in># M. same_key x y \<longrightarrow> x = y)"

lemma find_bucket_less: "hash_fn h = hashf \<Longrightarrow> bucket_cnt h = 2 ^ k \<Longrightarrow> find_bucket h e < bucket_cnt h"
  unfolding find_bucket_def by (simp only: mask_eq_exp_minus_1 [symmetric] take_bit_eq_mask [symmetric] take_bit_nat_less_exp)

lemma bucket_in_range: "hinv h \<Longrightarrow> find_bucket h e < length (buckets h)"
  using find_bucket_less by (auto simp: hinv_def)

lemma find_bucket_key: "hash_fn h = hashf \<Longrightarrow> same_key a b \<Longrightarrow> find_bucket h a = find_bucket h b"
  using hash_key [of a b] by (simp add: find_bucket_def same_key_def)

lemma find_elem_spec:
  assumes h: "hinv h"
  shows "find_elem h (find_bucket h e) e = Some x \<Longrightarrow> x \<in> set (elems h) \<and> same_key x e"
    "find_elem h (find_bucket h e) e = None \<Longrightarrow> \<forall>x \<in> set (elems h). \<not> same_key x e"
proof -
  let ?b = "buckets h ! find_bucket h e"
  have fe: "find_elem h (find_bucket h e) e = List.find (\<lambda>x. same_key x e) ?b"
    using h by (simp add: find_elem_def hinv_def same_key_def conj_commute)
  have sub: "set ?b \<subseteq> set (elems h)" using nth_mem [OF bucket_in_range [OF h, of e]] by (auto simp: elems_def)
  show "find_elem h (find_bucket h e) e = Some x \<Longrightarrow> x \<in> set (elems h) \<and> same_key x e"
    using sub unfolding fe find_Some_iff by auto
  assume n: "find_elem h (find_bucket h e) e = None"
  show "\<forall>x \<in> set (elems h). \<not> same_key x e"
  proof (intro ballI notI)
    fix x assume x: "x \<in> set (elems h)" "same_key x e"
    then obtain bk where bk: "bk \<in> set (buckets h)" "x \<in> set bk" by (auto simp: elems_def)
    then obtain b where b: "b < length (buckets h)" "x \<in> set (buckets h ! b)" by (metis in_set_conv_nth)
    then have "find_bucket h x = b" using h by (simp add: hinv_def)
    then have "x \<in> set ?b" using b(2) find_bucket_key [of h x e] h x(2) by (simp add: hinv_def)
    then show False using n x(2) unfolding fe find_None_iff by blast
  qed
qed

lemma shape_insert:
  assumes "hshape h" "b = find_bucket h e"
  shows "hshape (h\<lparr>h_elem_cnt := c, buckets := (buckets h)[b := e # buckets h ! b]\<rparr>)"
    "mset (elems (h\<lparr>h_elem_cnt := c, buckets := (buckets h)[b := e # buckets h ! b]\<rparr>)) = add_mset e (mset (elems h))"
proof -
  have b: "b < length (buckets h)" using assms find_bucket_less by (auto simp: hshape_def)
  show "hshape (h\<lparr>h_elem_cnt := c, buckets := (buckets h)[b := e # buckets h ! b]\<rparr>)"
    using assms b by (auto simp: hshape_def find_bucket_def nth_list_update split: if_splits)
  show "mset (elems (h\<lparr>h_elem_cnt := c, buckets := (buckets h)[b := e # buckets h ! b]\<rparr>)) = add_mset e (mset (elems h))"
    using concat_push [OF b] by (simp add: elems_def)
qed

lemma hinv_iff: "hinv h \<longleftrightarrow> hshape h \<and> h_elem_cnt h = length (elems h) \<and> uniq (mset (elems h))"
proof -
  have "distinct (elems h) \<longleftrightarrow> (\<forall>x. count (mset (elems h)) x \<le> 1)"
    by (metis distinct_count_atmost_1 count_greater_eq_one_iff count_inI count_mset_0_iff le_antisym le_numeral_extra(4) set_mset_mset zero_le)
  then show ?thesis by (auto simp: hinv_def hshape_def uniq_def)
qed

lemma insert_elem_spec:
  assumes h: "hinv h" and n: "\<forall>x \<in> set (elems h). \<not> same_key x e"
  shows "hinv (insert_elem h (find_bucket h e) e)" "mset (elems (insert_elem h (find_bucket h e) e)) = add_mset e (mset (elems h))"
proof -
  have sh: "hshape h" using h by (simp add: hinv_iff)
  note si = shape_insert [OF sh refl, of e "h_elem_cnt h + 1", folded insert_elem_def]
  show m: "mset (elems (insert_elem h (find_bucket h e) e)) = add_mset e (mset (elems h))" by (rule si(2))
  have "length (elems (insert_elem h (find_bucket h e) e)) = length (elems h) + 1" using arg_cong [OF m, of size] by simp
  moreover have "e \<notin> set (elems h)" using n same_key_refl by blast
  then have "uniq (add_mset e (mset (elems h)))" using h n same_key_sym by (auto simp: hinv_iff uniq_def)
  ultimately show "hinv (insert_elem h (find_bucket h e) e)" using si(1) m h by (simp add: hinv_iff insert_elem_def)
qed

lemma concat_remove1: "distinct (concat bs) \<Longrightarrow> concat (map (remove1 x) bs) = remove1 x (concat bs)"
proof (induction bs)
  case (Cons b bs)
  show ?case
  proof (cases "x \<in> set b")
    case True
    then have "x \<notin> set (concat bs)" using Cons.prems by auto
    then have "map (remove1 x) bs = bs" by (intro map_idI remove1_idem) auto
    then show ?thesis using True by (simp add: remove1_append)
  next
    case False
    then show ?thesis using Cons by (simp add: remove1_append remove1_idem)
  qed
qed simp

lemma remove_elem_spec:
  assumes h: "hinv h" and x: "x \<in> set (elems h)"
  shows "hinv (remove_elem h x)" "mset (elems (remove_elem h x)) = mset (elems h) - {#x#}"
proof -
  have d: "distinct (concat (buckets h))" using h by (simp add: hinv_def elems_def)
  show m: "mset (elems (remove_elem h x)) = mset (elems h) - {#x#}"
    using concat_remove1 [OF d, of x] by (simp add: elems_def remove_elem_def)
  have "hshape (remove_elem h x)"
  proof -
    have hs: "hshape h" using h by (simp add: hinv_iff)
    have f: "find_bucket (remove_elem h x) y = find_bucket h y" for y by (simp add: find_bucket_def remove_elem_def)
    have "find_bucket h y = b" if b: "b < length (buckets h)" and y: "y \<in> set (remove1 x (buckets h ! b))" for b y
      using hs b notin_set_remove1 [of y "buckets h ! b" x] y unfolding hshape_def by metis
    then show ?thesis using hs unfolding hshape_def f by (simp add: remove_elem_def)
  qed
  moreover have "length (elems (remove_elem h x)) = length (elems h) - 1"
    using arg_cong [OF m, of size] x by (simp add: size_Diff_singleton)
  moreover have "uniq (mset (elems h) - {#x#})"
  proof -
    have u: "uniq (mset (elems h))" using h by (simp add: hinv_iff)
    have "count (mset (elems h) - {#x#}) y \<le> 1" for y using u le_trans [OF diff_le_self] unfolding uniq_def count_diff by blast
    then show ?thesis using u in_diffD [of _ "mset (elems h)" "{#x#}"] unfolding uniq_def by blast
  qed
  ultimately show "hinv (remove_elem h x)" using m h by (simp add: hinv_iff remove_elem_def)
qed

lemma fold_move: "hshape h \<Longrightarrow> hshape (fold move_elem xs h) \<and> mset (elems (fold move_elem xs h)) = mset xs + mset (elems h) \<and>
    h_elem_cnt (fold move_elem xs h) = h_elem_cnt h"
proof (induction xs arbitrary: h)
  case (Cons x xs)
  have eq: "move_elem x h = h\<lparr>h_elem_cnt := h_elem_cnt h, buckets := (buckets h)[find_bucket h x := x # buckets h ! find_bucket h x]\<rparr>"
    by (simp add: move_elem_def)
  note si = shape_insert [OF Cons.prems refl, of x "h_elem_cnt h", folded eq]
  show ?case using Cons.IH [OF si(1)] si(2) by (simp add: move_elem_def)
qed simp

lemma rehash_spec:
  assumes h: "hinv h"
  shows "hinv (rehash ok h)" "mset (elems (rehash ok h)) = mset (elems h)"
proof -
  define n where "n = power_loop (if h_elem_cnt h div 2 < 4 then 4 else h_elem_cnt h div 2)"
  have "4 \<le> (if h_elem_cnt h div 2 < 4 then 4 else h_elem_cnt h div 2)" by simp
  from power_loop_exp [OF this] obtain k where k: "n = 2 ^ k" "2 \<le> k" unfolding n_def [symmetric] by blast
  define h0 where "h0 = h\<lparr>buckets := replicate n [], bucket_cnt := n\<rparr>"
  have "hshape h0" using h k unfolding hinv_iff hshape_def h0_def by simp
  moreover have "elems h0 = []" by (simp add: elems_def h0_def)
  ultimately have f: "hshape (fold move_elem (concat (buckets h)) h0)"
    "mset (elems (fold move_elem (concat (buckets h)) h0)) = mset (elems h)"
    "h_elem_cnt (fold move_elem (concat (buckets h)) h0) = h_elem_cnt h"
    using fold_move [of h0 "concat (buckets h)"] by (simp_all add: elems_def [of h]) (simp add: h0_def)
  have r: "rehash ok h = (if n = bucket_cnt h \<or> \<not> ok then h else fold move_elem (concat (buckets h)) h0)"
    unfolding rehash_def Let_def n_def h0_def by simp
  show m: "mset (elems (rehash ok h)) = mset (elems h)" using f(2) by (simp add: r)
  show "hinv (rehash ok h)" using f h mset_eq_length [OF f(2)] by (simp add: r hinv_iff)
qed

lemma hash_find_spec:
  assumes "hinv h"
  shows "hash_find e h = Some x \<longleftrightarrow> x \<in> set (elems h) \<and> same_key x e" "hash_find e h = None \<longleftrightarrow> (\<forall>x \<in> set (elems h). \<not> same_key x e)"
proof -
  note f = find_elem_spec [OF assms, of e]
  show n: "hash_find e h = None \<longleftrightarrow> (\<forall>x \<in> set (elems h). \<not> same_key x e)"
    using f by (cases "hash_find e h") (auto simp: hash_find_def)
  show "hash_find e h = Some x \<longleftrightarrow> x \<in> set (elems h) \<and> same_key x e"
  proof
    assume "x \<in> set (elems h) \<and> same_key x e"
    moreover from this obtain y where "hash_find e h = Some y" using n by (cases "hash_find e h") auto
    moreover from this have "y \<in> set (elems h) \<and> same_key y e" using f(1) by (simp add: hash_find_def)
    ultimately show "hash_find e h = Some x"
      using assms same_key_trans [of y e x] same_key_sym [of x e] by (auto simp: hinv_def)
  qed (use f(1) in \<open>simp add: hash_find_def\<close>)
qed

lemma hash_insert_spec:
  assumes h: "hinv h"
  shows "hinv (fst (hash_insert ok e h))" "snd (hash_insert ok e h) = hash_find e h"
    "set (elems (fst (hash_insert ok e h))) = (if hash_find e h = None then insert e (set (elems h)) else set (elems h))"
proof -
  have eq: "hash_insert ok e h = (rehash ok (if hash_find e h = None then insert_elem h (find_bucket h e) e else h), hash_find e h)"
    by (simp add: hash_insert_def Let_def hash_find_def)
  show "snd (hash_insert ok e h) = hash_find e h" by (simp add: eq)
  define h1 where "h1 = (if hash_find e h = None then insert_elem h (find_bucket h e) e else h)"
  have h1: "hinv h1" using h insert_elem_spec(1) [OF h] hash_find_spec(2) [OF h, of e] by (simp add: h1_def)
  have "mset (elems h1) = mset (if hash_find e h = None then e # elems h else elems h)"
    using insert_elem_spec(2) [OF h] hash_find_spec(2) [OF h, of e] by (simp add: h1_def)
  from mset_eq_setD [OF trans [OF rehash_spec(2) [OF h1] this]]
  show "set (elems (fst (hash_insert ok e h))) = (if hash_find e h = None then insert e (set (elems h)) else set (elems h))"
    by (simp add: eq h1_def)
  show "hinv (fst (hash_insert ok e h))" using rehash_spec(1) [OF h1] by (simp add: eq h1_def)
qed

lemma remove_found:
  assumes h: "hinv h" and x: "x \<in> set (elems h)" "same_key x e"
  shows "set (elems (remove_elem h x)) = set (elems h) - {y. same_key y e}"
proof -
  have "same_key y e \<longleftrightarrow> y = x" if "y \<in> set (elems h)" for y
    using h x that same_key_trans [of y e x] same_key_sym [of x e] unfolding hinv_def by metis
  moreover have "distinct (elems h)" using h by (simp add: hinv_def)
  moreover have "mset (elems (remove_elem h x)) = mset (remove1 x (elems h))" using remove_elem_spec(2) [OF h x(1)] by simp
  then have "set (elems (remove_elem h x)) = set (remove1 x (elems h))" by (rule mset_eq_setD)
  ultimately show ?thesis by auto
qed

lemma hash_delete_spec:
  assumes h: "hinv h"
  shows "hinv (fst (hash_delete ok e h))" "snd (hash_delete ok e h) = hash_find e h"
    "set (elems (fst (hash_delete ok e h))) = set (elems h) - {x. same_key x e}"
proof -
  have eq: "hash_delete ok e h = (case hash_find e h of None \<Rightarrow> (h, None) | Some x \<Rightarrow> (rehash ok (remove_elem h x), Some x))"
    by (simp add: hash_delete_def hash_find_def split: option.split)
  show "snd (hash_delete ok e h) = hash_find e h" by (simp add: eq split: option.split)
  show "hinv (fst (hash_delete ok e h))" "set (elems (fst (hash_delete ok e h))) = set (elems h) - {x. same_key x e}"
  proof (atomize (full), cases "hash_find e h")
    case None
    then show "hinv (fst (hash_delete ok e h)) \<and> set (elems (fst (hash_delete ok e h))) = set (elems h) - {x. same_key x e}"
      using h hash_find_spec(2) [OF h, of e] by (auto simp: eq)
  next
    case (Some x)
    then have x: "x \<in> set (elems h)" "same_key x e" using hash_find_spec(1) [OF h] by blast+
    note r = remove_elem_spec(1) [OF h x(1)]
    show "hinv (fst (hash_delete ok e h)) \<and> set (elems (fst (hash_delete ok e h))) = set (elems h) - {x. same_key x e}"
      using rehash_spec(1) [OF r] mset_eq_setD [OF rehash_spec(2) [OF r]] remove_found [OF h x] Some by (simp add: eq)
  qed
qed

lemma hash_replace_spec:
  assumes h: "hinv h"
  shows "hinv (fst (hash_replace ok e h))" "snd (hash_replace ok e h) = hash_find e h"
    "set (elems (fst (hash_replace ok e h))) = insert e (set (elems h) - {x. same_key x e})"
proof -
  define h1 where "h1 = (case hash_find e h of None \<Rightarrow> h | Some x \<Rightarrow> remove_elem h x)"
  have h1: "hinv h1" "set (elems h1) = set (elems h) - {x. same_key x e}"
  proof (atomize (full), cases "hash_find e h")
    case None
    then show "hinv h1 \<and> set (elems h1) = set (elems h) - {x. same_key x e}" using h hash_find_spec(2) [OF h, of e] by (auto simp: h1_def)
  next
    case (Some x)
    then have x: "x \<in> set (elems h)" "same_key x e" using hash_find_spec(1) [OF h] by blast+
    show "hinv h1 \<and> set (elems h1) = set (elems h) - {x. same_key x e}"
      using remove_elem_spec(1) [OF h x(1)] remove_found [OF h x] Some by (simp add: h1_def)
  qed
  have fb: "find_bucket h1 e = find_bucket h e" by (simp add: h1_def find_bucket_def remove_elem_def split: option.split)
  have eq: "hash_replace ok e h = (rehash ok (insert_elem h1 (find_bucket h1 e) e), hash_find e h)"
    unfolding fb by (simp add: hash_replace_def Let_def hash_find_def h1_def)
  have n: "\<forall>x \<in> set (elems h1). \<not> same_key x e" using h1(2) by auto
  note i = insert_elem_spec [OF h1(1) n]
  have "mset (elems (rehash ok (insert_elem h1 (find_bucket h1 e) e))) = mset (e # elems h1)" using rehash_spec(2) [OF i(1)] i(2) by simp
  from mset_eq_setD [OF this] show "set (elems (fst (hash_replace ok e h))) = insert e (set (elems h) - {x. same_key x e})"
    using h1(2) by (simp add: eq)
  show "hinv (fst (hash_replace ok e h))" "snd (hash_replace ok e h) = hash_find e h" using rehash_spec(1) [OF i(1)] by (simp_all add: eq)
qed

lemma hash_init_spec: "hinv (fst (hash_init True hashf lessf))" "elems (fst (hash_init True hashf lessf)) = []" "snd (hash_init True hashf lessf)"
proof -
  let ?h = "\<lparr>h_elem_cnt = 0, bucket_cnt = 4, buckets = replicate 4 [], hash_fn = hashf, less_fn = lessf\<rparr>"
  have eq: "hash_init True hashf lessf = (?h, True)" by (simp add: hash_init_def hash_clear_def)
  have e: "elems ?h = []" by (simp add: elems_def)
  have "\<exists>k\<ge>2. (4::nat) = 2 ^ k" by (intro exI [of _ 2]) simp
  then show "hinv (fst (hash_init True hashf lessf))" unfolding eq fst_conv hinv_def e by simp
  show "elems (fst (hash_init True hashf lessf)) = []" "snd (hash_init True hashf lessf)" by (simp_all add: eq e)
qed

lemma hash_destroy_spec: "hinv h \<Longrightarrow> hash_destroy h = elems h" "hinv h \<Longrightarrow> hash_apply h = elems h"
proof -
  have "take (bucket_cnt h) (buckets h) = buckets h" if "hinv h" using that unfolding hinv_def by (metis order_refl take_all)
  then show "hinv h \<Longrightarrow> hash_destroy h = elems h" "hinv h \<Longrightarrow> hash_apply h = elems h"
    by (simp_all add: hash_destroy_def hash_clear_def hash_apply_def elems_def)
qed

lemma hash_size_spec: "hinv h \<Longrightarrow> hash_size h = card (set (elems h))"
  unfolding hash_size_def hinv_def by (metis distinct_card)

end

end
