(* ===== verification/VM_State.thy ===== *)
theory VM_State
  imports Swap Page_Dir Hash_Table Directory
begin

text \<open>
  The state of the virtual memory and of the processes: \<^verbatim>\<open>vm/page.h\<close>, \<^verbatim>\<open>vm/frame.h\<close>, \<^verbatim>\<open>vm/mmap.h\<close> and the members of
  \<^verbatim>\<open>struct thread\<close> that belong to processes. The record \<open>vm\<close> extends the machine with swap by the file system, the
  frame table and the processes, so that the operations of the lower layers apply to it as they are.

  An element of a supplemental page table is an entry's address together with its \<^verbatim>\<open>upage\<close> member, which no code changes
  after the entry was inserted; the entries themselves are in \<open>spt_entries\<close>. An address that is not in
  \<open>spt_entries\<close> or \<open>frames\<close> is not allocated, and dereferencing it is the value \<^term>\<open>None\<close>, like a panic. Kernel memory
  comes from \<open>malloc\<close> of the file system's state, whose results are arbitrary.

  \<open>input_chars n\<close> is what the \<open>n\<close>-th of the following calls of \<^verbatim>\<open>input_getc\<close> returns, \<open>console_out\<close> what
  processes have written to the console.

  This is the sequential behaviour of one thread in the kernel; disabling interrupts has no effect in it.
\<close>

subsection \<open>Data\<close>

datatype page_type = PAGE_FILE | PAGE_SWAP | PAGE_ZERO | PAGE_MMAP

record spt_entry =
  se_upage :: ptr
  se_kpage :: ptr
  se_type :: page_type
  se_writable :: bool
  se_loaded :: bool
  se_file :: ptr
  se_file_offset :: int
  se_read_bytes :: nat
  se_zero_bytes :: nat
  se_swap_slot :: nat
  se_mapid :: int

type_synonym spt_elem = "ptr \<times> ptr"

record frame_entry =
  fr_kpage :: ptr
  fr_upage :: ptr
  fr_owner :: ptr
  fr_pinned :: bool

text \<open>The clock hand: a null pointer, the end of the frame table, or the element of an entry.\<close>

datatype hand = HNull | HEnd | HAt ptr

record mmap_mapping =
  mm_mapid :: int
  mm_file :: ptr
  mm_start_addr :: ptr
  mm_page_count :: nat

record process =
  p_pagedir :: ptr
  p_spt :: "spt_elem hash"
  p_esp_on_syscall :: ptr
  p_mmap_list :: "mmap_mapping list"
  p_file_descriptors :: "ptr list"
  p_executable :: ptr
  p_my_record :: ptr
  p_children :: "ptr list"

record child_process =
  c_pid :: int
  c_exit_status :: int
  c_exited :: bool
  c_wait_sema :: nat
  c_load_sema :: nat
  c_load_status :: bool
  c_parent_thread :: ptr

record vm = swapm +
  fs :: fsys
  cur_thread :: ptr
  processes :: "ptr \<Rightarrow> process"
  child_records :: "ptr \<rightharpoonup> child_process"
  spt_entries :: "ptr \<rightharpoonup> spt_entry"
  frame_table :: "ptr list"
  frames :: "ptr \<rightharpoonup> frame_entry"
  clock_hand :: hand
  next_mapid :: int
  page_fault_cnt :: int
  input_chars :: "nat \<Rightarrow> byte"
  console_out :: "byte list"

subsection \<open>Access to the parts\<close>

definition cur_process :: "vm \<Rightarrow> process" where
  "cur_process v = processes v (cur_thread v)"

definition upd_process :: "ptr \<Rightarrow> (process \<Rightarrow> process) \<Rightarrow> vm \<Rightarrow> vm" where
  "upd_process t f v = v\<lparr>processes := (processes v)(t := f (processes v t))\<rparr>"

definition upd_entry :: "ptr \<Rightarrow> (spt_entry \<Rightarrow> spt_entry) \<Rightarrow> vm \<Rightarrow> vm option" where
  "upd_entry p f v = do { e \<leftarrow> spt_entries v p; Some (v\<lparr>spt_entries := (spt_entries v)(p \<mapsto> f e)\<rparr>) }"

definition kmalloc :: "vm \<Rightarrow> vm \<times> ptr" where
  "kmalloc v = (let (s, p) = malloc (fs v) in (v\<lparr>fs := s\<rparr>, p))"

text \<open>
  The allocation of new buckets in the hash table's \<open>rehash\<close>, which only takes place when an operation that can get memory
  changes the number of buckets; \<open>h'\<close> is the table it would leave then.
\<close>

definition rehash_malloc :: "spt_elem hash \<Rightarrow> spt_elem hash \<Rightarrow> vm \<Rightarrow> vm \<times> bool" where
  "rehash_malloc h h' v = (if bucket_cnt h' = bucket_cnt h then (v, True) else let (v, m) = kmalloc v in (v, m \<noteq> NULL))"

text \<open>Calls of the file system.\<close>

definition fs_call :: "(fsys \<Rightarrow> (fsys \<times> 'r) option) \<Rightarrow> vm \<Rightarrow> (vm \<times> 'r) option" where
  "fs_call f v = do { (s, r) \<leftarrow> f (fs v); Some (v\<lparr>fs := s\<rparr>, r) }"

definition fs_do :: "(fsys \<Rightarrow> fsys option) \<Rightarrow> vm \<Rightarrow> vm option" where
  "fs_do f v = do { s \<leftarrow> f (fs v); Some (v\<lparr>fs := s\<rparr>) }"

text \<open>Reading a file into kernel memory and writing it from there.\<close>

definition file_read_mem :: "ptr \<Rightarrow> ptr \<Rightarrow> int \<Rightarrow> vm \<Rightarrow> (vm \<times> int) option" where
  "file_read_mem f buffer n v = do {
     (v, bs) \<leftarrow> fs_call (file_read f n) v;
     Some (v\<lparr>ram := put_bytes (ram v) buffer bs\<rparr>, int (length bs)) }"

definition file_write_mem :: "ptr \<Rightarrow> ptr \<Rightarrow> int \<Rightarrow> vm \<Rightarrow> (vm \<times> int) option" where
  "file_write_mem f buffer n v = fs_call (file_write f (map (ram v) [buffer..<buffer + nat n]) n) v"

definition file_write_at_mem :: "ptr \<Rightarrow> ptr \<Rightarrow> int \<Rightarrow> int \<Rightarrow> vm \<Rightarrow> (vm \<times> int) option" where
  "file_write_at_mem f buffer n ofs v = fs_call (file_write_at f (map (ram v) [buffer..<buffer + nat n]) n ofs) v"

subsection \<open>The supplemental page table's hash table\<close>

definition spt_hash_func :: "spt_elem \<Rightarrow> nat" where
  "spt_hash_func e = (case hash_bytes (store32 (\<lambda>_. 0) 4 (snd e)) 4 4 of Some h \<Rightarrow> unat h | None \<Rightarrow> 0)"

definition spt_less_func :: "spt_elem \<Rightarrow> spt_elem \<Rightarrow> bool" where
  "spt_less_func a b \<longleftrightarrow> snd a < snd b"

definition spt_get_entry :: "ptr \<Rightarrow> ptr \<Rightarrow> vm \<Rightarrow> ptr" where
  "spt_get_entry t upage v = (case hash_find (NULL, pg_round_down upage) (p_spt (processes v t)) of None \<Rightarrow> NULL | Some e \<Rightarrow> fst e)"

interpretation spt_order: strict_weak_order spt_less_func
  by unfold_locales (auto simp: spt_less_func_def)

interpretation spt_hash: hash_contract spt_less_func spt_hash_func
proof unfold_locales
  fix a b assume "\<not> spt_less_func a b" "\<not> spt_less_func b a"
  then have "snd a = snd b" by (simp add: spt_less_func_def)
  then show "spt_hash_func a = spt_hash_func b" by (simp add: spt_hash_func_def)
qed

lemma spt_same_key: "spt_hash.same_key a b \<longleftrightarrow> snd a = snd b"
  by (auto simp: spt_hash.same_key_def spt_less_func_def)

text \<open>The table as a map from pages to the addresses of their entries.\<close>

definition table_ok :: "spt_elem hash \<Rightarrow> bool" where
  "table_ok h \<longleftrightarrow> spt_hash.hinv h \<and> (\<forall>e \<in> set (elems h). fst e \<noteq> NULL)"

definition table_map :: "spt_elem hash \<Rightarrow> ptr \<Rightarrow> ptr option" where
  "table_map h u = map_option fst (hash_find (NULL, u) h)"

lemma table_map_iff: "table_ok h \<Longrightarrow> table_map h u = Some p \<longleftrightarrow> (p, u) \<in> set (elems h)"
  using spt_hash.hash_find_spec(1) [of h "(NULL, u)"]
  by (force simp: table_map_def table_ok_def spt_same_key)

lemma table_map_None: "table_ok h \<Longrightarrow> table_map h u = None \<longleftrightarrow> (\<forall>p. (p, u) \<notin> set (elems h))"
  using table_map_iff [of h u] by (metis not_None_eq)

lemma table_map_eqI: "table_ok h \<Longrightarrow> (\<And>p. f u = Some p \<longleftrightarrow> (p, u) \<in> set (elems h)) \<Longrightarrow> table_map h u = f u"
  by (metis option.exhaust table_map_iff)

lemma table_init: "table_ok (fst (hash_init True spt_hash_func spt_less_func))" "table_map (fst (hash_init True spt_hash_func spt_less_func)) = (\<lambda>_. None)"
proof -
  show t: "table_ok (fst (hash_init True spt_hash_func spt_less_func))" by (simp add: table_ok_def spt_hash.hash_init_spec)
  show "table_map (fst (hash_init True spt_hash_func spt_less_func)) = (\<lambda>_. None)"
    using table_map_None [OF t] by (auto simp: spt_hash.hash_init_spec)
qed

lemma table_insert:
  assumes h: "table_ok h" and p: "p \<noteq> NULL"
  shows "table_ok (fst (hash_insert ok (p, u) h))"
    "snd (hash_insert ok (p, u) h) = None \<longleftrightarrow> table_map h u = None"
    "table_map (fst (hash_insert ok (p, u) h)) = (if table_map h u = None then (table_map h)(u \<mapsto> p) else table_map h)"
proof -
  have inv: "spt_hash.hinv h" using h by (simp add: table_ok_def)
  note ins = spt_hash.hash_insert_spec [OF inv, of ok "(p, u)"]
  have f: "hash_find (p, u) h = None \<longleftrightarrow> table_map h u = None"
    using spt_hash.hash_find_spec(2) [OF inv, of "(p, u)"] table_map_None [OF h, of u] by (auto simp: spt_same_key)
  show t: "table_ok (fst (hash_insert ok (p, u) h))" using ins h p by (auto simp: table_ok_def split: if_splits)
  show "snd (hash_insert ok (p, u) h) = None \<longleftrightarrow> table_map h u = None" using ins(2) f by simp
  show "table_map (fst (hash_insert ok (p, u) h)) = (if table_map h u = None then (table_map h)(u \<mapsto> p) else table_map h)" (is "_ = ?f")
  proof
    fix w
    have "?f w = Some q \<longleftrightarrow> (q, w) \<in> set (elems (fst (hash_insert ok (p, u) h)))" for q
      using ins(3) f table_map_iff [OF h, of w q] table_map_None [OF h, of u] by auto
    then show "table_map (fst (hash_insert ok (p, u) h)) w = ?f w" using table_map_eqI [OF t] by blast
  qed
qed

lemma table_delete:
  assumes h: "table_ok h"
  shows "table_ok (fst (hash_delete ok (NULL, u) h))" "map_option fst (snd (hash_delete ok (NULL, u) h)) = table_map h u"
    "table_map (fst (hash_delete ok (NULL, u) h)) = (table_map h)(u := None)"
proof -
  have inv: "spt_hash.hinv h" using h by (simp add: table_ok_def)
  note del = spt_hash.hash_delete_spec [OF inv, of ok "(NULL, u)"]
  show t: "table_ok (fst (hash_delete ok (NULL, u) h))" using del h by (auto simp: table_ok_def)
  show "map_option fst (snd (hash_delete ok (NULL, u) h)) = table_map h u" by (simp add: del(2) table_map_def)
  show "table_map (fst (hash_delete ok (NULL, u) h)) = (table_map h)(u := None)" (is "_ = ?f")
  proof
    fix w
    have "?f w = Some q \<longleftrightarrow> (q, w) \<in> set (elems (fst (hash_delete ok (NULL, u) h)))" for q
      using del(3) table_map_iff [OF h, of w q] by (auto simp: spt_same_key)
    then show "table_map (fst (hash_delete ok (NULL, u) h)) w = ?f w" using table_map_eqI [OF t] by blast
  qed
qed

end
