(* ===== verification/Address_Spaces.thy ===== *)
theory Address_Spaces
  imports VM_State
begin

text \<open>
  The page directories of all processes together. The directory and the tables of one process share no page with those of
  another, so a change of an entry of one of them leaves the entries of the others alone.
\<close>

definition dir_pages :: "ptr \<Rightarrow> (nat \<Rightarrow> ptr option) \<Rightarrow> ptr set" where
  "dir_pages pd T = insert pd {pt. \<exists>i < 768. T i = Some pt}"

lemma dir_cong:
  assumes ok: "pd_ok A m pd T" and same: "\<forall>p \<in> dir_pages pd T. \<forall>x. p \<le> x \<and> x < p + PGSIZE \<longrightarrow> m' x = m x"
  shows "pd_ok A m' pd T" "is_user_vaddr va \<Longrightarrow> entry m' T va = entry m T va"
proof -
  have lw: "load_word m' (p + 4 * i) = load_word m (p + 4 * i)" if "p \<in> dir_pages pd T" "i < 1024" for p i
    using that same by (intro load_word_cong) (auto simp: PGSIZE_def)
  have "pd \<in> dir_pages pd T" by (simp add: dir_pages_def)
  then have "load_word m' (pd + 4 * i) = load_word m (pd + 4 * i)" if "i < 768" for i using lw that by simp
  then show "pd_ok A m' pd T" using ok by (simp add: pd_ok_def)
  assume va: "is_user_vaddr va"
  show "entry m' T va = entry m T va"
  proof (cases "T (pd_no va)")
    case (Some pt)
    then have "pt \<in> dir_pages pd T" using user_pd_no [OF va] by (auto simp: dir_pages_def)
    then show ?thesis using Some lw [OF _ pt_no_less] by (simp add: entry_def)
  qed (simp add: entry_def)
qed

lemma pd_wf_cong:
  assumes "pd_wf s pd T" "\<forall>p \<in> dir_pages pd T. \<forall>x. p \<le> x \<and> x < p + PGSIZE \<longrightarrow> ram s' x = ram s x"
    "palloc_inv s'" "allocated s \<subseteq> allocated s'" "\<forall>p \<in> allocated s'. kpg p"
  shows "pd_wf s' pd T"
proof -
  have "pd_ok (allocated s) (ram s') pd T" using dir_cong(1) [OF _ assms(2)] assms(1) by (simp add: pd_wf_def)
  then show ?thesis using assms(3-5) by (auto simp: pd_wf_def pd_ok_def)
qed

lemma store_word_page:
  assumes "kpg q" "j < 1024" "kpg p" "p \<noteq> q" "p \<le> x" "x < p + PGSIZE"
  shows "store_word m (q + 4 * j) w x = m x"
proof -
  have "x < q \<or> q + PGSIZE \<le> x" using aligned_disjoint [of q p x] assms by (simp add: kpg_def pg_ofs_def)
  then show ?thesis unfolding store_word_def using assms(2) by (intro store32_outside) (auto simp: PGSIZE_def)
qed

text \<open>The active directory is one of kernel memory; clearing the translation cache then changes nothing.\<close>

lemma invalidate_id: "cr3 s < 0x40000000 \<Longrightarrow> invalidate_pagedir pd s = Some s"
  by (auto simp: invalidate_pagedir_def active_pd_def ptov_def pagedir_activate_def vtop_def is_kernel_vaddr_def PHYS_BASE_def)

definition pagedir_of :: "vm \<Rightarrow> ptr \<Rightarrow> ptr" where
  "pagedir_of v t = p_pagedir (processes v t)"

definition dirs_ok :: "vm \<Rightarrow> ptr set \<Rightarrow> (ptr \<Rightarrow> nat \<Rightarrow> ptr option) \<Rightarrow> bool" where
  "dirs_ok v P D \<longleftrightarrow> (\<forall>t \<in> P. pd_wf v (pagedir_of v t) (D t)) \<and>
     (\<forall>t \<in> P. \<forall>t' \<in> P. t \<noteq> t' \<longrightarrow> dir_pages (pagedir_of v t) (D t) \<inter> dir_pages (pagedir_of v t') (D t') = {}) \<and>
     cr3 v < 0x40000000"

definition pte_of :: "vm \<Rightarrow> (ptr \<Rightarrow> nat \<Rightarrow> ptr option) \<Rightarrow> ptr \<Rightarrow> ptr \<Rightarrow> u32" where
  "pte_of v D t u = entry (ram v) (D t) u"

lemma pte_of_page: "pg_round_down a = pg_round_down b \<Longrightarrow> pte_of v D t a = pte_of v D t b"
  using same_page [of a b] by (simp add: pte_of_def entry_def split: option.split)

lemma dirs_okD: "dirs_ok v P D \<Longrightarrow> t \<in> P \<Longrightarrow> pd_wf v (pagedir_of v t) (D t)" "dirs_ok v P D \<Longrightarrow> cr3 v < 0x40000000"
  by (simp_all add: dirs_ok_def)

lemma dir_pages_kpg: "pd_wf s pd T \<Longrightarrow> p \<in> dir_pages pd T \<Longrightarrow> kpg p \<and> p \<in> allocated s"
  by (auto simp: pd_wf_def pd_ok_def dir_pages_def)

lemma store_in_dir:
  fixes w :: u32
  assumes d: "dirs_ok v P D" and t: "t \<in> P" and u: "is_user_vaddr u" "pte_at (D t) u \<noteq> NULL"
  defines "v' \<equiv> v\<lparr>ram := store_word (ram v) (pte_at (D t) u) w\<rparr>"
  shows "dirs_ok v' P D"
    "t' \<in> P \<Longrightarrow> is_user_vaddr va \<Longrightarrow> pte_of v' D t' va = (if t' = t \<and> pg_round_down va = pg_round_down u then w else pte_of v D t' va)"
proof -
  have wf: "pd_wf v (pagedir_of v t) (D t)" using dirs_okD(1) [OF d t] .
  obtain pt where pt: "D t (pd_no u) = Some pt" "pte_at (D t) u = pt + 4 * pt_no u" using u(2) by (auto simp: pte_at_def split: option.splits)
  have ptd: "pt \<in> dir_pages (pagedir_of v t) (D t)" using pt(1) user_pd_no [OF u(1)] by (auto simp: dir_pages_def)
  have pg: "pagedir_of v' x = pagedir_of v x" for x by (simp add: pagedir_of_def v'_def)
  have other: "\<forall>p \<in> dir_pages (pagedir_of v t') (D t'). \<forall>x. p \<le> x \<and> x < p + PGSIZE \<longrightarrow> ram v' x = ram v x"
    if t': "t' \<in> P" "t' \<noteq> t" for t'
  proof (intro ballI allI impI)
    fix p x assume p: "p \<in> dir_pages (pagedir_of v t') (D t')" and x: "p \<le> x \<and> x < p + PGSIZE"
    have "p \<noteq> pt" using d t t' p ptd unfolding dirs_ok_def by blast
    moreover have "kpg p" "kpg pt" using dir_pages_kpg [OF dirs_okD(1) [OF d t'(1)] p] dir_pages_kpg [OF wf ptd] by auto
    ultimately show "ram v' x = ram v x" using store_word_page [of pt "pt_no u" p x] x pt_no_less by (simp add: v'_def pt(2))
  qed
  have "pd_wf v' (pagedir_of v t') (D t')" if "t' \<in> P" for t'
  proof (cases "t' = t")
    case True
    then show ?thesis using store_pte(1) [OF wf u] by (simp add: v'_def)
  next
    case False
    then show ?thesis
      using pd_wf_cong [OF dirs_okD(1) [OF d that] other [OF that False]] dirs_okD(1) [OF d that]
      by (auto simp: v'_def pd_wf_def pd_ok_def palloc_inv_def allocated_def)
  qed
  moreover have "cr3 v' = cr3 v" by (simp add: v'_def)
  ultimately show "dirs_ok v' P D" using d by (simp add: dirs_ok_def pg)
  assume t': "t' \<in> P" and va: "is_user_vaddr va"
  show "pte_of v' D t' va = (if t' = t \<and> pg_round_down va = pg_round_down u then w else pte_of v D t' va)"
  proof (cases "t' = t")
    case True
    then show ?thesis using store_pte(2) [OF wf u va] by (simp add: v'_def pte_of_def)
  next
    case False
    have "pd_ok (allocated v) (ram v) (pagedir_of v t') (D t')" using dirs_okD(1) [OF d t'] by (simp add: pd_wf_def)
    from dir_cong(2) [OF this other [OF t' False] va] show ?thesis using False by (simp add: pte_of_def)
  qed
qed

text \<open>The operations on the bits of an entry.\<close>

lemma is_accessed_pte:
  assumes "dirs_ok v P D" "t \<in> P" "is_user_vaddr u"
  shows "pagedir_is_accessed (pagedir_of v t) u v = Some (pte_of v D t u AND PTE_A \<noteq> 0)"
    "pagedir_is_dirty (pagedir_of v t) u v = Some (pte_of v D t u AND PTE_D \<noteq> 0)"
  using lookup_page_entry [OF dirs_okD(1) [OF assms(1,2)] assms(3)]
  by (cases "pte_at (D t) u = NULL"; simp add: pagedir_is_accessed_def pagedir_is_dirty_def pte_of_def)+

lemma set_accessed_pte:
  assumes d: "dirs_ok v P D" and t: "t \<in> P" and u: "is_user_vaddr u"
  shows "\<exists>m. pagedir_set_accessed (pagedir_of v t) u False v = Some (v\<lparr>ram := m\<rparr>) \<and> dirs_ok (v\<lparr>ram := m\<rparr>) P D \<and>
    (\<forall>t' \<in> P. \<forall>va. is_user_vaddr va \<longrightarrow> pte_of (v\<lparr>ram := m\<rparr>) D t' va =
       (if t' = t \<and> pg_round_down va = pg_round_down u then pte_of v D t' va AND NOT PTE_A else pte_of v D t' va))"
proof (cases "pte_at (D t) u = NULL")
  case True
  note le = lookup_page_entry [OF dirs_okD(1) [OF d t] u]
  have z: "pte_of v D t va = 0" if "pg_round_down va = pg_round_down u" for va
    using le(2) [OF True] pte_of_page [OF that, of v D t] by (simp add: pte_of_def)
  have "pagedir_set_accessed (pagedir_of v t) u False v = Some (v\<lparr>ram := ram v\<rparr>)" using le(1) True by (simp add: pagedir_set_accessed_def)
  then show ?thesis using d z by (intro exI [of _ "ram v"]) auto
next
  case False
  note le = lookup_page_entry [OF dirs_okD(1) [OF d t] u]
  define m where "m = store_word (ram v) (pte_at (D t) u) (pte_of v D t u AND NOT PTE_A)"
  have "pagedir_set_accessed (pagedir_of v t) u False v = Some (v\<lparr>ram := m\<rparr>)"
    using le(1,3) False dirs_okD(2) [OF d] by (simp add: pagedir_set_accessed_def m_def pte_of_def invalidate_id)
  moreover note si = store_in_dir [OF d t u False, where w = "pte_of v D t u AND NOT PTE_A", folded m_def]
  moreover have "pte_of (v\<lparr>ram := m\<rparr>) D t' va = (if t' = t \<and> pg_round_down va = pg_round_down u then pte_of v D t' va AND NOT PTE_A else pte_of v D t' va)"
    if "t' \<in> P" "is_user_vaddr va" for t' va
    using si(2) [OF that] pte_of_page [of va u v D t] by (cases "t' = t \<and> pg_round_down va = pg_round_down u") (simp_all only: simp_thms if_True if_False)
  ultimately show ?thesis by blast
qed

end
