(* ===== verification/Frame_Table.thy ===== *)
theory Frame_Table
  imports Address_Spaces
begin

text \<open>
  The frame table and the eviction of frames: \<^verbatim>\<open>vm/frame.c\<close>. The table is the list of the addresses of its entries. The
  clock algorithm is shown to find a victim whenever a frame is not pinned, and to choose one that was not accessed
  recently.
\<close>

subsection \<open>The code\<close>

definition frame_init :: "vm \<Rightarrow> vm" where
  "frame_init v = v\<lparr>frame_table := [], clock_hand := HNull, locks_held := locks_held v - {Frame_Lock}\<rparr>"

fun find_frame_loop :: "ptr \<Rightarrow> ptr list \<Rightarrow> vm \<Rightarrow> ptr option" where
  "find_frame_loop kpage [] v = Some NULL"
| "find_frame_loop kpage (e # es) v = do {
     fr \<leftarrow> frames v e;
     if fr_kpage fr = kpage then Some e else find_frame_loop kpage es v }"

definition find_frame :: "ptr \<Rightarrow> vm \<Rightarrow> ptr option" where
  "find_frame kpage v = find_frame_loop kpage (frame_table v) v"

text \<open>\<^verbatim>\<open>list_next\<close> and \<^verbatim>\<open>list_begin\<close> on the frame table; the next element of an element that is not in the list does not exist.\<close>

fun next_frame :: "ptr \<Rightarrow> ptr list \<Rightarrow> hand option" where
  "next_frame e [] = None"
| "next_frame e (q # qs) = (if q = e then Some (case qs of [] \<Rightarrow> HEnd | r # _ \<Rightarrow> HAt r) else next_frame e qs)"

definition first_frame :: "vm \<Rightarrow> hand" where
  "first_frame v = (case frame_table v of [] \<Rightarrow> HEnd | e # _ \<Rightarrow> HAt e)"

definition advance_hand :: "ptr \<Rightarrow> vm \<Rightarrow> vm option" where
  "advance_hand e v = do {
     h \<leftarrow> next_frame e (frame_table v);
     Some (v\<lparr>clock_hand := (if h = HEnd then first_frame v else h)\<rparr>) }"

text \<open>The loop of \<open>evict_frame\<close>; the first argument is the number of iterations left.\<close>

fun clock_loop :: "nat \<Rightarrow> vm \<Rightarrow> (vm \<times> ptr) option" where
  "clock_loop 0 v = Some (v, NULL)"
| "clock_loop (Suc n) v = (case clock_hand v of
     HAt e \<Rightarrow> do {
       fr \<leftarrow> frames v e;
       let pd = p_pagedir (processes v (fr_owner fr));
       acc \<leftarrow> (if fr_pinned fr then Some True else pagedir_is_accessed pd (fr_upage fr) v);
       if \<not> fr_pinned fr \<and> \<not> acc then Some (v, e)
       else do {
         v \<leftarrow> (if fr_pinned fr then Some v else pagedir_set_accessed pd (fr_upage fr) False v);
         v \<leftarrow> advance_hand e v;
         clock_loop n v } }
   | _ \<Rightarrow> None)"

text \<open>What eviction does with the supplemental page table entry of the page.\<close>

definition evict_entry :: "ptr \<Rightarrow> ptr \<Rightarrow> ptr \<Rightarrow> bool \<Rightarrow> vm \<Rightarrow> vm option" where
  "evict_entry owner upage kpage dirty v = do {
     let p = spt_get_entry owner upage v;
     if p = NULL then Some v else do {
       v \<leftarrow> mutex_acquire (Spt_Lock owner) v;
       v \<leftarrow> upd_entry p (\<lambda>e. e\<lparr>se_loaded := False, se_kpage := NULL\<rparr>) v;
       e \<leftarrow> spt_entries v p;
       let is_mmap = (se_type e = PAGE_MMAP);
       v \<leftarrow> mutex_release (Spt_Lock owner) v;
       if is_mmap \<and> dirty then do {
         v \<leftarrow> mutex_acquire File_Lock v;
         v \<leftarrow> fs_do (file_seek (se_file e) (se_file_offset e)) v;
         (v, _) \<leftarrow> file_write_mem (se_file e) kpage (s32 (int (se_read_bytes e))) v;
         mutex_release File_Lock v }
       else if \<not> is_mmap \<and> (dirty \<or> se_writable e) then do {
         (v, slot) \<leftarrow> swap_out kpage v;
         v \<leftarrow> mutex_acquire (Spt_Lock owner) v;
         v \<leftarrow> upd_entry p (\<lambda>e. e\<lparr>se_type := PAGE_SWAP, se_swap_slot := slot\<rparr>) v;
         mutex_release (Spt_Lock owner) v }
       else Some v } }"

definition evict_frame :: "vm \<Rightarrow> (vm \<times> ptr) option" where
  "evict_frame v = (if frame_table v = [] then Some (v, NULL) else do {
     let v = (if clock_hand v = HNull \<or> clock_hand v = HEnd then v\<lparr>clock_hand := first_frame v\<rparr> else v);
     (v, victim) \<leftarrow> clock_loop (usz (length (frame_table v) * 2)) v;
     if victim = NULL then Some (v, NULL) else do {
       fr \<leftarrow> frames v victim;
       let pd = p_pagedir (processes v (fr_owner fr));
       dirty \<leftarrow> pagedir_is_dirty pd (fr_upage fr) v;
       v \<leftarrow> pagedir_clear_page pd (fr_upage fr) v;
       v \<leftarrow> advance_hand victim v;
       let v = v\<lparr>frame_table := remove1 victim (frame_table v), frames := (frames v)(victim := None)\<rparr>;
       v \<leftarrow> evict_entry (fr_owner fr) (fr_upage fr) (fr_kpage fr) dirty v;
       Some (v, fr_kpage fr) } })"

definition frame_alloc :: "nat \<Rightarrow> ptr \<Rightarrow> vm \<Rightarrow> (vm \<times> ptr) option" where
  "frame_alloc flags upage v = do {
     ASSERT (flags AND PAL_USER \<noteq> 0);
     (v, kpage) \<leftarrow> palloc_get_page flags v;
     (v, kpage) \<leftarrow> (if kpage = NULL then do {
         (v, kpage) \<leftarrow> evict_frame v;
         ASSERT (kpage \<noteq> NULL);
         Some (if flags AND PAL_ZERO \<noteq> 0 then v\<lparr>ram := memset_loop (ram v) kpage 0 PGSIZE\<rparr> else v, kpage) }
       else Some (v, kpage));
     let (v, entry) = kmalloc v;
     if entry = NULL then do { v \<leftarrow> palloc_free_page kpage v; Some (v, NULL) }
     else Some (v\<lparr>frames := (frames v)(entry \<mapsto> \<lparr>fr_kpage = kpage, fr_upage = upage, fr_owner = cur_thread v, fr_pinned = False\<rparr>),
                  frame_table := frame_table v @ [entry]\<rparr>, kpage) }"

definition frame_free :: "ptr \<Rightarrow> vm \<Rightarrow> vm option" where
  "frame_free kpage v = do {
     entry \<leftarrow> find_frame kpage v;
     v \<leftarrow> (if entry \<noteq> NULL then do {
         v \<leftarrow> (if clock_hand v = HAt entry then advance_hand entry v else Some v);
         Some (v\<lparr>frame_table := remove1 entry (frame_table v), frames := (frames v)(entry := None)\<rparr>) }
       else Some v);
     palloc_free_page kpage v }"

definition set_pinned :: "ptr \<Rightarrow> bool \<Rightarrow> vm \<Rightarrow> vm option" where
  "set_pinned kpage b v = do {
     v \<leftarrow> mutex_acquire Frame_Lock v;
     entry \<leftarrow> find_frame kpage v;
     v \<leftarrow> (if entry \<noteq> NULL then do { fr \<leftarrow> frames v entry; Some (v\<lparr>frames := (frames v)(entry \<mapsto> fr\<lparr>fr_pinned := b\<rparr>)\<rparr>) } else Some v);
     mutex_release Frame_Lock v }"

definition frame_pin :: "ptr \<Rightarrow> vm \<Rightarrow> vm option" where
  "frame_pin kpage v = set_pinned kpage True v"

definition frame_unpin :: "ptr \<Rightarrow> vm \<Rightarrow> vm option" where
  "frame_unpin kpage v = set_pinned kpage False v"

subsection \<open>The clock\<close>

definition pinned :: "vm \<Rightarrow> ptr \<Rightarrow> bool" where
  "pinned v e \<longleftrightarrow> (case frames v e of None \<Rightarrow> False | Some fr \<Rightarrow> fr_pinned fr)"

definition accessed :: "vm \<Rightarrow> (ptr \<Rightarrow> nat \<Rightarrow> ptr option) \<Rightarrow> ptr \<Rightarrow> bool" where
  "accessed v D e \<longleftrightarrow> (case frames v e of None \<Rightarrow> False | Some fr \<Rightarrow> pte_of v D (fr_owner fr) (fr_upage fr) AND PTE_A \<noteq> 0)"

text \<open>A well-formed table: every element is an allocated entry for a page of a process in \<open>P\<close>, a different page for each.\<close>

definition page_of :: "vm \<Rightarrow> ptr \<Rightarrow> (ptr \<times> ptr) option" where
  "page_of v e = map_option (\<lambda>fr. (fr_owner fr, pg_round_down (fr_upage fr))) (frames v e)"

definition table_wf :: "vm \<Rightarrow> ptr set \<Rightarrow> (ptr \<Rightarrow> nat \<Rightarrow> ptr option) \<Rightarrow> bool" where
  "table_wf v P D \<longleftrightarrow> dirs_ok v P D \<and> distinct (frame_table v) \<and> NULL \<notin> set (frame_table v) \<and>
     (\<forall>e \<in> set (frame_table v). \<exists>fr. frames v e = Some fr \<and> fr_owner fr \<in> P \<and> is_user_vaddr (fr_upage fr)) \<and>
     inj_on (page_of v) (set (frame_table v))"

text \<open>The entries in the order in which the clock hand visits them.\<close>

definition at_hand :: "vm \<Rightarrow> ptr list \<Rightarrow> bool" where
  "at_hand v zs \<longleftrightarrow> (\<exists>xs ys. frame_table v = xs @ ys \<and> zs = ys @ xs \<and> ys \<noteq> [] \<and> clock_hand v = HAt (hd ys))"

lemma at_hand_set: "at_hand v zs \<Longrightarrow> set zs = set (frame_table v) \<and> length zs = length (frame_table v) \<and> distinct zs = distinct (frame_table v)"
  by (auto simp: at_hand_def)

lemma next_frame_split: "e \<notin> set xs \<Longrightarrow> next_frame e (xs @ e # ys) = Some (case ys of [] \<Rightarrow> HEnd | r # _ \<Rightarrow> HAt r)"
  by (induction xs) auto

lemma advance_at_hand:
  assumes h: "at_hand v (z # zs)" and d: "distinct (frame_table v)"
  shows "clock_hand v = HAt z" "\<exists>h. advance_hand z v = Some (v\<lparr>clock_hand := h\<rparr>) \<and> at_hand (v\<lparr>clock_hand := h\<rparr>) (zs @ [z])"
proof -
  obtain xs ys where x: "frame_table v = xs @ ys" "z # zs = ys @ xs" "ys \<noteq> []" "clock_hand v = HAt (hd ys)"
    using h by (auto simp: at_hand_def)
  then obtain ys' where y: "ys = z # ys'" "zs = ys' @ xs" by (cases ys) auto
  show "clock_hand v = HAt z" using x(4) y(1) by simp
  have n: "next_frame z (frame_table v) = Some (case ys' of [] \<Rightarrow> HEnd | r # _ \<Rightarrow> HAt r)"
    using d x(1) y(1) by (simp add: next_frame_split)
  show "\<exists>h. advance_hand z v = Some (v\<lparr>clock_hand := h\<rparr>) \<and> at_hand (v\<lparr>clock_hand := h\<rparr>) (zs @ [z])"
  proof (cases ys')
    case Nil
    then have "advance_hand z v = Some (v\<lparr>clock_hand := HAt (hd (xs @ [z]))\<rparr>)"
      using n x(1) y(1) by (cases xs) (simp_all add: advance_hand_def first_frame_def)
    moreover have "at_hand (v\<lparr>clock_hand := HAt (hd (xs @ [z]))\<rparr>) (zs @ [z])"
      unfolding at_hand_def using x(1) y Nil by (intro exI [of _ "[]"] exI [of _ "xs @ [z]"]) simp
    ultimately show ?thesis by blast
  next
    case (Cons r rs)
    then have "advance_hand z v = Some (v\<lparr>clock_hand := HAt r\<rparr>)" using n by (simp add: advance_hand_def)
    moreover have "at_hand (v\<lparr>clock_hand := HAt r\<rparr>) (zs @ [z])"
      unfolding at_hand_def using x(1) y Cons by (intro exI [of _ "xs @ [z]"] exI [of _ ys']) simp
    ultimately show ?thesis by blast
  qed
qed

text \<open>What the scan changes: the accessed bits, which it clears, and the hand.\<close>

definition scanned :: "ptr set \<Rightarrow> (ptr \<Rightarrow> nat \<Rightarrow> ptr option) \<Rightarrow> vm \<Rightarrow> vm \<Rightarrow> bool" where
  "scanned P D v v' \<longleftrightarrow> (\<exists>m h. v' = v\<lparr>ram := m, clock_hand := h\<rparr>) \<and> table_wf v' P D \<and>
     (\<forall>e \<in> set (frame_table v). accessed v' D e \<longrightarrow> accessed v D e)"

lemma scannedI:
  "table_wf v P D \<Longrightarrow> scanned P D v v"
  "table_wf (v\<lparr>clock_hand := h\<rparr>) P D \<Longrightarrow> (\<And>e. accessed (v\<lparr>clock_hand := h\<rparr>) D e = accessed v D e) \<Longrightarrow> scanned P D v (v\<lparr>clock_hand := h\<rparr>)"
  "table_wf (v\<lparr>ram := m\<rparr>) P D \<Longrightarrow> (\<And>e. e \<in> set (frame_table v) \<Longrightarrow> accessed (v\<lparr>ram := m\<rparr>) D e \<Longrightarrow> accessed v D e) \<Longrightarrow> scanned P D v (v\<lparr>ram := m\<rparr>)"
proof -
  have "\<exists>m h. v = v\<lparr>ram := m, clock_hand := h\<rparr>" by (intro exI [of _ "ram v"] exI [of _ "clock_hand v"]) simp
  then show "table_wf v P D \<Longrightarrow> scanned P D v v" by (simp add: scanned_def)
  have "\<exists>m h'. v\<lparr>clock_hand := h\<rparr> = v\<lparr>ram := m, clock_hand := h'\<rparr>" by (intro exI [of _ "ram v"] exI [of _ h]) simp
  then show "table_wf (v\<lparr>clock_hand := h\<rparr>) P D \<Longrightarrow> (\<And>e. accessed (v\<lparr>clock_hand := h\<rparr>) D e = accessed v D e) \<Longrightarrow> scanned P D v (v\<lparr>clock_hand := h\<rparr>)"
    by (simp add: scanned_def)
  have "\<exists>m' h. v\<lparr>ram := m\<rparr> = v\<lparr>ram := m', clock_hand := h\<rparr>" by (intro exI [of _ m] exI [of _ "clock_hand v"]) simp
  then show "table_wf (v\<lparr>ram := m\<rparr>) P D \<Longrightarrow> (\<And>e. e \<in> set (frame_table v) \<Longrightarrow> accessed (v\<lparr>ram := m\<rparr>) D e \<Longrightarrow> accessed v D e) \<Longrightarrow> scanned P D v (v\<lparr>ram := m\<rparr>)"
    by (simp add: scanned_def)
qed

lemma scanned_frames: "scanned P D v v' \<Longrightarrow> frame_table v' = frame_table v \<and> frames v' = frames v \<and> pinned v' = pinned v"
  by (auto simp: scanned_def pinned_def)

lemma scanned_trans: "scanned P D v v' \<Longrightarrow> scanned P D v' v'' \<Longrightarrow> scanned P D v v''"
  by (fastforce simp: scanned_def)

lemma table_wf_hand: "table_wf (v\<lparr>clock_hand := h\<rparr>) P D \<longleftrightarrow> table_wf v P D" "accessed (v\<lparr>clock_hand := h\<rparr>) D e \<longleftrightarrow> accessed v D e"
  by (simp_all add: table_wf_def dirs_ok_def pagedir_of_def pd_wf_def palloc_inv_def allocated_def page_of_def inj_on_def accessed_def pte_of_def
      split: option.split)

lemma advance_scanned:
  assumes h: "at_hand v (z # zs)" and w: "table_wf v P D"
  shows "\<exists>v1. advance_hand z v = Some v1 \<and> at_hand v1 (zs @ [z]) \<and> scanned P D v v1 \<and> (\<forall>e. accessed v1 D e = accessed v D e)"
proof -
  have "distinct (frame_table v)" using w by (simp add: table_wf_def)
  from advance_at_hand(2) [OF h this] obtain h where
    "advance_hand z v = Some (v\<lparr>clock_hand := h\<rparr>)" "at_hand (v\<lparr>clock_hand := h\<rparr>) (zs @ [z])" by blast
  moreover have "scanned P D v (v\<lparr>clock_hand := h\<rparr>)"
    using w by (intro scannedI(2)) (simp_all add: table_wf_hand)
  ultimately show ?thesis by (auto simp: table_wf_hand)
qed

lemma clear_scanned:
  assumes w: "table_wf v P D" and z: "z \<in> set (frame_table v)" "frames v z = Some fr"
  shows "\<exists>m. pagedir_set_accessed (p_pagedir (processes v (fr_owner fr))) (fr_upage fr) False v = Some (v\<lparr>ram := m\<rparr>) \<and>
    scanned P D v (v\<lparr>ram := m\<rparr>) \<and>
    (\<forall>e \<in> set (frame_table v). accessed (v\<lparr>ram := m\<rparr>) D e \<longleftrightarrow> e \<noteq> z \<and> accessed v D e)"
proof -
  have o: "fr_owner fr \<in> P" "is_user_vaddr (fr_upage fr)" and d: "dirs_ok v P D" using w z by (auto simp: table_wf_def)
  obtain m where m: "pagedir_set_accessed (pagedir_of v (fr_owner fr)) (fr_upage fr) False v = Some (v\<lparr>ram := m\<rparr>)"
    "dirs_ok (v\<lparr>ram := m\<rparr>) P D"
    "\<forall>t' \<in> P. \<forall>va. is_user_vaddr va \<longrightarrow> pte_of (v\<lparr>ram := m\<rparr>) D t' va =
       (if t' = fr_owner fr \<and> pg_round_down va = pg_round_down (fr_upage fr) then pte_of v D t' va AND NOT PTE_A else pte_of v D t' va)"
    using set_accessed_pte [OF d o] by blast
  have a: "accessed (v\<lparr>ram := m\<rparr>) D e \<longleftrightarrow> e \<noteq> z \<and> accessed v D e" if e: "e \<in> set (frame_table v)" for e
  proof -
    obtain f where f: "frames v e = Some f" "fr_owner f \<in> P" "is_user_vaddr (fr_upage f)" using w e by (auto simp: table_wf_def)
    have "e = z \<longleftrightarrow> page_of v e = page_of v z" using w e z(1) by (auto simp: table_wf_def inj_on_def)
    also have "\<dots> \<longleftrightarrow> fr_owner f = fr_owner fr \<and> pg_round_down (fr_upage f) = pg_round_down (fr_upage fr)"
      using f(1) z(2) by (simp add: page_of_def)
    finally have "pte_of (v\<lparr>ram := m\<rparr>) D (fr_owner f) (fr_upage f) =
        (if e = z then pte_of v D (fr_owner f) (fr_upage f) AND NOT PTE_A else pte_of v D (fr_owner f) (fr_upage f))"
      using m(3) f(2,3) by simp
    moreover have "(x AND NOT PTE_A) AND PTE_A = 0" for x :: u32 by (simp add: bit_eq_iff bit_simps)
    ultimately show ?thesis using f(1) by (simp add: accessed_def)
  qed
  moreover have "table_wf (v\<lparr>ram := m\<rparr>) P D" using w m(2) by (simp add: table_wf_def page_of_def inj_on_def)
  then have "scanned P D v (v\<lparr>ram := m\<rparr>)" using a by (intro scannedI(3)) blast+
  ultimately show ?thesis using m(1) unfolding pagedir_of_def by blast
qed

text \<open>
  One round of the clock over \<open>as\<close>: it stops at the first frame that is neither pinned nor accessed, or clears the accessed bits
  of all frames of \<open>as\<close> that are not pinned.
\<close>

lemma clock_pass:
  assumes "table_wf v P D" "at_hand v (as @ bs)"
  shows "(\<exists>v' e. (\<forall>n. clock_loop (length as + n) v = Some (v', e)) \<and> e \<in> set as \<and> \<not> pinned v e \<and> \<not> accessed v D e \<and> scanned P D v v') \<or>
    (\<exists>v'. (\<forall>n. clock_loop (length as + n) v = clock_loop n v') \<and> at_hand v' (bs @ as) \<and> scanned P D v v' \<and>
       (\<forall>e \<in> set as. pinned v e \<or> accessed v D e) \<and> (\<forall>e \<in> set as. pinned v e \<or> \<not> accessed v' D e))"
  using assms
proof (induction as arbitrary: v bs)
  case Nil
  then show ?case using scannedI(1) by (intro disjI2 exI [of _ v]) simp
next
  case (Cons z as)
  have d: "distinct (z # as @ bs)" and z: "z \<in> set (frame_table v)" and za: "set as \<subseteq> set (frame_table v)"
    using at_hand_set [OF Cons.prems(2)] Cons.prems(1) by (auto simp: table_wf_def)
  obtain fr where fr: "frames v z = Some fr" "fr_owner fr \<in> P" "is_user_vaddr (fr_upage fr)"
    using Cons.prems(1) z by (auto simp: table_wf_def)
  have dd: "dirs_ok v P D" "distinct (frame_table v)" using Cons.prems(1) by (auto simp: table_wf_def)
  have hand: "clock_hand v = HAt z" using advance_at_hand(1) [of v z "as @ bs"] Cons.prems(2) dd(2) by simp
  have acc: "pagedir_is_accessed (p_pagedir (processes v (fr_owner fr))) (fr_upage fr) v = Some (accessed v D z)"
    using is_accessed_pte(1) [OF dd(1) fr(2,3)] fr(1) by (simp add: accessed_def pagedir_of_def)
  have pin: "pinned v z = fr_pinned fr" using fr(1) by (simp add: pinned_def)
  show ?case
  proof (cases "\<not> pinned v z \<and> \<not> accessed v D z")
    case True
    then have "clock_loop (length (z # as) + n) v = Some (v, z)" for n using hand fr(1) acc pin by simp
    then show ?thesis using True scannedI(1) [OF Cons.prems(1)] by (intro disjI1 exI [of _ v] exI [of _ z]) simp
  next
    case False
    obtain v0 where v0: "(if fr_pinned fr then Some v else pagedir_set_accessed (p_pagedir (processes v (fr_owner fr))) (fr_upage fr) False v) = Some v0"
      "scanned P D v v0" "\<forall>e \<in> set (frame_table v). e \<noteq> z \<longrightarrow> accessed v0 D e = accessed v D e" "pinned v z \<or> \<not> accessed v0 D z"
      "at_hand v0 (z # as @ bs)"
    proof (cases "fr_pinned fr")
      case True
      then show ?thesis using that [of v] scannedI(1) [OF Cons.prems(1)] pin Cons.prems(2) by simp
    next
      case np: False
      obtain m where "pagedir_set_accessed (p_pagedir (processes v (fr_owner fr))) (fr_upage fr) False v = Some (v\<lparr>ram := m\<rparr>)"
        "scanned P D v (v\<lparr>ram := m\<rparr>)" "\<forall>e \<in> set (frame_table v). accessed (v\<lparr>ram := m\<rparr>) D e \<longleftrightarrow> e \<noteq> z \<and> accessed v D e"
        using clear_scanned [OF Cons.prems(1) z fr(1)] by blast
      moreover have "at_hand (v\<lparr>ram := m\<rparr>) (z # as @ bs)" using Cons.prems(2) by (simp add: at_hand_def)
      ultimately show ?thesis using that [of "v\<lparr>ram := m\<rparr>"] np z by simp
    qed
    have w0: "table_wf v0 P D" using v0(2) by (simp add: scanned_def)
    obtain v1 where v1: "advance_hand z v0 = Some v1" "at_hand v1 (as @ bs @ [z])" "scanned P D v0 v1" "\<forall>e. accessed v1 D e = accessed v0 D e"
      using advance_scanned [OF v0(5) w0] by auto
    have s1: "scanned P D v v1" using scanned_trans [OF v0(2) v1(3)] .
    have step: "clock_loop (length (z # as) + n) v = clock_loop (length as + n) v1" for n
      using hand fr(1) acc pin False v0(1) v1(1) by (auto split: if_splits)
    have same: "accessed v1 D e = accessed v D e" if "e \<in> set as" for e using v1(4) v0(3) that za d by auto
    have z1: "pinned v z \<or> \<not> accessed v1 D z" using v0(4) v1(4) by simp
    have p1: "pinned v1 = pinned v" using scanned_frames [OF s1] by simp
    have w1: "table_wf v1 P D" using s1 by (simp add: scanned_def)
    from Cons.IH [OF w1 v1(2)] show ?thesis
    proof
      assume "\<exists>v' e. (\<forall>n. clock_loop (length as + n) v1 = Some (v', e)) \<and> e \<in> set as \<and> \<not> pinned v1 e \<and> \<not> accessed v1 D e \<and> scanned P D v1 v'"
      then obtain v' e where r: "\<forall>n. clock_loop (length as + n) v1 = Some (v', e)" "e \<in> set as" "\<not> pinned v1 e" "\<not> accessed v1 D e" "scanned P D v1 v'" by blast
      then show ?thesis using scanned_trans [OF s1 r(5)] same p1 step by (intro disjI1 exI [of _ v'] exI [of _ e]) simp
    next
      assume "\<exists>v'. (\<forall>n. clock_loop (length as + n) v1 = clock_loop n v') \<and> at_hand v' ((bs @ [z]) @ as) \<and> scanned P D v1 v' \<and>
        (\<forall>e \<in> set as. pinned v1 e \<or> accessed v1 D e) \<and> (\<forall>e \<in> set as. pinned v1 e \<or> \<not> accessed v' D e)"
      then obtain v' where r: "\<forall>n. clock_loop (length as + n) v1 = clock_loop n v'" "at_hand v' ((bs @ [z]) @ as)" "scanned P D v1 v'"
        "\<forall>e \<in> set as. pinned v1 e \<or> accessed v1 D e" "\<forall>e \<in> set as. pinned v1 e \<or> \<not> accessed v' D e" by blast
      have "pinned v z \<or> \<not> accessed v' D z" using z1 r(3) z scanned_frames [OF s1] by (auto simp: scanned_def)
      then show ?thesis using r scanned_trans [OF s1 r(3)] same p1 step False by (intro disjI2 exI [of _ v']) auto
    qed
  qed
qed

lemma hand_in_table:
  assumes "h \<in> set (frame_table v)" "clock_hand v = HAt h"
  shows "\<exists>zs. at_hand v zs"
proof -
  obtain xs ys where "frame_table v = xs @ h # ys" using split_list [OF assms(1)] by blast
  then have "at_hand v ((h # ys) @ xs)" unfolding at_hand_def using assms(2) by (intro exI [of _ xs] exI [of _ "h # ys"]) simp
  then show ?thesis by blast
qed

lemma clock_two_rounds:
  assumes w: "table_wf v P D" and h: "at_hand v zs"
  shows "\<exists>v' e. clock_loop (length zs * 2) v = Some (v', e) \<and> scanned P D v v' \<and> (e = NULL \<longleftrightarrow> (\<forall>x \<in> set zs. pinned v x)) \<and>
    (e \<noteq> NULL \<longrightarrow> e \<in> set zs \<and> \<not> pinned v e \<and> \<not> accessed v' D e \<and> ((\<exists>x \<in> set zs. \<not> pinned v x \<and> \<not> accessed v D x) \<longrightarrow> \<not> accessed v D e))"
proof -
  have nz: "e \<noteq> NULL" if "e \<in> set zs" for e using that at_hand_set [OF h] w unfolding table_wf_def by metis
  have mono: "\<not> accessed v' D e" if "scanned P D u v'" "\<not> accessed u D e" "e \<in> set (frame_table u)" for u v' e
    using that by (auto simp: scanned_def)
  have n2: "length zs * 2 = length zs + (length zs + 0)" by simp
  consider (found) v' e where "\<forall>n. clock_loop (length zs + n) v = Some (v', e)" "e \<in> set zs" "\<not> pinned v e" "\<not> accessed v D e" "scanned P D v v'"
    | (again) v1 where "\<forall>n. clock_loop (length zs + n) v = clock_loop n v1" "at_hand v1 zs" "scanned P D v v1"
      "\<forall>e \<in> set zs. pinned v e \<or> accessed v D e" "\<forall>e \<in> set zs. pinned v e \<or> \<not> accessed v1 D e"
    using clock_pass [OF w, of zs "[]"] h by auto
  then show ?thesis
  proof cases
    case found
    have e: "e \<in> set (frame_table v)" using found(2) at_hand_set [OF h] by simp
    show ?thesis
      unfolding n2 using found nz [OF found(2)] mono [OF found(5,4) e] by (intro exI [of _ v'] exI [of _ e]) auto
  next
    case again
    have w1: "table_wf v1 P D" and f1: "frame_table v1 = frame_table v" "pinned v1 = pinned v"
      using again(3) scanned_frames [OF again(3)] by (auto simp: scanned_def)
    consider (found1) v' e where "\<forall>n. clock_loop (length zs + n) v1 = Some (v', e)" "e \<in> set zs" "\<not> pinned v1 e" "\<not> accessed v1 D e" "scanned P D v1 v'"
      | (none) v' where "\<forall>n. clock_loop (length zs + n) v1 = clock_loop n v'" "scanned P D v1 v'" "\<forall>e \<in> set zs. pinned v1 e \<or> accessed v1 D e"
      using clock_pass [OF w1, of zs "[]"] again(2) by auto
    then show ?thesis
    proof cases
      case found1
      have e: "e \<in> set (frame_table v1)" using found1(2) at_hand_set [OF again(2)] by simp
      show ?thesis unfolding n2
        using spec [OF found1(1), of 0] found1(2-) again(1,4) f1 scanned_trans [OF again(3) found1(5)] nz [OF found1(2)] mono [OF found1(5,4) e]
        by (intro exI [of _ v'] exI [of _ e]) auto
    next
      case none
      have "\<forall>x \<in> set zs. pinned v x" using none(3) again(5) f1 by auto
      then show ?thesis unfolding n2 using spec [OF none(1), of 0] again(1) scanned_trans [OF again(3) none(2)] by (intro exI [of _ v'] exI [of _ NULL]) simp
    qed
  qed
qed


text \<open>A state with one process, whose page directory is empty, and one frame.\<close>

definition small_fsys :: fsys where
  "small_fsys = \<lparr>fs_device = \<lparr>b_name = ''hd'', b_type = BLOCK_FILESYS, b_size = 16, b_disk = \<lambda>_. replicate 512 0, read_cnt = 0, write_cnt = 0\<rparr>,
     fs_mem = \<lambda>n. 1000 + n, inodes = \<lambda>_. None, open_inodes = [], files = \<lambda>_. None, free_map = \<lparr>bit_cnt = 16, bits = [3]\<rparr>, free_map_file = NULL\<rparr>"

definition small_process :: process where
  "small_process = \<lparr>p_pagedir = 0xc0100000, p_spt = fst (hash_init True spt_hash_func spt_less_func), p_esp_on_syscall = NULL,
     p_mmap_list = [], p_file_descriptors = replicate 128 NULL, p_executable = NULL, p_my_record = NULL, p_children = []\<rparr>"

definition small_vm :: vm where
  "small_vm = \<lparr>ram = \<lambda>_. 0, kernel_pool = \<lparr>used_map = \<lparr>bit_cnt = 4, bits = [1]\<rparr>, pool_base = 0xc0100000\<rparr>,
     user_pool = \<lparr>used_map = \<lparr>bit_cnt = 2, bits = [1]\<rparr>, pool_base = 0xc0200000\<rparr>,
     init_ram_pages = 1024, init_page_dir = 0xc0000000, cr3 = 0x100000, locks_held = {}, swap_block = None, swap_table = None,
     fs = small_fsys, cur_thread = 1, processes = \<lambda>_. small_process, child_records = \<lambda>_. None, spt_entries = \<lambda>_. None,
     frame_table = [50], frames = [50 \<mapsto> \<lparr>fr_kpage = 0xc0200000, fr_upage = 0x8048000, fr_owner = 1, fr_pinned = False\<rparr>],
     clock_hand = HAt 50, next_mapid = 1, page_fault_cnt = 0, input_chars = \<lambda>_. 0, console_out = []\<rparr>"

lemma small_vm_inv: "palloc_inv small_vm"
  by (simp add: small_vm_def palloc_inv_def pool_ok_def bm_wf_def elem_cnt_def ELEM_BITS_def pg_ofs_def PGSIZE_def PHYS_BASE_def)

lemma small_vm_allocated: "allocated small_vm = {0xc0100000, 0xc0200000}"
  by (auto simp: allocated_def used_of_def small_vm_def PGSIZE_def bm_bit_def bit_1_iff)

lemma small_vm_dirs: "dirs_ok small_vm {1} (\<lambda>_ _. None)"
proof -
  have "pd_wf small_vm 0xc0100000 (\<lambda>_. None)"
    unfolding pd_wf_def pd_ok_def small_vm_allocated using small_vm_inv
    by (simp add: small_vm_def kpg_def pg_ofs_def PGSIZE_def PHYS_BASE_def load_word_def load32_def)
  moreover have "pagedir_of small_vm 1 = 0xc0100000" "cr3 small_vm = 0x100000" by (simp_all add: pagedir_of_def small_vm_def small_process_def)
  ultimately show ?thesis by (simp add: dirs_ok_def)
qed

lemma small_vm_table: "table_wf small_vm {1} (\<lambda>_ _. None)"
  using small_vm_dirs by (simp add: table_wf_def) (simp add: small_vm_def is_user_vaddr_def PHYS_BASE_def)


subsection \<open>A hand without a frame\<close>

lemma palloc_free_more: "palloc_free_page p s = Some s' \<Longrightarrow> machine.more s' = machine.more s"
  by (auto simp: palloc_free_page_def palloc_free_multiple_def set_pool_def Let_def split: if_splits option.splits elim!: bind_eq_SomeE)

lemma vm_more: "machine.more v' = machine.more v \<Longrightarrow> clock_hand v' = clock_hand v \<and> frame_table v' = frame_table v \<and> frames v' = frames v" for v v' :: vm
  by (cases v; cases v') auto



end
