(* ===== verification/Supp_Page_Table.thy ===== *)
theory Supp_Page_Table
  imports Frame_Table
begin

text \<open>
  The supplemental page table: \<^verbatim>\<open>vm/page.c\<close>. The functions take the thread whose table it is. The results of \<^verbatim>\<open>malloc\<close> in
  the hash table decide only whether it changes its number of buckets, and are taken only when it asks for memory.
\<close>

subsection \<open>The code\<close>

definition spt_init :: "ptr \<Rightarrow> vm \<Rightarrow> vm" where
  "spt_init t v =
     (let (v, m) = kmalloc v;
          (h, _) = hash_init (m \<noteq> NULL) spt_hash_func spt_less_func
      in upd_process t (\<lambda>p. p\<lparr>p_spt := h\<rparr>) (v\<lparr>locks_held := locks_held v - {Spt_Lock t}\<rparr>))"

definition check_write_back :: "spt_entry \<Rightarrow> vm \<Rightarrow> vm option" where
  "check_write_back e v =
     (if se_type e = PAGE_MMAP \<and> se_loaded e \<and> se_kpage e \<noteq> NULL then do {
        let pd = p_pagedir (cur_process v);
        kpage \<leftarrow> pagedir_get_page pd (se_upage e) v;
        if kpage \<noteq> NULL then do {
          dirty \<leftarrow> pagedir_is_dirty pd (se_upage e) v;
          if dirty then do {
            v \<leftarrow> mutex_acquire File_Lock v;
            (v, _) \<leftarrow> file_write_at_mem (se_file e) kpage (s32 (int (se_read_bytes e))) (se_file_offset e) v;
            mutex_release File_Lock v }
          else Some v }
        else Some v }
      else Some v)"

text \<open>Inserting a new entry, the common part of the three functions that add a page.\<close>

definition spt_insert :: "ptr \<Rightarrow> spt_entry \<Rightarrow> vm \<Rightarrow> (vm \<times> bool) option" where
  "spt_insert t e v = do {
     let (v, entry) = kmalloc v;
     if entry = NULL then Some (v, False) else do {
       let v = v\<lparr>spt_entries := (spt_entries v)(entry \<mapsto> e)\<rparr>;
       v \<leftarrow> mutex_acquire (Spt_Lock t) v;
       let tab = p_spt (processes v t);
       let (v, ok) = rehash_malloc tab (fst (hash_insert True (entry, se_upage e) tab)) v;
       let (h, result) = hash_insert ok (entry, se_upage e) tab;
       let v = upd_process t (\<lambda>p. p\<lparr>p_spt := h\<rparr>) v;
       v \<leftarrow> mutex_release (Spt_Lock t) v;
       if result \<noteq> None then Some (v\<lparr>spt_entries := (spt_entries v)(entry := None)\<rparr>, False)
       else Some (v, True) } }"

definition spt_set_file :: "ptr \<Rightarrow> ptr \<Rightarrow> ptr \<Rightarrow> int \<Rightarrow> nat \<Rightarrow> nat \<Rightarrow> bool \<Rightarrow> vm \<Rightarrow> (vm \<times> bool) option" where
  "spt_set_file t upage file ofs read_bytes zero_bytes w v =
     spt_insert t \<lparr>se_upage = pg_round_down upage, se_kpage = NULL, se_type = PAGE_FILE, se_writable = w, se_loaded = False,
       se_file = file, se_file_offset = ofs, se_read_bytes = read_bytes, se_zero_bytes = zero_bytes, se_swap_slot = 0, se_mapid = -1\<rparr> v"

definition spt_set_zero :: "ptr \<Rightarrow> ptr \<Rightarrow> bool \<Rightarrow> vm \<Rightarrow> (vm \<times> bool) option" where
  "spt_set_zero t upage w v =
     spt_insert t \<lparr>se_upage = pg_round_down upage, se_kpage = NULL, se_type = PAGE_ZERO, se_writable = w, se_loaded = False,
       se_file = NULL, se_file_offset = 0, se_read_bytes = 0, se_zero_bytes = PGSIZE, se_swap_slot = 0, se_mapid = -1\<rparr> v"

definition spt_set_mmap :: "ptr \<Rightarrow> ptr \<Rightarrow> ptr \<Rightarrow> int \<Rightarrow> nat \<Rightarrow> nat \<Rightarrow> int \<Rightarrow> vm \<Rightarrow> (vm \<times> bool) option" where
  "spt_set_mmap t upage file ofs read_bytes zero_bytes mapid v =
     spt_insert t \<lparr>se_upage = pg_round_down upage, se_kpage = NULL, se_type = PAGE_MMAP, se_writable = True, se_loaded = False,
       se_file = file, se_file_offset = ofs, se_read_bytes = read_bytes, se_zero_bytes = zero_bytes, se_swap_slot = 0, se_mapid = mapid\<rparr> v"

definition spt_set_loaded :: "ptr \<Rightarrow> ptr \<Rightarrow> ptr \<Rightarrow> vm \<Rightarrow> (vm \<times> bool) option" where
  "spt_set_loaded t upage kpage v = do {
     v \<leftarrow> mutex_acquire (Spt_Lock t) v;
     let entry = spt_get_entry t upage v;
     if entry = NULL then do { v \<leftarrow> mutex_release (Spt_Lock t) v; Some (v, False) }
     else do {
       v \<leftarrow> upd_entry entry (\<lambda>e. e\<lparr>se_kpage := kpage, se_loaded := True\<rparr>) v;
       v \<leftarrow> mutex_release (Spt_Lock t) v;
       Some (v, True) } }"

text \<open>The part of \<open>spt_load_page\<close> that fills the frame: whether it succeeded. On a short read the frame is freed.\<close>

definition load_content :: "spt_entry \<Rightarrow> ptr \<Rightarrow> vm \<Rightarrow> (vm \<times> bool) option" where
  "load_content e kpage v = (case se_type e of
       PAGE_ZERO \<Rightarrow> Some (v\<lparr>ram := memset_loop (ram v) kpage 0 PGSIZE\<rparr>, True)
     | PAGE_SWAP \<Rightarrow> do { v \<leftarrow> swap_in (se_swap_slot e) kpage v; Some (v, True) }
     | _ \<Rightarrow> do {
         v \<leftarrow> mutex_acquire File_Lock v;
         (v, ok) \<leftarrow> (if se_read_bytes e > 0 then do {
             v \<leftarrow> fs_do (file_seek (se_file e) (se_file_offset e)) v;
             (v, n) \<leftarrow> file_read_mem (se_file e) kpage (s32 (int (se_read_bytes e))) v;
             Some (v, n = s32 (int (se_read_bytes e))) }
           else Some (v, True));
         v \<leftarrow> mutex_release File_Lock v;
         if \<not> ok then do { v \<leftarrow> frame_free kpage v; Some (v, False) }
         else Some (v\<lparr>ram := memset_loop (ram v) (kpage + se_read_bytes e) 0 (se_zero_bytes e)\<rparr>, True) })"

definition spt_load_page :: "ptr \<Rightarrow> ptr \<Rightarrow> vm \<Rightarrow> (vm \<times> bool) option" where
  "spt_load_page t upage v = do {
     v \<leftarrow> mutex_acquire (Spt_Lock t) v;
     let entry = spt_get_entry t upage v;
     eo \<leftarrow> (if entry = NULL then Some None else map_option Some (spt_entries v entry));
     v \<leftarrow> mutex_release (Spt_Lock t) v;
     case eo of
       None \<Rightarrow> Some (v, False)
     | Some e \<Rightarrow>
         if se_loaded e then Some (v, False)
         else do {
           (v, kpage) \<leftarrow> frame_alloc PAL_USER (se_upage e) v;
           if kpage = NULL then Some (v, False)
           else do {
             (v, success) \<leftarrow> load_content e kpage v;
             if \<not> success then Some (v, False)
             else do {
               (v, ok) \<leftarrow> pagedir_set_page (p_pagedir (cur_process v)) (se_upage e) kpage (se_writable e) v;
               if \<not> ok then do { v \<leftarrow> frame_free kpage v; Some (v, False) }
               else do {
                 v \<leftarrow> mutex_acquire (Spt_Lock t) v;
                 let entry = spt_get_entry t upage v;
                 v \<leftarrow> (if entry \<noteq> NULL then upd_entry entry (\<lambda>e. e\<lparr>se_kpage := kpage, se_loaded := True\<rparr>) v else Some v);
                 v \<leftarrow> mutex_release (Spt_Lock t) v;
                 Some (v, True) } } } } }"

definition spt_set_swap :: "ptr \<Rightarrow> ptr \<Rightarrow> nat \<Rightarrow> vm \<Rightarrow> (vm \<times> bool) option" where
  "spt_set_swap t upage swap_slot v = do {
     v \<leftarrow> mutex_acquire (Spt_Lock t) v;
     let entry = spt_get_entry t upage v;
     if entry = NULL then do { v \<leftarrow> mutex_release (Spt_Lock t) v; Some (v, False) }
     else do {
       v \<leftarrow> upd_entry entry (\<lambda>e. e\<lparr>se_type := PAGE_SWAP, se_swap_slot := swap_slot, se_loaded := False, se_kpage := NULL\<rparr>) v;
       v \<leftarrow> mutex_release (Spt_Lock t) v;
       Some (v, True) } }"

definition free_entry :: "ptr \<Rightarrow> vm \<Rightarrow> vm option" where
  "free_entry p v = do {
     e \<leftarrow> spt_entries v p;
     v \<leftarrow> (if se_type e = PAGE_SWAP \<and> se_swap_slot e \<noteq> 0 then swap_free (se_swap_slot e) v else Some v);
     Some (v\<lparr>spt_entries := (spt_entries v)(p := None)\<rparr>) }"

definition spt_remove_entry :: "ptr \<Rightarrow> ptr \<Rightarrow> vm \<Rightarrow> vm option" where
  "spt_remove_entry t upage v = do {
     v \<leftarrow> mutex_acquire (Spt_Lock t) v;
     let tab = p_spt (processes v t);
     let (v, ok) = rehash_malloc tab (fst (hash_delete True (NULL, pg_round_down upage) tab)) v;
     let (h, r) = hash_delete ok (NULL, pg_round_down upage) tab;
     let v = upd_process t (\<lambda>p. p\<lparr>p_spt := h\<rparr>) v;
     v \<leftarrow> (case r of None \<Rightarrow> Some v | Some e \<Rightarrow> free_entry (fst e) v);
     mutex_release (Spt_Lock t) v }"

definition spt_destroy_func :: "spt_elem \<Rightarrow> vm \<Rightarrow> vm option" where
  "spt_destroy_func el v = do {
     e \<leftarrow> spt_entries v (fst el);
     v \<leftarrow> check_write_back e v;
     let pd = p_pagedir (cur_process v);
     kpage \<leftarrow> pagedir_get_page pd (se_upage e) v;
     v \<leftarrow> (if kpage \<noteq> NULL then do { v \<leftarrow> pagedir_clear_page pd (se_upage e) v; frame_free kpage v } else Some v);
     free_entry (fst el) v }"

fun destroy_loop :: "spt_elem list \<Rightarrow> vm \<Rightarrow> vm option" where
  "destroy_loop [] v = Some v"
| "destroy_loop (e # es) v = do { v \<leftarrow> spt_destroy_func e v; destroy_loop es v }"

text \<open>
  \<^verbatim>\<open>hash_destroy\<close> calls the destructor for every element and frees the buckets, which leaves the table without memory.
\<close>

definition spt_destroy :: "ptr \<Rightarrow> vm \<Rightarrow> vm option" where
  "spt_destroy t v = do {
     v \<leftarrow> mutex_acquire (Spt_Lock t) v;
     v \<leftarrow> destroy_loop (hash_destroy (p_spt (processes v t))) v;
     let v = upd_process t (\<lambda>p. p\<lparr>p_spt := (p_spt p)\<lparr>buckets := [], h_elem_cnt := 0\<rparr>\<rparr>) v;
     mutex_release (Spt_Lock t) v }"

subsection \<open>The table as a map\<close>

definition spt_of :: "vm \<Rightarrow> ptr \<Rightarrow> ptr \<Rightarrow> spt_entry option" where
  "spt_of v t u = Option.bind (table_map (p_spt (processes v t)) u) (spt_entries v)"

definition spt_wf :: "vm \<Rightarrow> ptr \<Rightarrow> bool" where
  "spt_wf v t \<longleftrightarrow> table_ok (p_spt (processes v t)) \<and> Spt_Lock t \<notin> locks_held v \<and>
     (\<forall>u p. table_map (p_spt (processes v t)) u = Some p \<longrightarrow> (\<exists>e. spt_entries v p = Some e \<and> se_upage e = u))"

lemma spt_of_None: "spt_wf v t \<Longrightarrow> spt_of v t u = None \<longleftrightarrow> table_map (p_spt (processes v t)) u = None"
  by (cases "table_map (p_spt (processes v t)) u") (fastforce simp: spt_of_def spt_wf_def)+

lemma table_map_inj:
  "spt_wf v t \<Longrightarrow> table_map (p_spt (processes v t)) u = Some p \<Longrightarrow> table_map (p_spt (processes v t)) w = Some p \<Longrightarrow> u = w"
  unfolding spt_wf_def by (metis option.inject)

lemma kmalloc_eq: "kmalloc v = (v\<lparr>fs := fst (malloc (fs v))\<rparr>, fs_mem (fs v) 0)"
  by (simp add: kmalloc_def malloc_def)

text \<open>The file system's state after allocations.\<close>

lemma rehash_malloc_fs: "\<exists>s. fst (rehash_malloc h h' v) = v\<lparr>fs := s\<rparr>"
proof (cases "bucket_cnt h' = bucket_cnt h")
  case True
  then show ?thesis by (intro exI [of _ "fs v"]) (simp add: rehash_malloc_def)
next
  case False
  then show ?thesis by (intro exI [of _ "fst (malloc (fs v))"]) (simp add: rehash_malloc_def kmalloc_eq)
qed

lemma table_map_entry: "table_ok h \<Longrightarrow> table_map h u = Some p \<Longrightarrow> p \<noteq> NULL"
  using table_map_iff [of h u p] by (force simp: table_ok_def)

lemma spt_get_entry_spec:
  assumes "spt_wf v t"
  shows "spt_get_entry t u v = (case table_map (p_spt (processes v t)) (pg_round_down u) of None \<Rightarrow> NULL | Some p \<Rightarrow> p)"
  by (auto simp: spt_get_entry_def table_map_def split: option.split)

text \<open>What adding an entry promises: it fails without memory or when the page has an entry already, changing nothing.\<close>

definition adds :: "vm \<Rightarrow> ptr \<Rightarrow> spt_entry \<Rightarrow> (vm \<times> bool) option \<Rightarrow> bool" where
  "adds v t e r \<longleftrightarrow> (\<exists>v'. r = Some (v', fs_mem (fs v) 0 \<noteq> NULL \<and> spt_of v t (se_upage e) = None) \<and> spt_wf v' t \<and>
     spt_of v' t = (if fs_mem (fs v) 0 \<noteq> NULL \<and> spt_of v t (se_upage e) = None then (spt_of v t)(se_upage e \<mapsto> e) else spt_of v t) \<and>
     (\<forall>t'. t' \<noteq> t \<longrightarrow> processes v' t' = processes v t') \<and> (\<forall>q. q \<noteq> fs_mem (fs v) 0 \<longrightarrow> spt_entries v' q = spt_entries v q))"

lemma spt_insert_adds:
  assumes wf: "spt_wf v t" and fresh: "spt_entries v (fs_mem (fs v) 0) = None"
  shows "adds v t e (spt_insert t e v)"
proof (cases "fs_mem (fs v) 0 = NULL")
  case True
  have "spt_insert t e v = Some (v\<lparr>fs := fst (malloc (fs v))\<rparr>, False)" using True by (simp add: spt_insert_def kmalloc_eq)
  moreover have "spt_wf (v\<lparr>fs := fst (malloc (fs v))\<rparr>) t" "spt_of (v\<lparr>fs := fst (malloc (fs v))\<rparr>) t = spt_of v t"
    using wf by (auto simp: spt_wf_def spt_of_def fun_eq_iff)
  ultimately show ?thesis using True by (simp add: adds_def)
next
  case False
  define p tab where "p = fs_mem (fs v) 0" and "tab = p_spt (processes v t)"
  have tok: "table_ok tab" and l: "Spt_Lock t \<notin> locks_held v" using wf by (auto simp: spt_wf_def tab_def)
  define v1 where "v1 = v\<lparr>fs := fst (malloc (fs v)), spt_entries := (spt_entries v)(p \<mapsto> e), locks_held := insert (Spt_Lock t) (locks_held v)\<rparr>"
  obtain s b where rm: "rehash_malloc tab (fst (hash_insert True (p, se_upage e) tab)) v1 = (v1\<lparr>fs := s\<rparr>, b)"
    using rehash_malloc_fs [of tab _ v1] by (metis prod.collapse)
  define h where "h = fst (hash_insert b (p, se_upage e) tab)"
  note ti = table_insert [OF tok False, of b "se_upage e", folded p_def, folded h_def]
  define v2 where "v2 = upd_process t (\<lambda>q. q\<lparr>p_spt := h\<rparr>) (v1\<lparr>fs := s, locks_held := locks_held v\<rparr>)"
  have lk: "insert (Spt_Lock t) (locks_held v) - {Spt_Lock t} = locks_held v" using l by auto
  obtain r where hi: "hash_insert b (p, se_upage e) tab = (h, r)" by (metis h_def prod.collapse)
  then have r: "r = None \<longleftrightarrow> table_map tab (se_upage e) = None" using ti(2) by simp
  have eq: "spt_insert t e v = Some (if r = None then (v2, True) else (v2\<lparr>spt_entries := (spt_entries v2)(p := None)\<rparr>, False))"
    using False rm l lk hi unfolding spt_insert_def kmalloc_eq p_def [symmetric]
    by (simp add: mutex_acquire_def mutex_release_def v1_def tab_def [symmetric] v2_def upd_process_def Let_def)
  have np: "table_map tab u \<noteq> Some p" for u using wf fresh unfolding spt_wf_def tab_def p_def by (metis option.distinct(1))
  have pr: "processes v2 t = (processes v t)\<lparr>p_spt := h\<rparr>" "\<forall>t'. t' \<noteq> t \<longrightarrow> processes v2 t' = processes v t'" "locks_held v2 = locks_held v"
    "spt_entries v2 = (spt_entries v)(p \<mapsto> e)" by (simp_all add: v2_def v1_def upd_process_def)
  show ?thesis
  proof (cases "table_map tab (se_upage e)")
    case None
    then have "spt_insert t e v = Some (v2, True)" "table_map h = (table_map tab)(se_upage e \<mapsto> p)" using eq ti(3) r by simp_all
    moreover have "spt_of v2 t = (spt_of v t)(se_upage e \<mapsto> e)"
      using np calculation(2) by (auto simp: spt_of_def fun_eq_iff pr tab_def [symmetric] split: Option.bind_split)
    moreover have "spt_wf v2 t" using wf ti(1) l np calculation(2) by (auto simp: spt_wf_def pr tab_def [symmetric])
    moreover have "spt_of v t (se_upage e) = None" using None by (simp add: spt_of_def tab_def)
    ultimately show ?thesis using False pr by (simp add: adds_def p_def)
  next
    case (Some q)
    let ?v = "v2\<lparr>spt_entries := (spt_entries v2)(p := None)\<rparr>"
    have r': "spt_insert t e v = Some (?v, False)" "table_map h = table_map tab" using Some eq ti(3) r by simp_all
    have se: "spt_entries ?v = spt_entries v" using fresh by (auto simp: pr fun_eq_iff p_def)
    have tt: "p_spt (processes ?v t) = h" "locks_held ?v = locks_held v" by (simp_all add: pr)
    have "spt_of ?v t = spt_of v t" unfolding spt_of_def se tt r'(2) tab_def by (rule refl)
    moreover have "spt_wf ?v t" using wf ti(1) unfolding spt_wf_def se tt r'(2) tab_def by blast
    moreover have "spt_of v t (se_upage e) \<noteq> None" using Some wf by (auto simp: spt_of_None tab_def)
    ultimately show ?thesis using r'(1) pr(2) se by (auto simp: adds_def)
  qed
qed

text \<open>
  C9. The supplemental page table is a map from pages to entries: \<open>spt_set_file\<close>, \<open>spt_set_zero\<close> and \<open>spt_set_mmap\<close> add an entry with
  the given contents for the page of the address. They fail, and change no entry, exactly when there is no memory or the page
  has an entry; whether the hash table grows makes no difference. \<open>malloc\<close> returns an address that is not in use.
\<close>

theorem spt_add_refines_map:
  assumes "spt_wf v t" "spt_entries v (fs_mem (fs v) 0) = None"
  shows "adds v t \<lparr>se_upage = pg_round_down u, se_kpage = NULL, se_type = PAGE_FILE, se_writable = w, se_loaded = False, se_file = f,
      se_file_offset = ofs, se_read_bytes = rb, se_zero_bytes = zb, se_swap_slot = 0, se_mapid = -1\<rparr> (spt_set_file t u f ofs rb zb w v) \<and>
    adds v t \<lparr>se_upage = pg_round_down u, se_kpage = NULL, se_type = PAGE_ZERO, se_writable = w, se_loaded = False, se_file = NULL,
      se_file_offset = 0, se_read_bytes = 0, se_zero_bytes = PGSIZE, se_swap_slot = 0, se_mapid = -1\<rparr> (spt_set_zero t u w v) \<and>
    adds v t \<lparr>se_upage = pg_round_down u, se_kpage = NULL, se_type = PAGE_MMAP, se_writable = True, se_loaded = False, se_file = f,
      se_file_offset = ofs, se_read_bytes = rb, se_zero_bytes = zb, se_swap_slot = 0, se_mapid = i\<rparr> (spt_set_mmap t u f ofs rb zb i v)"
  using spt_insert_adds [OF assms] by (simp add: spt_set_file_def spt_set_zero_def spt_set_mmap_def)

lemma small_vm_spt: "spt_wf small_vm 1"
  using table_init by (simp add: spt_wf_def small_vm_def small_process_def)

theorem spt_add_refines_map_witness:
  "\<exists>v'. spt_set_zero 1 0x8048123 True small_vm = Some (v', True) \<and> (\<exists>e. spt_of v' 1 0x8048000 = Some e \<and> se_type e = PAGE_ZERO)"
proof -
  have f: "spt_entries small_vm (fs_mem (fs small_vm) 0) = None" "fs_mem (fs small_vm) 0 \<noteq> NULL" "spt_of small_vm 1 u = None" for u
    using table_init by (simp_all add: small_vm_def small_fsys_def small_process_def spt_of_def)
  have "pg_round_down 0x8048123 = 0x8048000" by (simp add: pg_round_down_def PGSIZE_def)
  then show ?thesis using conjunct1 [OF conjunct2 [OF spt_add_refines_map [OF small_vm_spt f(1), of "0x8048123" True]]] f(2,3)
    unfolding adds_def by auto
qed

subsection \<open>Finding and changing an entry\<close>

lemma spt_get_entry_of:
  assumes wf: "spt_wf v t"
  shows "spt_of v t (pg_round_down u) = (if spt_get_entry t u v = NULL then None else spt_entries v (spt_get_entry t u v))"
    "spt_get_entry t u v = NULL \<longleftrightarrow> spt_of v t (pg_round_down u) = None"
proof -
  have tok: "table_ok (p_spt (processes v t))" using wf by (simp add: spt_wf_def)
  show g: "spt_of v t (pg_round_down u) = (if spt_get_entry t u v = NULL then None else spt_entries v (spt_get_entry t u v))"
    using table_map_entry [OF tok] unfolding spt_get_entry_spec [OF wf] by (auto simp: spt_of_def split: option.split)
  show "spt_get_entry t u v = NULL \<longleftrightarrow> spt_of v t (pg_round_down u) = None"
    using table_map_entry [OF tok] spt_of_None [OF wf] unfolding spt_get_entry_spec [OF wf] by (auto split: option.split)
qed

text \<open>A change of an entry under the lock of the table that keeps its page is a change of the map at that page.\<close>

definition changes :: "vm \<Rightarrow> ptr \<Rightarrow> ptr \<Rightarrow> (spt_entry \<Rightarrow> spt_entry) \<Rightarrow> (vm \<times> bool) option \<Rightarrow> bool" where
  "changes v t x f r \<longleftrightarrow> (\<exists>v'. r = Some (v', spt_of v t x \<noteq> None) \<and> spt_wf v' t \<and> spt_of v' t = (spt_of v t)(x := map_option f (spt_of v t x)))"

lemma spt_locked_update:
  assumes wf: "spt_wf v t" and keep: "\<And>e. se_upage (f e) = se_upage e"
    and r: "r = do { v \<leftarrow> mutex_acquire (Spt_Lock t) v;
       let p = spt_get_entry t u v;
       if p = NULL then do { v \<leftarrow> mutex_release (Spt_Lock t) v; Some (v, False) }
       else do { v \<leftarrow> upd_entry p f v; v \<leftarrow> mutex_release (Spt_Lock t) v; Some (v, True) } }"
  shows "changes v t (pg_round_down u) f r"
proof -
  define x p where "x = pg_round_down u" and "p = spt_get_entry t u v"
  have l: "Spt_Lock t \<notin> locks_held v" using wf by (simp add: spt_wf_def)
  then have lk: "insert (Spt_Lock t) (locks_held v) - {Spt_Lock t} = locks_held v" by auto
  have g: "spt_get_entry t u (v\<lparr>locks_held := L\<rparr>) = p" for L by (simp add: spt_get_entry_def p_def)
  show ?thesis
  proof (cases "spt_of v t x")
    case None
    then have "p = NULL" using spt_get_entry_of(2) [OF wf] by (simp add: p_def x_def)
    then have "r = Some (v, False)" using l lk by (simp add: r mutex_acquire_def mutex_release_def g)
    then show ?thesis using None wf unfolding changes_def x_def [symmetric] by (simp add: fun_upd_idem)
  next
    case (Some e)
    then have p: "p \<noteq> NULL" "spt_entries v p = Some e" using spt_get_entry_of(1) [OF wf, of u] by (simp_all add: p_def x_def split: if_splits)
    have tm: "table_map (p_spt (processes v t)) x = Some p"
      using spt_get_entry_spec [OF wf, of u] p(1) unfolding p_def [symmetric] x_def [symmetric] by (simp split: option.splits)
    have np: "table_map (p_spt (processes v t)) w = Some p \<Longrightarrow> w = x" for w by (rule table_map_inj [OF wf _ tm])
    have "se_upage e = x" using wf tm p unfolding spt_wf_def by (metis option.inject)
    let ?v = "v\<lparr>spt_entries := (spt_entries v)(p \<mapsto> f e)\<rparr>"
    have "r = Some (?v, True)" using l lk p by (simp add: r mutex_acquire_def mutex_release_def g upd_entry_def)
    moreover have "spt_wf ?v t" using wf keep [of e] np \<open>se_upage e = x\<close> by (auto simp: spt_wf_def)
    moreover have "spt_of ?v t w = ((spt_of v t)(x := map_option f (spt_of v t x))) w" for w
      using p tm np [of w] by (cases "table_map (p_spt (processes v t)) w") (auto simp: spt_of_def)
    ultimately have "r = Some (?v, True)" "spt_wf ?v t" "spt_of ?v t = (spt_of v t)(x := map_option f (spt_of v t x))" by (blast intro: ext)+
    then show ?thesis using Some unfolding changes_def x_def [symmetric] by (intro exI [of _ ?v]) simp
  qed
qed



subsection \<open>Removing an entry\<close>

lemma swap_free_ok:
  assumes ok: "swap_ok s" and l: "Swap_Lock \<notin> locks_held s" and j: "j < slots s"
  shows "\<exists>t. swap_free j s = Some (s\<lparr>swap_table := Some t\<rparr>) \<and> swap_ok (s\<lparr>swap_table := Some t\<rparr>) \<and>
    (\<forall>i. slot_used (s\<lparr>swap_table := Some t\<rparr>) i \<longleftrightarrow> slot_used s i \<and> i \<noteq> j)"
proof -
  obtain b t where bt: "swap_block s = Some b" "swap_table s = Some t" "bm_wf t" "disk_wf b" "bit_cnt t * SECTORS_PER_PAGE \<le> b_size b" "b_size b < 2 ^ 32"
    using ok by (auto simp: swap_ok_def)
  have i: "j < bit_cnt t" using j bt(2) by (simp add: slots_def)
  obtain t' where t': "bitmap_set t j False = Some t'" "bm_wf t'" "bit_cnt t' = bit_cnt t" "bm_bit t' = (bm_bit t)(j := False)"
    using bitmap_set_abs [OF bt(3) i, of False] by auto
  define u where "u = (if bm_bit t j then t' else t)"
  have "swap_free j s = Some (s\<lparr>swap_table := Some u\<rparr>)"
    using l bt(2) t'(1) i by (simp add: swap_free_def mutex_acquire_def mutex_release_def bitmap_test_abs [OF bt(3)] u_def)
  moreover have "swap_ok (s\<lparr>swap_table := Some u\<rparr>)" using bt t' by (simp add: swap_ok_def u_def)
  moreover have "slot_used (s\<lparr>swap_table := Some u\<rparr>) k \<longleftrightarrow> slot_used s k \<and> k \<noteq> j" for k
    using t' bt(2) by (auto simp: slot_used_def u_def)
  ultimately show ?thesis by blast
qed

text \<open>The slot an entry records, if \<open>free_entry\<close> takes it for one.\<close>

definition recorded_slot :: "spt_entry \<Rightarrow> nat option" where
  "recorded_slot e = (if se_type e = PAGE_SWAP \<and> se_swap_slot e \<noteq> 0 then Some (se_swap_slot e) else None)"

lemma free_entry_ok:
  assumes e: "spt_entries v p = Some e" and s: "swap_ok v" "Swap_Lock \<notin> locks_held v" "\<forall>j. recorded_slot e = Some j \<longrightarrow> j < slots v"
  shows "\<exists>t. free_entry p v = Some (v\<lparr>swap_table := t, spt_entries := (spt_entries v)(p := None)\<rparr>) \<and>
    swap_ok (v\<lparr>swap_table := t\<rparr>) \<and> (\<forall>i. slot_used (v\<lparr>swap_table := t\<rparr>) i \<longleftrightarrow> slot_used v i \<and> recorded_slot e \<noteq> Some i)"
proof (cases "recorded_slot e")
  case None
  then have "free_entry p v = Some (v\<lparr>swap_table := swap_table v, spt_entries := (spt_entries v)(p := None)\<rparr>)"
    using e by (auto simp: free_entry_def recorded_slot_def split: if_splits)
  then show ?thesis using None s(1) by (intro exI [of _ "swap_table v"]) simp
next
  case (Some j)
  then have j: "se_type e = PAGE_SWAP \<and> se_swap_slot e \<noteq> 0" "se_swap_slot e = j" by (auto simp: recorded_slot_def split: if_splits)
  obtain t where t: "swap_free j v = Some (v\<lparr>swap_table := Some t\<rparr>)" "swap_ok (v\<lparr>swap_table := Some t\<rparr>)"
    "\<forall>i. slot_used (v\<lparr>swap_table := Some t\<rparr>) i \<longleftrightarrow> slot_used v i \<and> i \<noteq> j"
    using swap_free_ok [OF s(1,2), of j] s(3) Some by blast
  then show ?thesis using e j Some by (intro exI [of _ "Some t"]) (auto simp: free_entry_def)
qed

lemma spt_remove_steps:
  assumes wf: "spt_wf v t"
  obtains v2 where "table_ok (p_spt (processes v2 t))" "table_map (p_spt (processes v2 t)) = (table_map (p_spt (processes v t)))(pg_round_down u := None)"
    "spt_remove_entry t u v = Option.bind (case table_map (p_spt (processes v t)) (pg_round_down u) of None \<Rightarrow> Some v2
       | Some p \<Rightarrow> free_entry p v2) (mutex_release (Spt_Lock t))"
    "spt_entries v2 = spt_entries v" "swap_table v2 = swap_table v" "swap_block v2 = swap_block v"
    "locks_held v2 = insert (Spt_Lock t) (locks_held v)"
proof -
  define tab x where "tab = p_spt (processes v t)" and "x = pg_round_down u"
  have tok: "table_ok tab" and l: "Spt_Lock t \<notin> locks_held v" using wf by (auto simp: spt_wf_def tab_def)
  define v1 where "v1 = v\<lparr>locks_held := insert (Spt_Lock t) (locks_held v)\<rparr>"
  obtain sy b where rm: "rehash_malloc tab (fst (hash_delete True (NULL, x) tab)) v1 = (v1\<lparr>fs := sy\<rparr>, b)"
    using rehash_malloc_fs [of tab _ v1] by (metis prod.collapse)
  obtain h r where hd: "hash_delete b (NULL, x) tab = (h, r)" by fastforce
  note td = table_delete [OF tok, of b x, unfolded hd fst_conv snd_conv]
  define v2 where "v2 = upd_process t (\<lambda>p. p\<lparr>p_spt := h\<rparr>) (v1\<lparr>fs := sy\<rparr>)"
  have "spt_remove_entry t u v = Option.bind (case r of None \<Rightarrow> Some v2 | Some e \<Rightarrow> free_entry (fst e) v2) (mutex_release (Spt_Lock t))"
    using rm l hd unfolding spt_remove_entry_def x_def [symmetric]
    by (cases r) (simp_all add: mutex_acquire_def v1_def tab_def [symmetric] v2_def Let_def)
  then have "spt_remove_entry t u v = Option.bind (case table_map tab x of None \<Rightarrow> Some v2 | Some p \<Rightarrow> free_entry p v2) (mutex_release (Spt_Lock t))"
    using td(2) by (cases r) (auto split: option.splits)
  moreover have "p_spt (processes v2 t) = h" by (simp add: v2_def upd_process_def)
  ultimately show ?thesis using that [of v2] td(1,3) by (simp add: tab_def x_def v2_def v1_def upd_process_def)
qed

lemma spt_remove_spec:
  assumes wf: "spt_wf v t" and s: "swap_ok v" "Swap_Lock \<notin> locks_held v"
    and slot: "\<forall>e j. spt_of v t (pg_round_down u) = Some e \<longrightarrow> recorded_slot e = Some j \<longrightarrow> j < slots v"
  shows "\<exists>v'. spt_remove_entry t u v = Some v' \<and> spt_wf v' t \<and> spt_of v' t = (spt_of v t)(pg_round_down u := None) \<and> swap_ok v' \<and>
    (\<forall>j. slot_used v' j \<longleftrightarrow> slot_used v j \<and> \<not> (\<exists>e. spt_of v t (pg_round_down u) = Some e \<and> recorded_slot e = Some j))"
proof -
  define tab x where "tab = p_spt (processes v t)" and "x = pg_round_down u"
  have l: "Spt_Lock t \<notin> locks_held v" and wf': "table_map tab w = Some q \<Longrightarrow> \<exists>e. spt_entries v q = Some e \<and> se_upage e = w" for w q
    using wf by (auto simp: spt_wf_def tab_def)
  obtain v2 where tok: "table_ok (p_spt (processes v2 t))" and tm: "table_map (p_spt (processes v2 t)) = (table_map tab)(x := None)"
    and r0: "spt_remove_entry t u v = Option.bind (case table_map tab x of None \<Rightarrow> Some v2 | Some p \<Rightarrow> free_entry p v2) (mutex_release (Spt_Lock t))"
    and pr: "spt_entries v2 = spt_entries v" "swap_table v2 = swap_table v" "swap_block v2 = swap_block v"
      "locks_held v2 = insert (Spt_Lock t) (locks_held v)"
    using spt_remove_steps [OF wf, of u] by (metis tab_def x_def)
  have lk: "insert (Spt_Lock t) (locks_held v) - {Spt_Lock t} = locks_held v" using l by auto
  show ?thesis
  proof (cases "table_map tab x")
    case None
    let ?v = "v2\<lparr>locks_held := locks_held v\<rparr>"
    have "spt_remove_entry t u v = Some ?v" using r0 lk pr None by (simp add: mutex_release_def)
    moreover have "spt_of v t x = None" using None by (simp add: spt_of_def tab_def)
    moreover have "spt_of ?v t = (spt_of v t)(x := None)"
      unfolding spt_of_def fun_eq_iff by (simp add: tm pr(1) tab_def [symmetric])
    moreover have "spt_wf ?v t" unfolding spt_wf_def using tok l wf' by (auto simp: tm pr(1))
    moreover have "slot_used ?v j \<longleftrightarrow> slot_used v j" "swap_ok ?v" for j using s(1) by (simp_all add: slot_used_def swap_ok_def pr)
    ultimately show ?thesis unfolding x_def by (intro exI [of _ ?v]) auto
  next
    case (Some p)
    obtain e where e: "spt_entries v p = Some e" "se_upage e = x" using wf' Some by blast
    have so: "spt_of v t x = Some e" using Some e by (simp add: spt_of_def tab_def)
    have ok2: "swap_ok v2" "Swap_Lock \<notin> locks_held v2" "\<forall>j. recorded_slot e = Some j \<longrightarrow> j < slots v2" "spt_entries v2 p = Some e"
      using s slot so e(1) pr by (simp_all add: swap_ok_def slots_def x_def)
    obtain st where f: "free_entry p v2 = Some (v2\<lparr>swap_table := st, spt_entries := (spt_entries v2)(p := None)\<rparr>)"
      "swap_ok (v2\<lparr>swap_table := st\<rparr>)" "\<forall>i. slot_used (v2\<lparr>swap_table := st\<rparr>) i \<longleftrightarrow> slot_used v2 i \<and> recorded_slot e \<noteq> Some i"
      using free_entry_ok [OF ok2(4,1,2,3)] by blast
    define v' where "v' = v2\<lparr>swap_table := st, spt_entries := (spt_entries v2)(p := None), locks_held := locks_held v\<rparr>"
    have eq: "spt_remove_entry t u v = Some v'" using r0 Some f(1) lk pr by (simp add: mutex_release_def v'_def)
    have np: "w \<noteq> x \<Longrightarrow> table_map tab w \<noteq> Some p" for w using wf' [of w p] e by auto
    have "spt_of v' t = (spt_of v t)(x := None)"
      using np by (auto simp: spt_of_def fun_eq_iff v'_def tm pr tab_def [symmetric] split: Option.bind_split)
    moreover have "spt_wf v' t" using tok wf' l np by (auto simp: spt_wf_def v'_def pr tm)
    moreover have "\<forall>j. slot_used v' j \<longleftrightarrow> slot_used v j \<and> recorded_slot e \<noteq> Some j" "swap_ok v'"
      using f(2,3) pr by (simp_all add: slot_used_def swap_ok_def v'_def)
    ultimately show ?thesis using eq so unfolding x_def by (intro exI [of _ v']) auto
  qed
qed

text \<open>
  C10. \<open>spt_remove_entry\<close> takes the entry of the page out of the table, leaves all others, and frees the swap slot the entry records, if
  its type is \<^verbatim>\<open>PAGE_SWAP\<close> and the slot is not 0: slot 0, which \<open>swap_out\<close> gives out like the others, stays in use for ever.
\<close>

theorem spt_remove_refines_map:
  assumes wf: "spt_wf v t" and s: "swap_ok v" "Swap_Lock \<notin> locks_held v"
    and slot: "\<forall>e j. spt_of v t (pg_round_down u) = Some e \<longrightarrow> recorded_slot e = Some j \<longrightarrow> j < slots v"
  shows "\<exists>v'. spt_remove_entry t u v = Some v' \<and> spt_wf v' t \<and> spt_of v' t = (spt_of v t)(pg_round_down u := None) \<and> swap_ok v' \<and>
    (\<forall>j. slot_used v' j \<longleftrightarrow> slot_used v j \<and> \<not> (\<exists>e. spt_of v t (pg_round_down u) = Some e \<and> recorded_slot e = Some j))"
  using assms by (rule spt_remove_spec)

text \<open>Two pages of a process, one read back from swap slot 1 and still recording it, the other written to that slot since.\<close>

definition swap_page :: "ptr \<Rightarrow> nat \<Rightarrow> bool \<Rightarrow> spt_entry" where
  "swap_page u j l = \<lparr>se_upage = u, se_kpage = (if l then 0xc0200000 else NULL), se_type = PAGE_SWAP, se_writable = True, se_loaded = l, se_file = NULL,
     se_file_offset = 0, se_read_bytes = 0, se_zero_bytes = PGSIZE, se_swap_slot = j, se_mapid = -1\<rparr>"

definition swapped_vm :: vm where
  "swapped_vm = small_vm\<lparr>
     swap_block := Some \<lparr>b_name = ''hdd1'', b_type = BLOCK_SWAP, b_size = 16, b_disk = \<lambda>_. replicate 512 0, read_cnt = 0, write_cnt = 0\<rparr>,
     swap_table := Some \<lparr>bit_cnt = 2, bits = [2]\<rparr>, spt_entries := [60 \<mapsto> swap_page 0x8048000 1 True, 61 \<mapsto> swap_page 0x8049000 1 False],
     processes := \<lambda>_. small_process\<lparr>p_spt := fst (hash_insert True (61, 0x8049000)
       (fst (hash_insert True (60, 0x8048000) (fst (hash_init True spt_hash_func spt_less_func)))))\<rparr>\<rparr>"

lemma swapped_vm_spt:
  "spt_wf swapped_vm 1" "spt_of swapped_vm 1 = [0x8048000 \<mapsto> swap_page 0x8048000 1 True, 0x8049000 \<mapsto> swap_page 0x8049000 1 False]"
proof -
  let ?h = "fst (hash_insert True (60, 0x8048000) (fst (hash_init True spt_hash_func spt_less_func)))"
  have h: "table_ok ?h" "table_map ?h = [0x8048000 \<mapsto> 60]"
    using table_insert [OF table_init(1), of 60 True "0x8048000"] table_init(2) by simp_all
  have t: "table_ok (p_spt (processes swapped_vm 1))" "table_map (p_spt (processes swapped_vm 1)) = [0x8048000 \<mapsto> 60, 0x8049000 \<mapsto> 61]"
    using table_insert [OF h(1), of 61 True "0x8049000"] h(2) by (simp_all add: swapped_vm_def)
  then show "spt_wf swapped_vm 1" by (simp add: spt_wf_def) (simp add: swapped_vm_def small_vm_def swap_page_def)
  show "spt_of swapped_vm 1 = [0x8048000 \<mapsto> swap_page 0x8048000 1 True, 0x8049000 \<mapsto> swap_page 0x8049000 1 False]"
    unfolding spt_of_def t(2) by (simp add: swapped_vm_def fun_eq_iff)
qed

lemma swapped_vm_swap: "swap_ok swapped_vm" "Swap_Lock \<notin> locks_held swapped_vm" "slots swapped_vm = 2" "slot_used swapped_vm 1"
  by (simp_all add: swapped_vm_def small_vm_def swap_ok_def spp bm_wf_def elem_cnt_def ELEM_BITS_def disk_wf_def BLOCK_SECTOR_SIZE_def
      slots_def slot_used_def bm_bit_def bit_simps)

theorem spt_remove_refines_map_witness: "\<exists>v'. spt_remove_entry 1 0x8048004 swapped_vm = Some v' \<and> spt_of v' 1 = [0x8049000 \<mapsto> swap_page 0x8049000 1 False]"
proof -
  have p: "pg_round_down 0x8048004 = 0x8048000" by (simp add: pg_round_down_def PGSIZE_def)
  have f: "recorded_slot (swap_page u 1 l) = Some 1" for u l by (simp add: recorded_slot_def swap_page_def)
  show ?thesis using spt_remove_refines_map [OF swapped_vm_spt(1) swapped_vm_swap(1,2), of "0x8048004"]
    unfolding p swapped_vm_spt(2) swapped_vm_swap(3) by (auto simp: f [simplified] fun_upd_twist)
qed



end
