(* ===== verification/Memory_Map.thy ===== *)
theory Memory_Map
  imports Supp_Page_Table
begin

text \<open>Memory-mapped files: \<^verbatim>\<open>vm/mmap.c\<close>. The mappings of a process are the list of its mapping structures.\<close>

subsection \<open>The code\<close>

definition mmap_init :: "ptr \<Rightarrow> vm \<Rightarrow> vm" where
  "mmap_init t v = upd_process t (\<lambda>p. p\<lparr>p_mmap_list := []\<rparr>) v"

text \<open>Removing the pages that were added before a failure; the second argument is the number of pages left.\<close>

fun remove_pages :: "ptr \<Rightarrow> nat \<Rightarrow> nat \<Rightarrow> vm \<Rightarrow> vm option" where
  "remove_pages addr j 0 v = Some v"
| "remove_pages addr j (Suc n) v = do {
     v \<leftarrow> spt_remove_entry (cur_thread v) (usz (addr + j * PGSIZE)) v;
     remove_pages addr (j + 1) n v }"

fun map_pages :: "ptr \<Rightarrow> ptr \<Rightarrow> int \<Rightarrow> nat \<Rightarrow> int \<Rightarrow> nat \<Rightarrow> nat \<Rightarrow> vm \<Rightarrow> (vm \<times> bool) option" where
  "map_pages addr file file_offset remaining mapid i 0 v = Some (v, True)"
| "map_pages addr file file_offset remaining mapid i (Suc n) v = do {
     let page_read_bytes = (if remaining < PGSIZE then remaining else PGSIZE);
     let page_zero_bytes = PGSIZE - page_read_bytes;
     (v, ok) \<leftarrow> spt_set_mmap (cur_thread v) (usz (addr + i * PGSIZE)) file file_offset page_read_bytes page_zero_bytes mapid v;
     if \<not> ok then do { v \<leftarrow> remove_pages addr 0 i v; Some (v, False) }
     else map_pages addr file (s32 (file_offset + int page_read_bytes)) (remaining - page_read_bytes) mapid (i + 1) n v }"

definition mmap_map :: "ptr \<Rightarrow> ptr \<Rightarrow> int \<Rightarrow> nat \<Rightarrow> vm \<Rightarrow> (vm \<times> int) option" where
  "mmap_map addr file offset len v = do {
     let (v, m) = kmalloc v;
     if m = NULL then Some (v, -1) else do {
       let id = next_mapid v;
       let v = v\<lparr>next_mapid := s32 (id + 1)\<rparr>;
       let mapping = \<lparr>mm_mapid = id, mm_file = file, mm_start_addr = addr, mm_page_count = usz (len + PGSIZE - 1) div PGSIZE\<rparr>;
       (v, ok) \<leftarrow> map_pages addr file offset len id 0 (mm_page_count mapping) v;
       if \<not> ok then Some (v, -1)
       else Some (upd_process (cur_thread v) (\<lambda>p. p\<lparr>p_mmap_list := p_mmap_list p @ [mapping]\<rparr>) v, id) } }"

definition unmap_page :: "ptr \<Rightarrow> vm \<Rightarrow> vm option" where
  "unmap_page upage v = do {
     let t = cur_thread v;
     let pd = p_pagedir (cur_process v);
     kpage \<leftarrow> pagedir_get_page pd upage v;
     v \<leftarrow> (if kpage \<noteq> NULL then do {
         dirty \<leftarrow> pagedir_is_dirty pd upage v;
         v \<leftarrow> (if dirty then do {
             let entry = spt_get_entry t upage v;
             eo \<leftarrow> (if entry = NULL then Some None else map_option Some (spt_entries v entry));
             case eo of
               None \<Rightarrow> Some v
             | Some e \<Rightarrow>
                 if se_type e = PAGE_MMAP \<and> se_read_bytes e > 0 then do {
                   v \<leftarrow> mutex_acquire File_Lock v;
                   v \<leftarrow> fs_do (file_seek (se_file e) (se_file_offset e)) v;
                   (v, _) \<leftarrow> file_write_mem (se_file e) kpage (s32 (int (se_read_bytes e))) v;
                   mutex_release File_Lock v }
                 else Some v }
           else Some v);
         v \<leftarrow> frame_free kpage v;
         pagedir_clear_page pd upage v }
       else Some v);
     spt_remove_entry t upage v }"

fun unmap_pages :: "ptr \<Rightarrow> nat \<Rightarrow> nat \<Rightarrow> vm \<Rightarrow> vm option" where
  "unmap_pages addr i 0 v = Some v"
| "unmap_pages addr i (Suc n) v = do { v \<leftarrow> unmap_page (usz (addr + i * PGSIZE)) v; unmap_pages addr (i + 1) n v }"

definition mmap_get_mapping :: "int \<Rightarrow> vm \<Rightarrow> mmap_mapping option" where
  "mmap_get_mapping mapid v = List.find (\<lambda>m. mm_mapid m = mapid) (p_mmap_list (cur_process v))"

definition mmap_unmap :: "int \<Rightarrow> vm \<Rightarrow> vm option" where
  "mmap_unmap mapid v = (case List.find (\<lambda>m. mm_mapid m = mapid) (p_mmap_list (cur_process v)) of
       None \<Rightarrow> Some v
     | Some mapping \<Rightarrow> do {
         v \<leftarrow> unmap_pages (mm_start_addr mapping) 0 (mm_page_count mapping) v;
         v \<leftarrow> mutex_acquire File_Lock v;
         v \<leftarrow> fs_do (file_close (mm_file mapping)) v;
         v \<leftarrow> mutex_release File_Lock v;
         Some (upd_process (cur_thread v) (\<lambda>p. p\<lparr>p_mmap_list := remove1 mapping (p_mmap_list p)\<rparr>) v) })"

partial_function (option) mmap_unmap_all :: "vm \<Rightarrow> vm option" where
  "mmap_unmap_all v = (case p_mmap_list (cur_process v) of
       [] \<Rightarrow> Some v
     | m # _ \<Rightarrow> Option.bind (mmap_unmap (mm_mapid m) v) mmap_unmap_all)"

end
