(* ===== verification/Process_Load.thy ===== *)
theory Process_Load
  imports Memory_Map
begin

text \<open>
  Loading an executable and ending a process: \<^verbatim>\<open>userprog/process.c\<close>, with virtual memory as the build configures it. The
  update of the task-state segment is not part of the state.
\<close>

subsection \<open>ELF files\<close>

record Elf32_Ehdr =
  e_ident :: "byte list"
  e_type :: nat
  e_machine :: nat
  e_version :: nat
  e_entry :: nat
  e_phoff :: nat
  e_phentsize :: nat
  e_phnum :: nat

record Elf32_Phdr =
  p_type :: nat
  p_offset :: nat
  p_vaddr :: nat
  p_filesz :: nat
  p_memsz :: nat
  p_flags :: nat

definition word_at :: "byte list \<Rightarrow> nat \<Rightarrow> nat" where
  "word_at bs i = of_le32 (take 4 (drop i bs))"

definition half_at :: "byte list \<Rightarrow> nat \<Rightarrow> nat" where
  "half_at bs i = of_le32 (take 2 (drop i bs))"

definition dec_ehdr :: "byte list \<Rightarrow> Elf32_Ehdr" where
  "dec_ehdr bs = \<lparr>e_ident = take 16 bs, e_type = half_at bs 16, e_machine = half_at bs 18, e_version = word_at bs 20,
     e_entry = word_at bs 24, e_phoff = word_at bs 28, e_phentsize = half_at bs 42, e_phnum = half_at bs 44\<rparr>"

definition dec_phdr :: "byte list \<Rightarrow> Elf32_Phdr" where
  "dec_phdr bs = \<lparr>p_type = word_at bs 0, p_offset = word_at bs 4, p_vaddr = word_at bs 8, p_filesz = word_at bs 16,
     p_memsz = word_at bs 20, p_flags = word_at bs 24\<rparr>"

definition ehdr_ok :: "byte list \<Rightarrow> bool" where
  "ehdr_ok bs \<longleftrightarrow> length bs = 52 \<and>
     (let eh = dec_ehdr bs in take 7 (e_ident eh) = [0x7f, 0x45, 0x4c, 0x46, 1, 1, 1] \<and> e_type eh = 2 \<and> e_machine eh = 3 \<and>
        e_version eh = 1 \<and> e_phentsize eh = 32 \<and> e_phnum eh \<le> 1024)"

definition validate_segment :: "Elf32_Phdr \<Rightarrow> int \<Rightarrow> bool" where
  "validate_segment ph file_len \<longleftrightarrow>
     pg_ofs (p_offset ph) = pg_ofs (p_vaddr ph) \<and>
     p_offset ph \<le> u32_of file_len \<and>
     p_filesz ph \<le> p_memsz ph \<and>
     p_memsz ph \<noteq> 0 \<and>
     is_user_vaddr (p_vaddr ph) \<and>
     is_user_vaddr (usz (p_vaddr ph + p_memsz ph)) \<and>
     p_vaddr ph \<le> usz (p_vaddr ph + p_memsz ph) \<and>
     PGSIZE \<le> p_vaddr ph"

partial_function (option) load_segment_loop :: "ptr \<Rightarrow> int \<Rightarrow> ptr \<Rightarrow> nat \<Rightarrow> nat \<Rightarrow> bool \<Rightarrow> vm \<Rightarrow> (vm \<times> bool) option" where
  "load_segment_loop file ofs upage read_bytes zero_bytes w v =
     (if read_bytes > 0 \<or> zero_bytes > 0 then
        (let page_read_bytes = (if read_bytes < PGSIZE then read_bytes else PGSIZE);
             page_zero_bytes = PGSIZE - page_read_bytes in
         Option.bind (spt_set_file (cur_thread v) upage file ofs page_read_bytes page_zero_bytes w v)
           (\<lambda>r. if \<not> snd r then Some (fst r, False)
                else load_segment_loop file (s32 (ofs + int page_read_bytes)) (usz (upage + PGSIZE)) (read_bytes - page_read_bytes)
                       (usz (zero_bytes + 2 ^ 32 - page_zero_bytes)) w (fst r)))
      else Some (v, True))"

definition load_segment :: "ptr \<Rightarrow> int \<Rightarrow> ptr \<Rightarrow> nat \<Rightarrow> nat \<Rightarrow> bool \<Rightarrow> vm \<Rightarrow> (vm \<times> bool) option" where
  "load_segment file ofs upage read_bytes zero_bytes w v = do {
     ASSERT (usz (read_bytes + zero_bytes) mod PGSIZE = 0);
     ASSERT (pg_ofs upage = 0);
     ASSERT (ofs smod int PGSIZE = 0);
     load_segment_loop file ofs upage read_bytes zero_bytes w v }"

definition install_page :: "ptr \<Rightarrow> ptr \<Rightarrow> bool \<Rightarrow> vm \<Rightarrow> (vm \<times> bool) option" where
  "install_page upage kpage w v = do {
     let pd = p_pagedir (cur_process v);
     k \<leftarrow> pagedir_get_page pd upage v;
     if k = NULL then pagedir_set_page pd upage kpage w v else Some (v, False) }"

definition setup_stack :: "vm \<Rightarrow> (vm \<times> bool) option" where
  "setup_stack v = do {
     let upage = PHYS_BASE - PGSIZE;
     (v, ok) \<leftarrow> spt_set_zero (cur_thread v) upage True v;
     if \<not> ok then Some (v, False) else do {
       (v, kpage) \<leftarrow> frame_alloc (PAL_USER OR PAL_ZERO) upage v;
       if kpage = NULL then Some (v, False) else do {
         (v, success) \<leftarrow> install_page upage kpage True v;
         if success then do { (v, _) \<leftarrow> spt_set_loaded (cur_thread v) upage kpage v; Some (v, True) }
         else do { v \<leftarrow> frame_free kpage v; Some (v, False) } } } }"

definition process_activate :: "vm \<Rightarrow> vm option" where
  "process_activate v = pagedir_activate (p_pagedir (cur_process v)) v"

text \<open>The case \<^verbatim>\<open>PT_LOAD\<close> of \<open>load\<close>.\<close>

definition load_phdr :: "Elf32_Phdr \<Rightarrow> ptr \<Rightarrow> vm \<Rightarrow> (vm \<times> bool) option" where
  "load_phdr ph file v = do {
     len \<leftarrow> file_length file (fs v);
     if validate_segment ph len then do {
       let w = (p_flags ph AND 2 \<noteq> 0);
       let file_page = p_offset ph - pg_ofs (p_offset ph);
       let mem_page = p_vaddr ph - pg_ofs (p_vaddr ph);
       let page_offset = pg_ofs (p_vaddr ph);
       let read_bytes = (if p_filesz ph > 0 then usz (page_offset + p_filesz ph) else 0);
       let total = usz (usz (usz (page_offset + p_memsz ph) + PGSIZE - 1) div PGSIZE * PGSIZE);
       let zero_bytes = (if p_filesz ph > 0 then usz (total + 2 ^ 32 - read_bytes) else total);
       load_segment file (s32 (int file_page)) mem_page read_bytes zero_bytes w v }
     else Some (v, False) }"

text \<open>The loop over the program headers: \<^term>\<open>False\<close> is \<^verbatim>\<open>goto done\<close>. The last number counts the headers left.\<close>

fun load_phdrs :: "ptr \<Rightarrow> int \<Rightarrow> nat \<Rightarrow> vm \<Rightarrow> (vm \<times> bool) option" where
  "load_phdrs file file_ofs 0 v = Some (v, True)"
| "load_phdrs file file_ofs (Suc n) v = do {
     len \<leftarrow> file_length file (fs v);
     if file_ofs < 0 \<or> file_ofs > len then Some (v, False) else do {
       v \<leftarrow> fs_do (file_seek file file_ofs) v;
       (v, bs) \<leftarrow> fs_call (file_read file 32) v;
       if length bs \<noteq> 32 then Some (v, False) else do {
         let ph = dec_phdr bs;
         (v, ok) \<leftarrow> (if p_type ph \<in> {2, 3, 5} then Some (v, False)
                     else if p_type ph = 1 then load_phdr ph file v
                     else Some (v, True));
         if \<not> ok then Some (v, False) else load_phdrs file (s32 (file_ofs + 32)) n v } } }"

text \<open>
  What follows the label \<^verbatim>\<open>done\<close>. The result is the entry point and the stack pointer, or \<^term>\<open>None\<close> for a failure.
\<close>

definition load_done :: "ptr \<Rightarrow> (nat \<times> ptr) option \<Rightarrow> vm \<Rightarrow> (vm \<times> (nat \<times> ptr) option) option" where
  "load_done file success v = (case success of
       None \<Rightarrow> do { v \<leftarrow> fs_do (file_close file) v; Some (v, None) }
     | Some r \<Rightarrow> Some (upd_process (cur_thread v) (\<lambda>p. p\<lparr>p_executable := file\<rparr>) v, Some r))"

definition load :: "byte list \<Rightarrow> vm \<Rightarrow> (vm \<times> (nat \<times> ptr) option) option" where
  "load file_name v = do {
     let t = cur_thread v;
     (v, pd) \<leftarrow> pagedir_create v;
     let v = upd_process t (\<lambda>p. p\<lparr>p_pagedir := pd\<rparr>) v;
     if pd = NULL then load_done NULL None v else do {
       v \<leftarrow> process_activate v;
       let v = spt_init t v;
       v \<leftarrow> mutex_acquire File_Lock v;
       (v, file) \<leftarrow> fs_call (filesys_open file_name) v;
       if file = NULL then do { v \<leftarrow> mutex_release File_Lock v; load_done NULL None v } else do {
         v \<leftarrow> fs_do (file_deny_write file) v;
         (v, bs) \<leftarrow> fs_call (file_read file 52) v;
         if \<not> ehdr_ok bs then do {
           v \<leftarrow> fs_do (file_close file) v;
           v \<leftarrow> mutex_release File_Lock v;
           load_done file None v }
         else do {
           let eh = dec_ehdr bs;
           (v, ok) \<leftarrow> load_phdrs file (s32 (int (e_phoff eh))) (e_phnum eh) v;
           if \<not> ok then load_done file None v
           else do {
             v \<leftarrow> mutex_release File_Lock v;
             (v, ok) \<leftarrow> setup_stack v;
             if ok then load_done file (Some (e_entry eh, PHYS_BASE)) v else load_done file None v } } } } }"

subsection \<open>Ending a process\<close>

fun orphan_children :: "ptr list \<Rightarrow> vm \<Rightarrow> vm option" where
  "orphan_children [] v = Some v"
| "orphan_children (c # cs) v = do {
     child \<leftarrow> child_records v c;
     let v = (if c_exited child then v\<lparr>child_records := (child_records v)(c := None)\<rparr>
              else v\<lparr>child_records := (child_records v)(c \<mapsto> child\<lparr>c_parent_thread := NULL\<rparr>)\<rparr>);
     orphan_children cs v }"

definition process_exit :: "vm \<Rightarrow> vm option" where
  "process_exit v = do {
     let t = cur_thread v;
     v \<leftarrow> mmap_unmap_all v;
     v \<leftarrow> spt_destroy t v;
     v \<leftarrow> orphan_children (p_children (processes v t)) v;
     let v = upd_process t (\<lambda>p. p\<lparr>p_children := []\<rparr>) v;
     let pd = p_pagedir (processes v t);
     if pd \<noteq> NULL then do {
       let v = upd_process t (\<lambda>p. p\<lparr>p_pagedir := NULL\<rparr>) v;
       v \<leftarrow> pagedir_activate NULL v;
       pagedir_destroy pd v }
     else Some v }"

end
