(* ===== verification/Page_Fault.thy ===== *)
theory Page_Fault
  imports Process_Load
begin

text \<open>
  Page faults: \<^verbatim>\<open>userprog/exception.c\<close>, \<^verbatim>\<open>sys_exit\<close> of \<^verbatim>\<open>userprog/syscall.c\<close>, which ends a process, and the access of the
  processor to user memory. The processor walks the page directory that \<^verbatim>\<open>CR3\<close> names, sets the accessed and dirty bits, and
  raises a page fault when a page is not present or, as \<^verbatim>\<open>threads/start.S\<close> turns on write protection for the kernel too, when it
  writes to a page that is not writable. After the handler returns, the access is repeated.
\<close>

subsection \<open>Ending a process\<close>

text \<open>How a function called by a system call ends: with a value, or with the end of the process.\<close>

datatype 'a outcome = Ret 'a | Exited | Halted | Execute "byte list" | Wait int

definition andthen :: "(vm \<times> 'a outcome) option \<Rightarrow> (vm \<Rightarrow> 'a \<Rightarrow> (vm \<times> 'b outcome) option) \<Rightarrow> (vm \<times> 'b outcome) option" where
  "andthen m f = do {
     (v, r) \<leftarrow> m;
     case r of Ret x \<Rightarrow> f v x | Exited \<Rightarrow> Some (v, Exited) | Halted \<Rightarrow> Some (v, Halted)
       | Execute c \<Rightarrow> Some (v, Execute c) | Wait p \<Rightarrow> Some (v, Wait p) }"

definition FD_MAX :: nat where
  "FD_MAX = 128"

fun close_fds :: "nat \<Rightarrow> nat \<Rightarrow> vm \<Rightarrow> vm option" where
  "close_fds i 0 v = Some v"
| "close_fds i (Suc n) v = do {
     let f = p_file_descriptors (cur_process v) ! i;
     v \<leftarrow> (if f \<noteq> NULL then do {
         v \<leftarrow> fs_do (file_close f) v;
         Some (upd_process (cur_thread v) (\<lambda>p. p\<lparr>p_file_descriptors := (p_file_descriptors p)[i := NULL]\<rparr>) v) }
       else Some v);
     close_fds (i + 1) n v }"

definition fd_close_all :: "vm \<Rightarrow> vm option" where
  "fd_close_all v = do {
     v \<leftarrow> mutex_acquire File_Lock v;
     v \<leftarrow> close_fds 2 (FD_MAX - 2) v;
     mutex_release File_Lock v }"

definition close_executable :: "vm \<Rightarrow> vm option" where
  "close_executable v = (let f = p_executable (cur_process v) in
     if f \<noteq> NULL then do {
       v \<leftarrow> mutex_acquire File_Lock v;
       v \<leftarrow> fs_do (file_allow_write f) v;
       v \<leftarrow> fs_do (file_close f) v;
       v \<leftarrow> mutex_release File_Lock v;
       Some (upd_process (cur_thread v) (\<lambda>p. p\<lparr>p_executable := NULL\<rparr>) v) }
     else Some v)"

definition report_exit :: "int \<Rightarrow> vm \<Rightarrow> vm option" where
  "report_exit status v = (let r = p_my_record (cur_process v) in
     if r \<noteq> NULL then do {
       c \<leftarrow> child_records v r;
       let c = c\<lparr>c_exit_status := status, c_exited := True, c_wait_sema := c_wait_sema c + 1\<rparr>;
       let v = (if c_parent_thread c = NULL then v\<lparr>child_records := (child_records v)(r := None)\<rparr>
                else v\<lparr>child_records := (child_records v)(r \<mapsto> c)\<rparr>);
       Some (upd_process (cur_thread v) (\<lambda>p. p\<lparr>p_my_record := NULL\<rparr>) v) }
     else Some v)"

text \<open>\<^verbatim>\<open>thread_exit\<close> calls \<open>process_exit\<close> and leaves the scheduler, which is the subject of \<open>Kernel_Threads\<close>.\<close>

definition sys_exit :: "int \<Rightarrow> vm \<Rightarrow> (vm \<times> 'a outcome) option" where
  "sys_exit status v = do {
     v \<leftarrow> fd_close_all v;
     v \<leftarrow> close_executable v;
     v \<leftarrow> report_exit status v;
     v \<leftarrow> process_exit v;
     Some (v, Exited) }"

subsection \<open>The page fault handler\<close>

definition SEL_KCSEG :: nat where "SEL_KCSEG = 0x08"
definition SEL_UCSEG :: nat where "SEL_UCSEG = 0x1b"

definition PF_P :: nat where "PF_P = 1"
definition PF_W :: nat where "PF_W = 2"
definition PF_U :: nat where "PF_U = 4"

definition kill :: "nat \<Rightarrow> vm \<Rightarrow> (vm \<times> 'a outcome) option" where
  "kill cs v =
     (if cs = SEL_UCSEG then sys_exit (-1) v
      else if cs = SEL_KCSEG then None
      else do { v \<leftarrow> process_exit v; Some (v, Exited) })"

text \<open>\<^verbatim>\<open>esp - 32\<close> as an unsigned number.\<close>

definition below_esp :: "ptr \<Rightarrow> ptr" where
  "below_esp esp = usz (esp + 2 ^ 32 - 32)"

definition grow_stack :: "ptr \<Rightarrow> ptr \<Rightarrow> vm \<Rightarrow> (vm \<times> bool) option" where
  "grow_stack esp fault_addr v =
     (if fault_addr \<ge> below_esp esp \<and> fault_addr < PHYS_BASE then do {
        let page = pg_round_down fault_addr;
        if PHYS_BASE - page \<le> 8 * 1024 * 1024 then do {
          (v, ok) \<leftarrow> spt_set_zero (cur_thread v) page True v;
          if ok then spt_load_page (cur_thread v) page v else Some (v, False) }
        else Some (v, False) }
      else Some (v, False))"

definition page_fault :: "nat \<Rightarrow> ptr \<Rightarrow> nat \<Rightarrow> ptr \<Rightarrow> vm \<Rightarrow> (vm \<times> unit outcome) option" where
  "page_fault error_code f_esp cs fault_addr v = do {
     let v = v\<lparr>page_fault_cnt := s64 (page_fault_cnt v + 1)\<rparr>;
     let not_present = (error_code AND PF_P = 0);
     let user = (error_code AND PF_U \<noteq> 0);
     (v, ok) \<leftarrow> (if is_user_vaddr fault_addr \<and> fault_addr \<ge> 0x08048000 then do {
         let esp = (if user then f_esp else p_esp_on_syscall (cur_process v));
         (v, ok) \<leftarrow> grow_stack esp fault_addr v;
         if ok then Some (v, True)
         else if not_present then spt_load_page (cur_thread v) fault_addr v
         else Some (v, False) }
       else Some (v, False));
     if ok then Some (v, Ret ()) else kill cs v }"

subsection \<open>User memory\<close>

datatype access = Phys ptr | Fault nat

definition mmu :: "bool \<Rightarrow> bool \<Rightarrow> ptr \<Rightarrow> vm \<Rightarrow> (vm \<times> access) option" where
  "mmu user w va v = do {
     let code = (if w then PF_W else 0) + (if user then PF_U else 0);
     pd \<leftarrow> active_pd v;
     let pde = load_word (ram v) (pd + 4 * pd_no va);
     if pde AND PTE_P = 0 then Some (v, Fault code) else do {
       pt \<leftarrow> pde_get_pt pde;
       let pte = pt + 4 * pt_no va;
       let e = load_word (ram v) pte;
       if e AND PTE_P = 0 then Some (v, Fault code)
       else if (w \<and> (e AND PTE_W = 0 \<or> pde AND PTE_W = 0)) \<or> (user \<and> (e AND PTE_U = 0 \<or> pde AND PTE_U = 0)) then Some (v, Fault (code + PF_P))
       else do {
         p \<leftarrow> pte_get_page e;
         Some (v\<lparr>ram := store_word (ram v) pte (e OR PTE_A OR (if w then PTE_D else 0))\<rparr>, Phys (p + pg_ofs va)) } } }"

text \<open>An access of the kernel to user memory: the physical address, after the faults it takes were handled.\<close>

partial_function (option) user_access :: "bool \<Rightarrow> ptr \<Rightarrow> vm \<Rightarrow> (vm \<times> ptr) option" where
  "user_access w va v = Option.bind (mmu False w va v)
     (\<lambda>(v, a). case a of
        Phys p \<Rightarrow> Some (v, p)
      | Fault code \<Rightarrow> Option.bind (page_fault code NULL SEL_KCSEG va v) (\<lambda>(v, _). user_access w va v))"

fun read_user :: "ptr \<Rightarrow> nat \<Rightarrow> vm \<Rightarrow> (vm \<times> byte list) option" where
  "read_user ua 0 v = Some (v, [])"
| "read_user ua (Suc n) v = do {
     (v, p) \<leftarrow> user_access False ua v;
     let b = ram v p;
     (v, bs) \<leftarrow> read_user (usz (ua + 1)) n v;
     Some (v, b # bs) }"

fun write_user :: "ptr \<Rightarrow> byte list \<Rightarrow> vm \<Rightarrow> vm option" where
  "write_user ua [] v = Some v"
| "write_user ua (b # bs) v = do {
     (v, p) \<leftarrow> user_access True ua v;
     write_user (usz (ua + 1)) bs (v\<lparr>ram := (ram v)(p := b)\<rparr>) }"

end
