(* ===== verification/Syscalls.thy ===== *)
theory Syscalls
  imports Page_Fault
begin

text \<open>
  The system calls: \<^verbatim>\<open>userprog/syscall.c\<close>, with virtual memory as the build configures it. Kernel buffers on the stack are
  lists of bytes. A call ends with the value for \<^verbatim>\<open>eax\<close>, with the end of the process, or, for \<^verbatim>\<open>exec\<close> and \<^verbatim>\<open>wait\<close>, with the call of
  \<^verbatim>\<open>process_execute\<close> or \<^verbatim>\<open>process_wait\<close>, which let other threads run.
\<close>

subsection \<open>Checks of user memory\<close>

definition valid_uaddr :: "ptr \<Rightarrow> bool \<Rightarrow> vm \<Rightarrow> bool option" where
  "valid_uaddr uaddr w v =
     (if uaddr = NULL \<or> \<not> is_user_vaddr uaddr then Some False else do {
        let t = cur_thread v;
        let p = spt_get_entry t (pg_round_down uaddr) v;
        if p \<noteq> NULL then do { e \<leftarrow> spt_entries v p; Some (\<not> (w \<and> \<not> se_writable e)) }
        else do {
          let esp = p_esp_on_syscall (cur_process v);
          Some (uaddr \<ge> PHYS_BASE - 8 * 1024 * 1024 \<and> uaddr < PHYS_BASE \<and> uaddr \<ge> below_esp esp \<and>
                spt_get_entry t (pg_round_down esp) v \<noteq> NULL) } })"

definition uaddr_check :: "ptr \<Rightarrow> vm \<Rightarrow> (vm \<times> unit outcome) option" where
  "uaddr_check u v = do { ok \<leftarrow> valid_uaddr u False v; if \<not> ok then sys_exit (-1) v else Some (v, Ret ()) }"

definition valid_urange :: "ptr \<Rightarrow> nat \<Rightarrow> bool \<Rightarrow> vm \<Rightarrow> bool option" where
  "valid_urange uaddr n w v =
     (if uaddr = NULL then Some False
      else if n = 0 then Some True
      else do {
        a \<leftarrow> valid_uaddr uaddr w v;
        if \<not> a then Some False
        else do { b \<leftarrow> valid_uaddr (usz (uaddr + n - 1)) w v; Some b } })"

definition copy_in :: "ptr \<Rightarrow> nat \<Rightarrow> vm \<Rightarrow> (vm \<times> byte list option) option" where
  "copy_in usrc n v = do {
     ok \<leftarrow> valid_urange usrc n False v;
     if \<not> ok then Some (v, None) else do { (v, bs) \<leftarrow> read_user usrc n v; Some (v, Some bs) } }"

definition copy_out :: "ptr \<Rightarrow> byte list \<Rightarrow> vm \<Rightarrow> (vm \<times> bool) option" where
  "copy_out udst bs v = do {
     ok \<leftarrow> valid_urange udst (length bs) True v;
     if \<not> ok then Some (v, False) else do { v \<leftarrow> write_user udst bs v; Some (v, True) } }"

text \<open>
  The string copied so far, and how the loop of \<open>copy_in_cstr\<close> ends: with the string, with a bad address (-1), or without a
  terminator in the first \<open>cap\<close> bytes (-2). The last number counts the bytes left.
\<close>

datatype cstr_result = Cstr "byte list" | Bad_Address | Too_Long

fun copy_in_cstr_loop :: "ptr \<Rightarrow> byte list \<Rightarrow> nat \<Rightarrow> nat \<Rightarrow> vm \<Rightarrow> (vm \<times> cstr_result) option" where
  "copy_in_cstr_loop ustr kbuf i 0 v = Some (v, Too_Long)"
| "copy_in_cstr_loop ustr kbuf i (Suc n) v = do {
     let up = usz (ustr + i);
     ok \<leftarrow> valid_uaddr up False v;
     if \<not> ok then Some (v, Bad_Address) else do {
       (v, p) \<leftarrow> user_access False up v;
       let c = ram v p;
       if c = 0 then Some (v, Cstr kbuf) else copy_in_cstr_loop ustr (kbuf @ [c]) (i + 1) n v } }"

definition copy_in_cstr :: "ptr \<Rightarrow> nat \<Rightarrow> vm \<Rightarrow> (vm \<times> cstr_result) option" where
  "copy_in_cstr ustr cap v = do {
     ok \<leftarrow> valid_uaddr ustr False v;
     if \<not> ok then Some (v, Bad_Address) else copy_in_cstr_loop ustr [] 0 cap v }"

definition uarg :: "ptr \<Rightarrow> nat \<Rightarrow> vm \<Rightarrow> (vm \<times> nat outcome) option" where
  "uarg esp i v = do {
     let p = usz (esp + 4 * i);
     if p = NULL \<or> \<not> is_user_vaddr p then sys_exit (-1) v
     else if \<not> is_user_vaddr (usz (p + 3)) then sys_exit (-1) v
     else do { (v, bs) \<leftarrow> read_user p 4 v; Some (v, Ret (of_le32 bs)) } }"

definition uarg_ptr :: "ptr \<Rightarrow> nat \<Rightarrow> vm \<Rightarrow> (vm \<times> nat outcome) option" where
  "uarg_ptr esp i v = andthen (uarg esp i v)
     (\<lambda>v raw. if raw = 0 \<and> \<not> is_user_vaddr raw then sys_exit (-1) v else Some (v, Ret raw))"

definition uarg_cstr :: "ptr \<Rightarrow> nat \<Rightarrow> vm \<Rightarrow> (vm \<times> nat outcome) option" where
  "uarg_cstr esp i v = uarg_ptr esp i v"

subsection \<open>File descriptors\<close>

definition fd_get :: "int \<Rightarrow> vm \<Rightarrow> ptr" where
  "fd_get fd v = (if fd < 2 \<or> fd \<ge> int FD_MAX then NULL else p_file_descriptors (cur_process v) ! nat fd)"

definition set_fd :: "nat \<Rightarrow> ptr \<Rightarrow> vm \<Rightarrow> vm" where
  "set_fd fd f v = upd_process (cur_thread v) (\<lambda>p. p\<lparr>p_file_descriptors := (p_file_descriptors p)[fd := f]\<rparr>) v"

definition fd_detach :: "int \<Rightarrow> vm \<Rightarrow> vm \<times> ptr" where
  "fd_detach fd v =
     (if fd < 2 \<or> fd \<ge> int FD_MAX then (v, NULL)
      else (set_fd (nat fd) NULL v, p_file_descriptors (cur_process v) ! nat fd))"

text \<open>A call of the file system under the lock.\<close>

definition locked :: "(vm \<Rightarrow> (vm \<times> 'r) option) \<Rightarrow> vm \<Rightarrow> (vm \<times> 'r) option" where
  "locked f v = do {
     v \<leftarrow> mutex_acquire File_Lock v;
     (v, r) \<leftarrow> f v;
     v \<leftarrow> mutex_release File_Lock v;
     Some (v, r) }"

definition file_close_locked :: "ptr \<Rightarrow> vm \<Rightarrow> vm option" where
  "file_close_locked f v = do {
     (v, _) \<leftarrow> locked (\<lambda>v. do { v \<leftarrow> fs_do (file_close f) v; Some (v, ()) }) v;
     Some v }"

definition sys_create :: "byte list \<Rightarrow> ptr \<Rightarrow> nat \<Rightarrow> vm \<Rightarrow> (vm \<times> bool outcome) option" where
  "sys_create stack u_file initial_size v =
     (if u_file = NULL then sys_exit (-1) v else do {
        (v, r) \<leftarrow> copy_in_cstr u_file (NAME_MAX + 1) v;
        case r of
          Bad_Address \<Rightarrow> sys_exit (-1) v
        | Too_Long \<Rightarrow> Some (v, Ret False)
        | Cstr name \<Rightarrow>
            if name = [] then Some (v, Ret False)
            else do { (v, ok) \<leftarrow> locked (fs_call (filesys_create stack name (s32 (int initial_size)))) v; Some (v, Ret ok) } })"

definition sys_remove :: "ptr \<Rightarrow> vm \<Rightarrow> (vm \<times> bool outcome) option" where
  "sys_remove u_file v =
     (if u_file = NULL then sys_exit (-1) v else do {
        (v, r) \<leftarrow> copy_in_cstr u_file 256 v;
        case r of
          Bad_Address \<Rightarrow> sys_exit (-1) v
        | Too_Long \<Rightarrow> Some (v, Ret False)
        | Cstr name \<Rightarrow>
            if name = [] then Some (v, Ret False)
            else do { (v, ok) \<leftarrow> locked (fs_call (filesys_remove name)) v; Some (v, Ret ok) } })"

text \<open>The search of \<open>sys_open\<close> for a free descriptor; the second number counts the descriptors left.\<close>

fun free_fd :: "nat \<Rightarrow> nat \<Rightarrow> ptr list \<Rightarrow> nat option" where
  "free_fd fd 0 fds = None"
| "free_fd fd (Suc n) fds = (if fds ! fd = NULL then Some fd else free_fd (fd + 1) n fds)"

definition sys_open :: "ptr \<Rightarrow> vm \<Rightarrow> (vm \<times> int outcome) option" where
  "sys_open u_file v =
     (if u_file = NULL then sys_exit (-1) v else do {
        (v, r) \<leftarrow> copy_in_cstr u_file 256 v;
        case r of
          Bad_Address \<Rightarrow> sys_exit (-1) v
        | Too_Long \<Rightarrow> Some (v, Ret (-1))
        | Cstr name \<Rightarrow>
            if name = [] then Some (v, Ret (-1)) else do {
              (v, f) \<leftarrow> locked (fs_call (filesys_open name)) v;
              if f = NULL then Some (v, Ret (-1))
              else case free_fd 2 (FD_MAX - 2) (p_file_descriptors (cur_process v)) of
                  Some fd \<Rightarrow> Some (set_fd fd f v, Ret (int fd))
                | None \<Rightarrow> do { v \<leftarrow> file_close_locked f v; Some (v, Ret (-1)) } } })"

definition sys_close :: "int \<Rightarrow> vm \<Rightarrow> (vm \<times> unit outcome) option" where
  "sys_close fd v =
     (if fd = 0 \<or> fd = 1 then Some (v, Ret ()) else do {
        let (v, f) = fd_detach fd v;
        if f = NULL then Some (v, Ret ()) else do { v \<leftarrow> file_close_locked f v; Some (v, Ret ()) } })"

definition sys_filesize :: "int \<Rightarrow> vm \<Rightarrow> (vm \<times> int outcome) option" where
  "sys_filesize fd v =
     (if fd \<le> 1 then Some (v, Ret (-1)) else do {
        let f = fd_get fd v;
        if f = NULL then Some (v, Ret (-1)) else do {
          (v, n) \<leftarrow> locked (\<lambda>v. do { n \<leftarrow> file_length f (fs v); Some (v, n) }) v;
          Some (v, Ret n) } })"

definition sys_seek :: "int \<Rightarrow> nat \<Rightarrow> vm \<Rightarrow> (vm \<times> unit outcome) option" where
  "sys_seek fd position v = do {
     let f = fd_get fd v;
     if f = NULL then Some (v, Ret ()) else do {
       (v, _) \<leftarrow> locked (\<lambda>v. do { v \<leftarrow> fs_do (file_seek f (s32 (int position))) v; Some (v, ()) }) v;
       Some (v, Ret ()) } }"

definition sys_tell :: "int \<Rightarrow> vm \<Rightarrow> (vm \<times> nat outcome) option" where
  "sys_tell fd v =
     (if fd \<le> 1 then Some (v, Ret 0) else do {
        let f = fd_get fd v;
        if f = NULL then Some (v, Ret 0) else do {
          (v, n) \<leftarrow> locked (\<lambda>v. do { n \<leftarrow> file_tell f (fs v); Some (v, n) }) v;
          Some (v, Ret (u32_of n)) } })"

subsection \<open>Reading and writing\<close>

function pin_loop :: "ptr \<Rightarrow> ptr \<Rightarrow> vm \<Rightarrow> vm option" where
  "pin_loop page stop v =
     (if page \<le> stop then do {
        let pd = p_pagedir (cur_process v);
        kpage \<leftarrow> pagedir_get_page pd page v;
        (v, kpage) \<leftarrow> (if kpage = NULL then do {
            (v, ok) \<leftarrow> spt_load_page (cur_thread v) page v;
            if ok then do { kpage \<leftarrow> pagedir_get_page pd page v; Some (v, kpage) } else Some (v, NULL) }
          else Some (v, kpage));
        v \<leftarrow> (if kpage \<noteq> NULL then frame_pin kpage v else Some v);
        pin_loop (page + PGSIZE) stop v }
      else Some v)"
  by auto
termination by (relation "measure (\<lambda>(page, stop, v). Suc stop - page)") (auto simp: PGSIZE_def)

function unpin_loop :: "ptr \<Rightarrow> ptr \<Rightarrow> vm \<Rightarrow> vm option" where
  "unpin_loop page stop v =
     (if page \<le> stop then do {
        kpage \<leftarrow> pagedir_get_page (p_pagedir (cur_process v)) page v;
        v \<leftarrow> (if kpage \<noteq> NULL then frame_unpin kpage v else Some v);
        unpin_loop (page + PGSIZE) stop v }
      else Some v)"
  by auto
termination by (relation "measure (\<lambda>(page, stop, v). Suc stop - page)") (auto simp: PGSIZE_def)

declare pin_loop.simps [simp del] unpin_loop.simps [simp del]

definition pin_buffer :: "ptr \<Rightarrow> nat \<Rightarrow> vm \<Rightarrow> vm option" where
  "pin_buffer buffer n v = (if n = 0 then Some v else pin_loop (pg_round_down buffer) (pg_round_down (usz (buffer + n - 1))) v)"

definition unpin_buffer :: "ptr \<Rightarrow> nat \<Rightarrow> vm \<Rightarrow> vm option" where
  "unpin_buffer buffer n v = (if n = 0 then Some v else unpin_loop (pg_round_down buffer) (pg_round_down (usz (buffer + n - 1))) v)"

text \<open>Unpinning the buffer before a result is returned.\<close>

definition unpin_ret :: "ptr \<Rightarrow> nat \<Rightarrow> 'a \<Rightarrow> vm \<Rightarrow> (vm \<times> 'a outcome) option" where
  "unpin_ret ubuf n r v = do { v \<leftarrow> unpin_buffer ubuf n v; Some (v, Ret r) }"

definition unpin_exit :: "ptr \<Rightarrow> nat \<Rightarrow> vm \<Rightarrow> (vm \<times> 'a outcome) option" where
  "unpin_exit ubuf n v = do { v \<leftarrow> unpin_buffer ubuf n v; sys_exit (-1) v }"

definition input_getc :: "vm \<Rightarrow> vm \<times> byte" where
  "input_getc v = (v\<lparr>input_chars := \<lambda>n. input_chars v (Suc n)\<rparr>, input_chars v 0)"

fun read_keyboard :: "ptr \<Rightarrow> nat \<Rightarrow> nat \<Rightarrow> nat \<Rightarrow> vm \<Rightarrow> (vm \<times> int outcome) option" where
  "read_keyboard ubuf n i 0 v = unpin_ret ubuf n (s32 (int i)) v"
| "read_keyboard ubuf n i (Suc k) v = do {
     let (v, c) = input_getc v;
     (v, ok) \<leftarrow> copy_out (usz (ubuf + i)) [c] v;
     if \<not> ok then unpin_exit ubuf n v else read_keyboard ubuf n (i + 1) k v }"

text \<open>The loops over pieces of at most 512 bytes. Every round but the last transfers at least one byte; \<^verbatim>\<open>file_read\<close> returns no negative number.\<close>

function read_chunks :: "ptr \<Rightarrow> ptr \<Rightarrow> nat \<Rightarrow> nat \<Rightarrow> vm \<Rightarrow> (vm \<times> int outcome) option" where
  "read_chunks f ubuf n tot v =
     (if tot < n then do {
        let want = min (n - tot) 512;
        (v, bs) \<leftarrow> locked (fs_call (file_read f (int want))) v;
        if bs = [] then unpin_ret ubuf n (s32 (int tot)) v
        else do {
          (v, ok) \<leftarrow> copy_out (usz (ubuf + tot)) bs v;
          if \<not> ok then unpin_exit ubuf n v else read_chunks f ubuf n (tot + length bs) v } }
      else unpin_ret ubuf n (s32 (int tot)) v)"
  by auto
termination by (relation "measure (\<lambda>(f, ubuf, n, tot, v). n - tot)") (auto intro!: diff_less_mono2)

definition sys_read :: "int \<Rightarrow> ptr \<Rightarrow> nat \<Rightarrow> vm \<Rightarrow> (vm \<times> int outcome) option" where
  "sys_read fd ubuf n v =
     (if n = 0 then Some (v, Ret 0)
      else if fd = 1 then Some (v, Ret (-1))
      else do {
        ok \<leftarrow> valid_urange ubuf n True v;
        if \<not> ok then sys_exit (-1) v
        else do {
          v \<leftarrow> pin_buffer ubuf n v;
          if fd = 0 then read_keyboard ubuf n 0 n v
          else let f = fd_get fd v in
            if f = NULL then unpin_ret ubuf n (-1) v else read_chunks f ubuf n 0 v } })"

function write_console :: "ptr \<Rightarrow> nat \<Rightarrow> nat \<Rightarrow> vm \<Rightarrow> (vm \<times> int outcome) option" where
  "write_console ubuf n done v =
     (if done < n then do {
        let k = min (n - done) 512;
        (v, r) \<leftarrow> copy_in (usz (ubuf + done)) k v;
        case r of
          None \<Rightarrow> unpin_exit ubuf n v
        | Some bs \<Rightarrow> write_console ubuf n (done + k) (v\<lparr>console_out := console_out v @ bs\<rparr>) }
      else unpin_ret ubuf n (s32 (int done)) v)"
  by auto
termination by (relation "measure (\<lambda>(ubuf, n, done, v). n - done)") auto

function write_chunks :: "ptr \<Rightarrow> ptr \<Rightarrow> nat \<Rightarrow> nat \<Rightarrow> vm \<Rightarrow> (vm \<times> int outcome) option" where
  "write_chunks f ubuf n tot v =
     (if tot < n then do {
        let want = min (n - tot) 512;
        (v, r) \<leftarrow> copy_in (usz (ubuf + tot)) want v;
        case r of
          None \<Rightarrow> unpin_exit ubuf n v
        | Some bs \<Rightarrow> do {
            (v, k) \<leftarrow> locked (fs_call (file_write f bs (int want))) v;
            if k < 0 then unpin_ret ubuf n (-1) v
            else if k = 0 then unpin_ret ubuf n (s32 (int tot)) v
            else write_chunks f ubuf n (tot + nat k) v } }
      else unpin_ret ubuf n (s32 (int tot)) v)"
  by auto
termination by (relation "measure (\<lambda>(f, ubuf, n, tot, v). n - tot)") auto

declare read_chunks.simps [simp del] write_console.simps [simp del] write_chunks.simps [simp del]

definition sys_write :: "int \<Rightarrow> ptr \<Rightarrow> nat \<Rightarrow> vm \<Rightarrow> (vm \<times> int outcome) option" where
  "sys_write fd ubuf n v =
     (if n = 0 then Some (v, Ret 0)
      else do {
        ok \<leftarrow> valid_urange ubuf n False v;
        if \<not> ok then sys_exit (-1) v
        else if fd = 0 then Some (v, Ret (-1))
        else do {
          v \<leftarrow> pin_buffer ubuf n v;
          if fd = 1 then write_console ubuf n 0 v
          else let f = fd_get fd v in
            if f = NULL then unpin_ret ubuf n (-1) v else write_chunks f ubuf n 0 v } })"

subsection \<open>Processes and mappings\<close>

definition sys_exec :: "ptr \<Rightarrow> vm \<Rightarrow> (vm \<times> int outcome) option" where
  "sys_exec cmd_line v = andthen (uaddr_check cmd_line v)
     (\<lambda>v _. do {
        (v, r) \<leftarrow> copy_in_cstr cmd_line 256 v;
        case r of
          Cstr c \<Rightarrow> if c = [] then Some (v, Ret (-1)) else Some (v, Execute c)
        | _ \<Rightarrow> sys_exit (-1) v })"

definition sys_wait :: "int \<Rightarrow> vm \<Rightarrow> (vm \<times> int outcome) option" where
  "sys_wait pid v = Some (v, Wait pid)"

definition sys_halt :: "vm \<Rightarrow> (vm \<times> 'a outcome) option" where
  "sys_halt v = Some (v, Halted)"

text \<open>Whether all pages of the range are free; the last number counts the pages left.\<close>

fun range_free :: "ptr \<Rightarrow> nat \<Rightarrow> nat \<Rightarrow> vm \<Rightarrow> bool option" where
  "range_free addr i 0 v = Some True"
| "range_free addr i (Suc n) v = do {
     let page = usz (addr + i * PGSIZE);
     k \<leftarrow> pagedir_get_page (p_pagedir (cur_process v)) page v;
     if k \<noteq> NULL then Some False
     else if spt_get_entry (cur_thread v) page v \<noteq> NULL then Some False
     else range_free addr (i + 1) n v }"

definition sys_mmap :: "int \<Rightarrow> ptr \<Rightarrow> vm \<Rightarrow> (vm \<times> int outcome) option" where
  "sys_mmap fd addr v =
     (if addr = NULL \<or> pg_ofs addr \<noteq> 0 then Some (v, Ret (-1))
      else if fd = 0 \<or> fd = 1 then Some (v, Ret (-1))
      else if \<not> is_user_vaddr addr then Some (v, Ret (-1))
      else let f = fd_get fd v in
        if f = NULL then Some (v, Ret (-1)) else do {
          (v, len) \<leftarrow> locked (\<lambda>v. do { n \<leftarrow> file_length f (fs v); Some (v, n) }) v;
          if len = 0 then Some (v, Ret (-1)) else do {
            let page_count = u32_of (s32 (len + int PGSIZE - 1) sdiv int PGSIZE);
            ok \<leftarrow> range_free addr 0 page_count v;
            if \<not> ok then Some (v, Ret (-1)) else do {
              (v, file_copy) \<leftarrow> locked (fs_call (file_reopen f)) v;
              if file_copy = NULL then Some (v, Ret (-1)) else do {
                (v, mapid) \<leftarrow> mmap_map addr file_copy 0 (u32_of len) v;
                if mapid = -1 then do { v \<leftarrow> file_close_locked file_copy v; Some (v, Ret mapid) }
                else Some (v, Ret mapid) } } } })"

definition sys_munmap :: "int \<Rightarrow> vm \<Rightarrow> (vm \<times> unit outcome) option" where
  "sys_munmap mapid v = (if mapid < 0 then Some (v, Ret ()) else do { v \<leftarrow> mmap_unmap mapid v; Some (v, Ret ()) })"

subsection \<open>The handler\<close>

text \<open>The value for \<^verbatim>\<open>eax\<close>, or \<^term>\<open>None\<close> for a call that does not set it. The first argument is what \<^verbatim>\<open>dir_add\<close> finds on its stack.\<close>

definition eax :: "(vm \<times> int outcome) option \<Rightarrow> (vm \<times> nat option outcome) option" where
  "eax m = andthen m (\<lambda>v r. Some (v, Ret (Some (u32_of r))))"

definition no_result :: "(vm \<times> unit outcome) option \<Rightarrow> (vm \<times> nat option outcome) option" where
  "no_result m = andthen m (\<lambda>v r. Some (v, Ret None))"

definition bool_result :: "(vm \<times> bool outcome) option \<Rightarrow> (vm \<times> nat option outcome) option" where
  "bool_result m = andthen m (\<lambda>v r. Some (v, Ret (Some (if r then 1 else 0))))"

definition int_arg :: "nat \<Rightarrow> int" where
  "int_arg raw = s32 (int raw)"

definition syscall_case :: "byte list \<Rightarrow> ptr \<Rightarrow> nat \<Rightarrow> vm \<Rightarrow> (vm \<times> nat option outcome) option" where
  "syscall_case stack esp no v =
     (if no = 0 then sys_halt v
      else if no = 1 then andthen (uarg esp 1 v) (\<lambda>v st. sys_exit (int_arg st) v)
      else if no = 2 then andthen (uarg_cstr esp 1 v) (\<lambda>v cmd. eax (sys_exec cmd v))
      else if no = 3 then andthen (uarg esp 1 v) (\<lambda>v pid. eax (sys_wait (int_arg pid) v))
      else if no = 4 then andthen (uarg_cstr esp 1 v) (\<lambda>v name. andthen (uarg esp 2 v) (\<lambda>v n. bool_result (sys_create stack name n v)))
      else if no = 5 then andthen (uarg_cstr esp 1 v) (\<lambda>v name. bool_result (sys_remove name v))
      else if no = 6 then andthen (uarg_cstr esp 1 v) (\<lambda>v name. eax (sys_open name v))
      else if no = 7 then andthen (uarg esp 1 v) (\<lambda>v fd. eax (sys_filesize (int_arg fd) v))
      else if no = 8 then andthen (uarg esp 1 v) (\<lambda>v fd. andthen (uarg_ptr esp 2 v) (\<lambda>v ubuf.
        andthen (uarg esp 3 v) (\<lambda>v n. eax (sys_read (int_arg fd) ubuf n v))))
      else if no = 9 then andthen (uarg esp 1 v) (\<lambda>v fd. andthen (uarg_ptr esp 2 v) (\<lambda>v ubuf.
        andthen (uarg esp 3 v) (\<lambda>v n. eax (sys_write (int_arg fd) ubuf n v))))
      else if no = 10 then andthen (uarg esp 1 v) (\<lambda>v fd. andthen (uarg esp 2 v) (\<lambda>v pos. no_result (sys_seek (int_arg fd) pos v)))
      else if no = 11 then andthen (uarg esp 1 v) (\<lambda>v fd. andthen (sys_tell (int_arg fd) v) (\<lambda>v n. Some (v, Ret (Some n))))
      else if no = 12 then andthen (uarg esp 1 v) (\<lambda>v fd. no_result (sys_close (int_arg fd) v))
      else if no = 13 then andthen (uarg esp 1 v) (\<lambda>v fd. andthen (uarg_ptr esp 2 v) (\<lambda>v addr. eax (sys_mmap (int_arg fd) addr v)))
      else if no = 14 then andthen (uarg esp 1 v) (\<lambda>v mapid. no_result (sys_munmap (int_arg mapid) v))
      else sys_exit (-1) v)"

definition syscall_handler :: "byte list \<Rightarrow> ptr \<Rightarrow> vm \<Rightarrow> (vm \<times> nat option outcome) option" where
  "syscall_handler stack esp v =
     andthen (uaddr_check esp (upd_process (cur_thread v) (\<lambda>p. p\<lparr>p_esp_on_syscall := esp\<rparr>) v))
       (\<lambda>v _. andthen (uarg esp 0 v) (\<lambda>v no. syscall_case stack esp no v))"

end
