(* ===== verification/Spec2Isabelle.thy ===== *)
theory Spec2Isabelle
  imports Kernel_List_Sort Kernel_Steps Directory_Spec Lib_Arith Process_Args Syscalls
begin

text \<open>
  A verification development for the Pintos kernel of this repository.
\<close>

end
